(* ===== verification/Prelude.thy ===== *)
theory Prelude
  imports Main "HOL-Library.Word" "HOL-Library.Multiset"
begin

text \<open>
  Shared material of the development.

  The components of the runtime are objects that several threads use at once. A component is
  therefore an executable step function \<open>exec :: 'a \<Rightarrow> 's \<Rightarrow> 's option\<close>: an action \<open>a\<close> names the
  thread that moves and resolves what the source leaves open (which waiter a notification wakes,
  a spurious wake-up, an elapsed timeout), and \<open>None\<close> says that the action is not enabled. Here
  are the runs of such a function (\<open>run\<close>), the states it reaches (\<open>reachable\<close>), and the contracts
  the components discharge: that an invariant is kept (\<open>invariant_system\<close>), that the steps
  refine an atomic specification, each operation taking effect at one step (\<open>linearization\<close>), and what a
  thread that calls such an object may rely on (\<open>atomic_object\<close>).

  The rest is the counting of threads in a list of program counters and the words used for the
  counters of the source.
\<close>

section \<open>Types and collections\<close>

type_synonym tid = nat
type_synonym u64 = "64 word"

text \<open>The definitions of the atomic operations a component refines, for \<open>simp add: atomic_ops\<close>.\<close>

named_theorems atomic_ops "definitions of the atomic operations"

section \<open>Definitions\<close>

text \<open>The enabled result of a step: \<open>x\<close> when the guard holds, not enabled otherwise.\<close>

definition guarded :: "bool \<Rightarrow> 'a \<Rightarrow> 'a option" where
  "guarded g x = (if g then Some x else None)"

text \<open>A run of a step function over a schedule of actions.\<close>

fun run :: "('a \<Rightarrow> 's \<Rightarrow> 's option) \<Rightarrow> 'a list \<Rightarrow> 's \<Rightarrow> 's option" where
  "run exec [] s = Some s"
| "run exec (a # as) s = (case exec a s of None \<Rightarrow> None | Some s' \<Rightarrow> run exec as s')"

inductive reachable :: "('s \<Rightarrow> bool) \<Rightarrow> ('a \<Rightarrow> 's \<Rightarrow> 's option) \<Rightarrow> 's \<Rightarrow> bool"
  for init :: "'s \<Rightarrow> bool" and exec :: "'a \<Rightarrow> 's \<Rightarrow> 's option" where
  start: "init s \<Longrightarrow> reachable init exec s"
| step: "reachable init exec s \<Longrightarrow> exec a s = Some s' \<Longrightarrow> reachable init exec s'"

text \<open>The events a run produces, in order, when \<open>lin\<close> gives the event of a step.\<close>

fun events :: "('a \<Rightarrow> 's \<Rightarrow> 's option) \<Rightarrow> ('a \<Rightarrow> 's \<Rightarrow> 'e option) \<Rightarrow> 'a list \<Rightarrow> 's \<Rightarrow> 'e list" where
  "events exec lin [] s = []"
| "events exec lin (a # as) s =
     (case exec a s of None \<Rightarrow> []
      | Some s' \<Rightarrow> (case lin a s of None \<Rightarrow> [] | Some e \<Rightarrow> [e]) @ events exec lin as s')"

text \<open>Number of threads whose program counter is in a class.\<close>

definition cnt :: "('p \<Rightarrow> bool) \<Rightarrow> 'p list \<Rightarrow> nat" where
  "cnt P ps = length (filter P ps)"

section \<open>Runs and reachable states\<close>

lemma guarded_Some [simp]: "guarded g x = Some y \<longleftrightarrow> g \<and> x = y"
  by (simp add: guarded_def)

lemma guarded_None [simp]: "guarded g x = None \<longleftrightarrow> \<not> g"
  by (simp add: guarded_def)

lemma guarded_True [simp]: "guarded True x = Some x"
  by (simp add: guarded_def)

lemma guarded_False [simp]: "guarded False x = None"
  by (simp add: guarded_def)

lemma run_append:
  "run exec (as @ bs) s = (case run exec as s of None \<Rightarrow> None | Some s' \<Rightarrow> run exec bs s')"
  by (induction as arbitrary: s) (auto split: option.splits)

lemma run_reachable:
  "reachable init exec s \<Longrightarrow> run exec as s = Some s' \<Longrightarrow> reachable init exec s'"
proof (induction as arbitrary: s)
  case (Cons a as)
  then obtain u where "exec a s = Some u" "run exec as u = Some s'"
    by (auto split: option.splits)
  with Cons.IH Cons.prems(1) show ?case by (blast intro: reachable.step)
qed simp

lemma reachable_run:
  assumes "reachable init exec s"
  shows "\<exists>s0 as. init s0 \<and> run exec as s0 = Some s"
  using assms
proof (induction rule: reachable.induct)
  case (start s)
  then show ?case by (metis run.simps(1))
next
  case (step s a s')
  then obtain s0 as where "init s0" "run exec as s0 = Some s" by blast
  with step.hyps(2) have "run exec (as @ [a]) s0 = Some s'" by (simp add: run_append)
  with \<open>init s0\<close> show ?case by blast
qed

lemma reachable_mono:
  assumes "reachable init exec s" "\<And>s. init s \<Longrightarrow> init' s" "\<And>a s s'. exec a s = Some s' \<Longrightarrow> exec' a s = Some s'"
  shows "reachable init' exec' s"
  using assms(1) by (induction rule: reachable.induct) (auto intro: reachable.intros assms(2,3))

section \<open>Counting threads\<close>

lemma cnt_Nil [simp]: "cnt P [] = 0"
  by (simp add: cnt_def)

lemma cnt_Cons [simp]: "cnt P (p # ps) = (if P p then Suc (cnt P ps) else cnt P ps)"
  by (simp add: cnt_def)

lemma cnt_False [simp]: "cnt (\<lambda>p. False) ps = 0"
  by (simp add: cnt_def)

lemma cnt_append: "cnt P (ps @ qs) = cnt P ps + cnt P qs"
  by (simp add: cnt_def)

lemma cnt_zero_iff: "cnt P ps = 0 \<longleftrightarrow> (\<forall>p \<in> set ps. \<not> P p)"
  by (simp add: cnt_def filter_empty_conv)

lemma cnt_pos_iff: "0 < cnt P ps \<longleftrightarrow> (\<exists>t < length ps. P (ps ! t))"
  by (metis cnt_zero_iff in_set_conv_nth neq0_conv)

lemma cnt_pos [intro]: "t < length ps \<Longrightarrow> P (ps ! t) \<Longrightarrow> 0 < cnt P ps"
  by (auto simp: cnt_pos_iff)

lemma cnt_update_add:
  assumes "t < length ps"
  shows "cnt P (ps[t := p]) + (if P (ps ! t) then 1 else 0) = cnt P ps + (if P p then 1 else 0)"
proof -
  have split: "ps = take t ps @ ps ! t # drop (Suc t) ps"
    using assms by (rule id_take_nth_drop)
  have "ps[t := p] = take t ps @ p # drop (Suc t) ps"
    using assms by (rule upd_conv_take_nth_drop)
  moreover have "cnt P ps = cnt P (take t ps) + cnt P (ps ! t # drop (Suc t) ps)"
    by (metis split cnt_append)
  ultimately show ?thesis by (simp add: cnt_append)
qed

lemma cnt_update:
  assumes "t < length ps"
  shows "cnt P (ps[t := p]) = (if P p then 1 else 0) + (cnt P ps - (if P (ps ! t) then 1 else 0))"
  using cnt_update_add [OF assms, of P p] cnt_pos [OF assms, of P] by (auto split: if_splits)

lemma cnt_map: "cnt P (map f ps) = cnt (\<lambda>p. P (f p)) ps"
  by (induction ps) auto

lemma cnt_mono: "(\<And>p. p \<in> set ps \<Longrightarrow> P p \<Longrightarrow> Q p) \<Longrightarrow> cnt P ps \<le> cnt Q ps"
  by (induction ps) (auto intro: le_SucI)

lemma cnt_add_disjoint:
  assumes "\<And>p. p \<in> set ps \<Longrightarrow> \<not> (P p \<and> Q p)"
  shows "cnt P ps + cnt Q ps = cnt (\<lambda>p. P p \<or> Q p) ps"
  using assms by (induction ps) auto

lemma cnt_le_one:
  assumes "\<And>i j. i < length ps \<Longrightarrow> j < length ps \<Longrightarrow> P (ps ! i) \<Longrightarrow> P (ps ! j) \<Longrightarrow> i = j"
  shows "cnt P ps \<le> 1"
proof -
  have "card {i. i < length ps \<and> P (ps ! i)} \<le> Suc 0"
    using assms by (subst card_le_Suc0_iff_eq) auto
  then show ?thesis by (simp add: cnt_def length_filter_conv_card)
qed

lemma cnt_ge_two:
  assumes "i < length ps" "j < length ps" "i \<noteq> j" "P (ps ! i)" "P (ps ! j)"
  shows "2 \<le> cnt P ps"
proof -
  have "{i, j} \<subseteq> {k. k < length ps \<and> P (ps ! k)}" using assms by auto
  then have "card {i, j} \<le> card {k. k < length ps \<and> P (ps ! k)}" by (intro card_mono) auto
  with assms(3) show ?thesis by (simp add: cnt_def length_filter_conv_card)
qed

lemma list_ex_cnt: "list_ex P ps \<longleftrightarrow> 0 < cnt P ps"
  by (induction ps) auto

lemma in_set_update_other: "x \<in> set xs \<Longrightarrow> xs ! t \<noteq> x \<Longrightarrow> x \<in> set (xs[t := y])"
  by (metis in_set_conv_nth length_list_update nth_list_update_neq)

lemma set_update_cases: "x \<in> set (xs[i := y]) \<Longrightarrow> x = y \<or> x \<in> set xs"
  by (meson insertE set_update_subset_insert subsetD)

lemma mset_concat_update:
  assumes "t < length xs"
  shows "mset (concat (map f (xs[t := p]))) + mset (f (xs ! t)) = mset (concat (map f xs)) + mset (f p)"
proof -
  have "xs = take t xs @ xs ! t # drop (Suc t) xs" using assms by (rule id_take_nth_drop)
  then have "mset (concat (map f xs)) = mset (concat (map f (take t xs))) + mset (f (xs ! t)) + mset (concat (map f (drop (Suc t) xs)))"
    by (metis concat_append append_assoc concat.simps(2) list.map(2) map_append mset_append)
  moreover have "xs[t := p] = take t xs @ p # drop (Suc t) xs" using assms by (rule upd_conv_take_nth_drop)
  ultimately show ?thesis by simp
qed

section \<open>Contracts of a component\<close>

text \<open>
  An invariant of a step function: it holds initially and every enabled action keeps it. A
  client may rely on it in every reachable state and at the end of every run.
\<close>

locale invariant_system =
  fixes init :: "'s \<Rightarrow> bool"
    and exec :: "'a \<Rightarrow> 's \<Rightarrow> 's option"
    and inv :: "'s \<Rightarrow> bool"
  assumes inv_init: "init s \<Longrightarrow> inv s"
    and inv_exec: "inv s \<Longrightarrow> exec a s = Some s' \<Longrightarrow> inv s'"
begin

lemma reachable_inv: "reachable init exec s \<Longrightarrow> inv s"
  by (induction rule: reachable.induct) (auto intro: inv_init inv_exec)

lemma run_inv: "inv s \<Longrightarrow> run exec as s = Some s' \<Longrightarrow> inv s'"
  by (induction as arbitrary: s) (auto split: option.splits intro: inv_exec)

lemma run_init_inv: "init s \<Longrightarrow> run exec as s = Some s' \<Longrightarrow> inv s'"
  by (blast intro: run_inv inv_init)

lemma events_cong:
  assumes "\<And>a s s'. inv s \<Longrightarrow> exec a s = Some s' \<Longrightarrow> f a s = g a s"
  shows "inv s \<Longrightarrow> run exec as s = Some s' \<Longrightarrow> events exec f as s = events exec g as s"
proof (induction as arbitrary: s)
  case (Cons a as)
  then obtain u where u: "exec a s = Some u" "run exec as u = Some s'" by (auto split: option.splits)
  with Cons.prems have "inv u" by (blast intro: inv_exec)
  with Cons.IH u(2) assms [OF Cons.prems(1) u(1)] u(1) show ?case by simp
qed simp

end

text \<open>
  Refinement of an atomic specification: under the invariant every step of the implementation
  is either invisible to the abstraction or performs exactly one atomic event \<open>e\<close>, with the
  outcome the specification prescribes. The history of a run is then a run of the specification.
\<close>

locale linearization = invariant_system init exec inv
  for init :: "'s \<Rightarrow> bool" and exec :: "'a \<Rightarrow> 's \<Rightarrow> 's option" and inv :: "'s \<Rightarrow> bool" +
  fixes abs :: "'s \<Rightarrow> 'q"
    and lin :: "'a \<Rightarrow> 's \<Rightarrow> 'e option"
    and spec :: "'e \<Rightarrow> 'q \<Rightarrow> 'q option"
  assumes invisible: "inv s \<Longrightarrow> exec a s = Some s' \<Longrightarrow> lin a s = None \<Longrightarrow> abs s' = abs s"
    and visible: "inv s \<Longrightarrow> exec a s = Some s' \<Longrightarrow> lin a s = Some e \<Longrightarrow> spec e (abs s) = Some (abs s')"
begin

lemma events_refine:
  "inv s \<Longrightarrow> run exec as s = Some s' \<Longrightarrow> run spec (events exec lin as s) (abs s) = Some (abs s')"
proof (induction as arbitrary: s)
  case (Cons a as)
  then obtain u where u: "exec a s = Some u" "run exec as u = Some s'"
    by (auto split: option.splits)
  with Cons.prems have "inv u" by (blast intro: inv_exec)
  with Cons.IH u have IH: "run spec (events exec lin as u) (abs u) = Some (abs s')" by blast
  show ?case
  proof (cases "lin a s")
    case None
    with u IH Cons.prems show ?thesis by (simp add: invisible)
  next
    case (Some e)
    with u Cons.prems have "spec e (abs s) = Some (abs u)" by (blast intro: visible)
    with u Some IH show ?thesis by simp
  qed
qed simp

text \<open>What an observer of the specification sees of the refined run.\<close>

lemma events_observed:
  "inv s \<Longrightarrow> run exec as s = Some s' \<Longrightarrow> events spec obs (events exec lin as s) (abs s) =
     events exec (\<lambda>a s. case lin a s of None \<Rightarrow> None | Some e \<Rightarrow> obs e (abs s)) as s"
proof (induction as arbitrary: s)
  case (Cons a as)
  then obtain u where u: "exec a s = Some u" "run exec as u = Some s'"
    by (auto split: option.splits)
  with Cons.prems have "inv u" by (blast intro: inv_exec)
  with Cons.IH u(2) have IH: "events spec obs (events exec lin as u) (abs u) =
      events exec (\<lambda>a s. case lin a s of None \<Rightarrow> None | Some e \<Rightarrow> obs e (abs s)) as u" by blast
  show ?case
  proof (cases "lin a s")
    case None
    with u IH Cons.prems show ?thesis by (simp add: invisible)
  next
    case (Some e)
    with u Cons.prems have "spec e (abs s) = Some (abs u)" by (blast intro: visible)
    with u Some IH show ?thesis by simp
  qed
qed simp

lemma history_refines:
  "init s \<Longrightarrow> run exec as s = Some s' \<Longrightarrow> run spec (events exec lin as s) (abs s) = Some (abs s')"
  by (blast intro: events_refine inv_init)

end

text \<open>
  An object that several threads call, as a component that uses it sees it: a call of thread \<open>t\<close> is requested (\<open>req\<close>),
  takes effect at one step of \<open>t\<close>, and is from then on committed to its result (\<open>com\<close>); steps of other threads change neither.
\<close>

locale atomic_object = linearization init exec inv abs lin spec
  for init :: "'s \<Rightarrow> bool" and exec :: "tid \<times> 'x \<Rightarrow> 's \<Rightarrow> 's option" and inv :: "'s \<Rightarrow> bool" and abs :: "'s \<Rightarrow> 'q"
    and lin :: "tid \<times> 'x \<Rightarrow> 's \<Rightarrow> (tid \<times> 'p \<times> 'r) option" and spec :: "tid \<times> 'p \<times> 'r \<Rightarrow> 'q \<Rightarrow> 'q option" +
  fixes call :: "'p \<Rightarrow> 'x" and req :: "'s \<Rightarrow> tid \<Rightarrow> 'p option" and com :: "'s \<Rightarrow> tid \<Rightarrow> 'r option"
  assumes call_law: "exec (t, call p) s = Some s' \<Longrightarrow> lin (t, call p) s = None \<and> req s' t = Some p \<and> com s' t = None"
    and step_law: "exec (t, x) s = Some s' \<Longrightarrow> x \<notin> range call \<Longrightarrow>
      (case lin (t, x) s of
         None \<Rightarrow> req s' t = req s t \<and> com s' t = com s t
       | Some (u, p, r) \<Rightarrow> u = t \<and> req s t = Some p \<and> req s' t = None \<and> com s' t = Some r)"
    and other_law: "exec (t, x) s = Some s' \<Longrightarrow> u \<noteq> t \<Longrightarrow> req s' u = req s u \<and> com s' u = com s u"
begin

text \<open>What a client observes of a step of the object.\<close>

lemma call_observed:
  assumes "inv s" "exec (t, call p) s = Some s'"
  shows "inv s' \<and> abs s' = abs s \<and> req s' t = Some p \<and> com s' t = None"
  using assms call_law [OF assms(2)] by (auto intro: inv_exec invisible)

lemma step_observed:
  assumes "inv s" "exec (t, x) s = Some s'" "x \<notin> range call"
  obtains (quiet) "lin (t, x) s = None" "abs s' = abs s" "req s' t = req s t" "com s' t = com s t"
  | (effect) p r where "lin (t, x) s = Some (t, p, r)" "spec (t, p, r) (abs s) = Some (abs s')" "req s t = Some p" "req s' t = None"
      "com s' t = Some r"
proof (cases "lin (t, x) s")
  case None
  with step_law [OF assms(2,3)] invisible [OF assms(1,2) None] quiet show thesis by simp
next
  case (Some e)
  then obtain p r where "e = (t, p, r)" using step_law [OF assms(2,3)] by (cases e) auto
  with Some step_law [OF assms(2,3)] visible [OF assms(1,2) Some] effect show thesis by simp
qed

end

end
