(* ===== verification/FuturePromise.thy ===== *)
theory FuturePromise
  imports Prelude
begin

text \<open>
  \<^verbatim>\<open>include/miniruntime/asyncresult/detail/future.h\<close> and \<^verbatim>\<open>include/miniruntime/asyncresult/future.h\<close>:
  the shared state of a promise and its futures, a lock-free one-shot cell.

  Atomic layer: every method as one transition of the shared state (what a caller sees that runs
  alone). Concurrent layer: the methods split at their accesses to the shared state, for any
  number of threads; \<open>status.wait\<close> compares and blocks in one step and \<open>notify_all\<close> releases the
  blocked threads, as the standard prescribes for \<open>std::atomic\<close>. The specialisation for \<open>void\<close> is
  the payload \<open>PVoid\<close>, which stores no result, and the flag of \<open>OpGet\<close>. Interleavings are
  sequentially consistent; the acquire and release orders of the source are not weakened further.

  Proved: no two threads access the result at once when one of them writes it, the first
  successful \<open>claim\<close> fixes the result for good and every reader sees that result, no \<open>get\<close> fails
  with a missing alternative, no waiter sleeps through a publication, and the sequential
  behaviour of each method; further, that \<open>close\<close> overrides a published result and that \<open>setId\<close>
  exposes an identifier that was not set.
\<close>

section \<open>Shared state and atomic layer\<close>

datatype future_status = Pending | Ready | Closed

datatype ('a, 'e) result_variant = Monostate | Value 'a | Exception 'e

record ('a, 'e) future_state =
  status :: future_status
  fid :: u64
  idSetted :: bool
  blocked :: bool
  result :: "('a, 'e) result_variant"

definition future_state_new :: "('a, 'e) future_state" where
  "future_state_new = \<lparr>status = Pending, fid = 0, idSetted = False, blocked = False, result = Monostate\<rparr>"

text \<open>What a producer delivers: \<open>setValue(v)\<close>, \<open>setValue()\<close> of \<open>Promise<void>\<close>, \<open>setException(e)\<close>.\<close>

datatype ('a, 'e) payload = PValue 'a | PVoid | PException 'e

text \<open>The one-shot flag: whether the exchange succeeded, and the flag afterwards.\<close>

definition claim :: "bool \<Rightarrow> bool \<times> bool" where
  "claim target = (\<not> target, True)"

fun store_result :: "('a, 'e) payload \<Rightarrow> ('a, 'e) result_variant \<Rightarrow> ('a, 'e) result_variant" where
  "store_result (PValue v) r = Value v"
| "store_result (PException e) r = Exception e"
| "store_result PVoid r = r"

definition promise_set :: "('a, 'e) payload \<Rightarrow> ('a, 'e) future_state \<Rightarrow> ('a, 'e) future_state" where
  "promise_set p s =
     (let (ok, b) = claim (blocked s) in
      if \<not> ok then s\<lparr>blocked := b\<rparr>
      else s\<lparr>blocked := b, result := store_result p (result s), status := Ready\<rparr>)"

definition promise_setId :: "u64 \<Rightarrow> ('a, 'e) future_state \<Rightarrow> ('a, 'e) future_state" where
  "promise_setId i s = s\<lparr>idSetted := snd (claim (idSetted s)), fid := i\<rparr>"

definition promise_close :: "('a, 'e) future_state \<Rightarrow> ('a, 'e) future_state" where
  "promise_close s = s\<lparr>status := Closed\<rparr>"

definition future_isReady :: "('a, 'e) future_state \<Rightarrow> bool" where
  "future_isReady s \<longleftrightarrow> status s = Ready"

definition future_isClosed :: "('a, 'e) future_state \<Rightarrow> bool" where
  "future_isClosed s \<longleftrightarrow> status s = Closed"

definition future_getId :: "('a, 'e) future_state \<Rightarrow> u64 option" where
  "future_getId s = (if idSetted s then Some (fid s) else None)"

text \<open>Outcome of \<open>get\<close>: the value, \<open>nullopt\<close> (or a plain return for \<open>void\<close>), the task's exception, or
  \<open>std::bad_variant_access\<close>.\<close>

datatype ('a, 'e) get_outcome = GotValue 'a | GotNothing | Threw 'e | BadVariantAccess

fun read_result :: "bool \<Rightarrow> ('a, 'e) result_variant \<Rightarrow> ('a, 'e) get_outcome" where
  "read_result void (Exception e) = Threw e"
| "read_result void (Value v) = (if void then GotNothing else GotValue v)"
| "read_result void Monostate = (if void then GotNothing else BadVariantAccess)"

definition future_get :: "bool \<Rightarrow> ('a, 'e) future_state \<Rightarrow> ('a, 'e) get_outcome option" where
  "future_get void s =
     (if status s = Pending then None
      else if status s = Closed then Some GotNothing
      else Some (read_result void (result s)))"

section \<open>Concurrent layer\<close>

datatype ('a, 'e) fp_op =
    OpSet "('a, 'e) payload" | OpClose | OpSetId u64 | OpGet bool | OpIsReady | OpIsClosed | OpGetId

datatype ('a, 'e) fp_res = FUnit | FGot "('a, 'e) get_outcome" | FBool bool | FId "u64 option"

datatype ('a, 'e) fp_pc =
    FDone "('a, 'e) fp_res"
  | SetClaim "('a, 'e) payload"     \<comment> \<open>\<open>claim(m_state->blocked)\<close>\<close>
  | SetStore "('a, 'e) payload"     \<comment> \<open>\<open>result.emplace\<close>\<close>
  | SetStatus                       \<comment> \<open>\<open>status.store(Ready)\<close>\<close>
  | SetNotify                       \<comment> \<open>\<open>status.notify_all()\<close>\<close>
  | CloseStatus                     \<comment> \<open>\<open>status.store(Closed)\<close>\<close>
  | CloseNotify
  | SetIdClaim u64                  \<comment> \<open>\<open>claim(m_state->idSetted)\<close>\<close>
  | SetIdStore u64                  \<comment> \<open>\<open>id.store(id)\<close>\<close>
  | GetWait bool                    \<comment> \<open>\<open>status.wait(Pending)\<close>\<close>
  | GetBlocked bool
  | GetLoad bool                    \<comment> \<open>second load of the status\<close>
  | GetRead bool                    \<comment> \<open>read \<open>result\<close>\<close>
  | IsReadyLoad
  | IsClosedLoad
  | GetIdCheck
  | GetIdLoad

record ('a, 'e) fp_sys = "('a, 'e) future_state" +
  fpcs :: "('a, 'e) fp_pc list"

datatype ('a, 'e) fp_act = FCall "('a, 'e) fp_op" | FStep

definition fp_new :: "nat \<Rightarrow> ('a, 'e) fp_sys" where
  "fp_new n = \<lparr>status = Pending, fid = 0, idSetted = False, blocked = False, result = Monostate,
               fpcs = replicate n (FDone FUnit)\<rparr>"

definition fgoto :: "tid \<Rightarrow> ('a, 'e) fp_pc \<Rightarrow> ('a, 'e) fp_sys \<Rightarrow> ('a, 'e) fp_sys" where
  "fgoto t p s = s\<lparr>fpcs := (fpcs s)[t := p]\<rparr>"

fun fp_call :: "('a, 'e) fp_op \<Rightarrow> ('a, 'e) fp_pc" where
  "fp_call (OpSet p) = SetClaim p"
| "fp_call OpClose = CloseStatus"
| "fp_call (OpSetId i) = SetIdClaim i"
| "fp_call (OpGet void) = GetWait void"
| "fp_call OpIsReady = IsReadyLoad"
| "fp_call OpIsClosed = IsClosedLoad"
| "fp_call OpGetId = GetIdCheck"

fun release_waiter :: "('a, 'e) fp_pc \<Rightarrow> ('a, 'e) fp_pc" where
  "release_waiter (GetBlocked void) = GetWait void"
| "release_waiter p = p"

definition status_notify_all :: "('a, 'e) fp_sys \<Rightarrow> ('a, 'e) fp_sys" where
  "status_notify_all s = s\<lparr>fpcs := map release_waiter (fpcs s)\<rparr>"

text \<open>The next statement of a thread; \<open>GetBlocked\<close> has none.\<close>

fun fp_step :: "tid \<Rightarrow> ('a, 'e) fp_pc \<Rightarrow> ('a, 'e) fp_sys \<Rightarrow> ('a, 'e) fp_sys option" where
  "fp_step t (SetClaim p) s =
     (let (ok, b) = claim (blocked s) in
      Some (fgoto t (if \<not> ok then FDone FUnit else if p = PVoid then SetStatus else SetStore p)
                    (s\<lparr>blocked := b\<rparr>)))"
| "fp_step t (SetStore p) s = Some (fgoto t SetStatus (s\<lparr>result := store_result p (result s)\<rparr>))"
| "fp_step t SetStatus s = Some (fgoto t SetNotify (s\<lparr>status := Ready\<rparr>))"
| "fp_step t SetNotify s = Some (fgoto t (FDone FUnit) (status_notify_all s))"
| "fp_step t CloseStatus s = Some (fgoto t CloseNotify (s\<lparr>status := Closed\<rparr>))"
| "fp_step t CloseNotify s = Some (fgoto t (FDone FUnit) (status_notify_all s))"
| "fp_step t (SetIdClaim i) s = Some (fgoto t (SetIdStore i) (s\<lparr>idSetted := snd (claim (idSetted s))\<rparr>))"
| "fp_step t (SetIdStore i) s = Some (fgoto t (FDone FUnit) (s\<lparr>fid := i\<rparr>))"
| "fp_step t (GetWait void) s =
     Some (fgoto t (if status s = Pending then GetBlocked void else GetLoad void) s)"
| "fp_step t (GetLoad void) s =
     Some (fgoto t (if status s = Closed then FDone (FGot GotNothing) else GetRead void) s)"
| "fp_step t (GetRead void) s = Some (fgoto t (FDone (FGot (read_result void (result s)))) s)"
| "fp_step t IsReadyLoad s = Some (fgoto t (FDone (FBool (status s = Ready))) s)"
| "fp_step t IsClosedLoad s = Some (fgoto t (FDone (FBool (status s = Closed))) s)"
| "fp_step t GetIdCheck s =
     Some (fgoto t (if idSetted s then GetIdLoad else FDone (FId None)) s)"
| "fp_step t GetIdLoad s = Some (fgoto t (FDone (FId (Some (fid s)))) s)"
| "fp_step t (GetBlocked void) s = None"
| "fp_step t (FDone r) s = None"

fun fp_exec :: "tid \<times> ('a, 'e) fp_act \<Rightarrow> ('a, 'e) fp_sys \<Rightarrow> ('a, 'e) fp_sys option" where
  "fp_exec (t, FCall oper) s =
     (if t < length (fpcs s) then
        (case fpcs s ! t of FDone r \<Rightarrow> Some (fgoto t (fp_call oper) s) | _ \<Rightarrow> None)
      else None)"
| "fp_exec (t, FStep) s = (if t < length (fpcs s) then fp_step t (fpcs s ! t) s else None)"

definition fp_init :: "('a, 'e) fp_sys \<Rightarrow> bool" where
  "fp_init s \<longleftrightarrow> (\<exists>n. s = fp_new n)"

section \<open>Invariant\<close>

text \<open>The thread that has won the claim and has not yet published.\<close>

fun delivering :: "('a, 'e) fp_pc \<Rightarrow> bool" where
  "delivering (SetStore p) = True"
| "delivering SetStatus = True"
| "delivering _ = False"

definition delivered :: "('a, 'e) fp_sys \<Rightarrow> bool" where
  "delivered s \<longleftrightarrow> blocked s \<and> cnt delivering (fpcs s) = 0"

text \<open>Waiters of the status, and threads that have changed it and still owe the notification.\<close>

fun waits_status :: "('a, 'e) fp_pc \<Rightarrow> bool" where
  "waits_status (GetBlocked void) = True"
| "waits_status _ = False"

fun owes_notify :: "('a, 'e) fp_pc \<Rightarrow> bool" where
  "owes_notify SetNotify = True"
| "owes_notify CloseNotify = True"
| "owes_notify _ = False"

definition wake_inv :: "('a, 'e) fp_sys \<Rightarrow> bool" where
  "wake_inv s \<longleftrightarrow> (status s \<noteq> Pending \<longrightarrow> 0 < cnt waits_status (fpcs s) \<longrightarrow> 0 < cnt owes_notify (fpcs s))"

text \<open>A future for a value type never sees the payload of \<open>void\<close>; \<open>typed void\<close> are the program
  counters of a state shared by promises and futures of that type.\<close>

fun typed :: "bool \<Rightarrow> ('a, 'e) fp_pc \<Rightarrow> bool" where
  "typed void (SetClaim p) = (case p of PValue v \<Rightarrow> \<not> void | PVoid \<Rightarrow> void | PException e \<Rightarrow> True)"
| "typed void (SetStore p) = (case p of PValue v \<Rightarrow> \<not> void | PVoid \<Rightarrow> False | PException e \<Rightarrow> True)"
| "typed void (GetWait v) = (v = void)"
| "typed void (GetBlocked v) = (v = void)"
| "typed void (GetLoad v) = (v = void)"
| "typed void (GetRead v) = (v = void)"
| "typed void _ = True"

fun typed_op :: "bool \<Rightarrow> ('a, 'e) fp_op \<Rightarrow> bool" where
  "typed_op void (OpSet p) = typed void (SetClaim p)"
| "typed_op void (OpGet v) = (v = void)"
| "typed_op void _ = True"

fun typed_act :: "bool \<Rightarrow> tid \<times> ('a, 'e) fp_act \<Rightarrow> bool" where
  "typed_act void (t, FCall oper) = typed_op void oper"
| "typed_act void (t, FStep) = True"

text \<open>The actions of one instantiation of the template.\<close>

definition fp_exec_for :: "bool \<Rightarrow> tid \<times> ('a, 'e) fp_act \<Rightarrow> ('a, 'e) fp_sys \<Rightarrow> ('a, 'e) fp_sys option" where
  "fp_exec_for void a s = (if typed_act void a then fp_exec a s else None)"

fun got_fact :: "bool \<Rightarrow> ('a, 'e) fp_sys \<Rightarrow> ('a, 'e) fp_pc \<Rightarrow> bool" where
  "got_fact void s (GetLoad v) = (status s \<noteq> Pending)"
| "got_fact void s (GetRead v) = delivered s"
| "got_fact void s (SetStore p) = (result s = Monostate)"
| "got_fact void s SetStatus = (void \<or> result s \<noteq> Monostate)"
| "got_fact void s (FDone (FGot (GotValue v))) = (\<not> void \<and> delivered s \<and> result s = Value v)"
| "got_fact void s (FDone (FGot (Threw e))) = (delivered s \<and> result s = Exception e)"
| "got_fact void s (FDone (FGot BadVariantAccess)) = False"
| "got_fact void s _ = True"

definition fp_inv :: "bool \<Rightarrow> ('a, 'e) fp_sys \<Rightarrow> bool" where
  "fp_inv void s \<longleftrightarrow>
     cnt delivering (fpcs s) \<le> 1 \<and>
     (0 < cnt delivering (fpcs s) \<longrightarrow> blocked s) \<and>
     (\<not> blocked s \<longrightarrow> result s = Monostate) \<and>
     (status s = Ready \<longrightarrow> delivered s) \<and>
     (delivered s \<longrightarrow> void \<or> result s \<noteq> Monostate) \<and>
     (\<forall>t < length (fpcs s). typed void (fpcs s ! t) \<and> got_fact void s (fpcs s ! t))"


definition fp_full_inv :: "bool \<Rightarrow> ('a, 'e) fp_sys \<Rightarrow> bool" where
  "fp_full_inv void s \<longleftrightarrow> fp_inv void s \<and> wake_inv s"

text \<open>The claim was won with payload \<open>p\<close>: the result is \<open>p\<close>'s or still to be stored by its thread.\<close>

definition claimed_by :: "('a, 'e) payload \<Rightarrow> ('a, 'e) fp_sys \<Rightarrow> bool" where
  "claimed_by p s \<longleftrightarrow> blocked s \<and> (\<forall>t < length (fpcs s). \<forall>q. fpcs s ! t = SetStore q \<longrightarrow> q = p) \<and>
     (result s = store_result p Monostate \<or> result s = Monostate \<and> SetStore p \<in> set (fpcs s))"

text \<open>Program counters whose next statement accesses the result, which is not atomic.\<close>

fun accesses_result :: "('a, 'e) fp_pc \<Rightarrow> bool" where
  "accesses_result (SetStore p) = True"
| "accesses_result (GetRead v) = True"
| "accesses_result _ = False"

fun fp_at_rest :: "('a, 'e) fp_pc \<Rightarrow> bool" where
  "fp_at_rest (FDone r) = True"
| "fp_at_rest (GetBlocked v) = True"
| "fp_at_rest _ = False"

text \<open>Schedules: a value is set and read; a consumer that saw the future ready before it was closed;
  an identifier read while it is being set.\<close>

definition set_get_schedule :: "(tid \<times> (nat, nat) fp_act) list" where
  "set_get_schedule = (0, FCall (OpSet (PValue 42))) # replicate 4 (0, FStep) @
     (1, FCall (OpGet False)) # replicate 3 (1, FStep)"

definition ready_schedule :: "(tid \<times> (nat, nat) fp_act) list" where
  "ready_schedule = (0, FCall (OpSet (PValue 42))) # replicate 4 (0, FStep) @
     [(1, FCall OpIsReady), (1, FStep)]"

definition close_get_schedule :: "(tid \<times> (nat, nat) fp_act) list" where
  "close_get_schedule = [(0, FCall OpClose), (0, FStep), (0, FStep),
     (1, FCall (OpGet False)), (1, FStep), (1, FStep)]"

text \<open>A \<open>get\<close> that sleeps, is woken by a \<open>close\<close> in the middle of a \<open>setValue\<close>, and reads the status only
  after that has published: it reads the value.\<close>

definition race_schedule :: "(tid \<times> (nat, nat) fp_act) list" where
  "race_schedule = [(1, FCall (OpGet False)), (1, FStep), (0, FCall (OpSet (PValue 42))), (0, FStep),
     (2, FCall OpClose), (2, FStep), (2, FStep), (1, FStep), (0, FStep), (0, FStep), (1, FStep), (1, FStep), (0, FStep)]"

definition set_id_schedule :: "(tid \<times> (nat, nat) fp_act) list" where
  "set_id_schedule = [(0, FCall (OpSetId 5)), (0, FStep),
     (1, FCall OpGetId), (1, FStep), (1, FStep), (0, FStep)]"

section \<open>Preservation\<close>

lemma fgoto_simps [simp]:
  "status (fgoto t p s) = status s" "fid (fgoto t p s) = fid s" "idSetted (fgoto t p s) = idSetted s"
  "blocked (fgoto t p s) = blocked s" "result (fgoto t p s) = result s"
  "fpcs (fgoto t p s) = (fpcs s)[t := p]"
  by (simp_all add: fgoto_def)

lemma status_notify_all_simps [simp]:
  "status (status_notify_all s) = status s" "blocked (status_notify_all s) = blocked s"
  "result (status_notify_all s) = result s" "fid (status_notify_all s) = fid s"
  "idSetted (status_notify_all s) = idSetted s"
  "fpcs (status_notify_all s) = map release_waiter (fpcs s)"
  by (simp_all add: status_notify_all_def)

lemma release_waiter_simps [simp]:
  "delivering (release_waiter p) = delivering p" "typed void (release_waiter p) = typed void p"
  "owes_notify (release_waiter p) = owes_notify p" "\<not> waits_status (release_waiter p)"
  by (cases p rule: release_waiter.cases; simp)+

lemma got_fact_mono:
  assumes "got_fact void s p" "status s \<noteq> Pending \<longrightarrow> status s' \<noteq> Pending"
    and "delivered s \<longrightarrow> delivered s' \<and> result s' = result s"
    and "delivering p \<longrightarrow> result s' = result s"
  shows "got_fact void s' p"
  using assms by (cases "(void, s, p)" rule: got_fact.cases) auto

lemma delivered_notify_all [simp]: "delivered (status_notify_all s) = delivered s"
  by (simp add: delivered_def cnt_map)

lemma got_fact_release: "got_fact void s p \<Longrightarrow> got_fact void (status_notify_all s) (release_waiter p)"
  by (cases p rule: release_waiter.cases) (auto intro: got_fact_mono)

lemma fp_inv_notify_all: "fp_inv void s \<Longrightarrow> fp_inv void (status_notify_all s)"
  by (simp add: fp_inv_def cnt_map got_fact_release)

text \<open>A step of thread \<open>t\<close> that changes its program counter to \<open>p\<close>: only the thread that delivers may
  touch the result, only an unclaimed state may gain a delivering thread.\<close>

lemma fp_inv_goto:
  assumes inv: "fp_inv void s" and t: "t < length (fpcs s)" and ps: "fpcs s' = fpcs s"
    and st: "status s \<noteq> Pending \<longrightarrow> status s' \<noteq> Pending"
    and rs: "result s' = result s \<or> delivering (fpcs s ! t)"
    and bl: "blocked s \<longrightarrow> blocked s'" "blocked s' \<longrightarrow> blocked s \<or> delivering p"
    and dp: "delivering p \<longrightarrow> blocked s' \<and> (delivering (fpcs s ! t) \<or> \<not> blocked s)"
    and rd: "status s' = Ready \<longrightarrow> status s = Ready \<or> delivering (fpcs s ! t) \<and> \<not> delivering p"
    and nm: "delivering (fpcs s ! t) \<and> \<not> delivering p \<longrightarrow> void \<or> result s' \<noteq> Monostate"
    and tp: "typed void p" "got_fact void (fgoto t p s') p"
  shows "fp_inv void (fgoto t p s')"
proof -
  have c: "cnt delivering (fpcs s) \<le> 1" "0 < cnt delivering (fpcs s) \<longrightarrow> blocked s"
    "\<not> blocked s \<longrightarrow> result s = Monostate" "status s = Ready \<longrightarrow> delivered s"
    "delivered s \<longrightarrow> void \<or> result s \<noteq> Monostate"
    using inv by (auto simp: fp_inv_def)
  have pos: "delivering (fpcs s ! t) \<Longrightarrow> 0 < cnt delivering (fpcs s)"
    using t by auto
  let ?n = "cnt delivering ((fpcs s)[t := p])"
  have n: "?n = (if delivering p then 1 else 0) + (cnt delivering (fpcs s) - (if delivering (fpcs s ! t) then 1 else 0))"
    using t by (rule cnt_update)
  have "?n \<le> 1" "0 < ?n \<longrightarrow> blocked s'"
    using n c dp pos bl by (auto split: if_splits)
  have keep: "delivered s \<longrightarrow> delivered (fgoto t p s') \<and> result s' = result s"
    using n pos dp bl rs ps by (auto simp: delivered_def split: if_splits)
  have "got_fact void (fgoto t p s') (fpcs s ! u)" if u: "u < length (fpcs s)" "u \<noteq> t" for u
  proof (rule got_fact_mono)
    show "got_fact void s (fpcs s ! u)" using inv u by (simp add: fp_inv_def)
    show "delivering (fpcs s ! u) \<longrightarrow> result (fgoto t p s') = result s"
      using rs cnt_ge_two [of u "fpcs s" t delivering] u t c(1) by auto
  qed (use st keep in auto)
  then show ?thesis
    using \<open>?n \<le> 1\<close> \<open>0 < ?n \<longrightarrow> blocked s'\<close> n c pos tp bl dp rd nm rs keep inv t ps
    by (auto simp: fp_inv_def delivered_def nth_list_update split: if_splits)
qed

lemma fp_inv_at:
  "fp_inv void s \<Longrightarrow> t < length (fpcs s) \<Longrightarrow> typed void (fpcs s ! t) \<and> got_fact void s (fpcs s ! t)"
  by (simp add: fp_inv_def)

lemma fp_inv_delivering:
  "fp_inv void s \<Longrightarrow> t < length (fpcs s) \<Longrightarrow> delivering (fpcs s ! t) \<Longrightarrow> blocked s \<and> status s \<noteq> Ready \<and> \<not> delivered s"
  using cnt_pos [of t "fpcs s" delivering] by (auto simp: fp_inv_def delivered_def)

lemma fp_inv_ready: "fp_inv void s \<Longrightarrow> status s = Ready \<Longrightarrow> delivered s"
  by (simp add: fp_inv_def)

lemma delivered_goto:
  "t < length (fpcs s) \<Longrightarrow> \<not> delivering (fpcs s ! t) \<Longrightarrow> \<not> delivering p \<Longrightarrow> delivered (fgoto t p s) = delivered s"
  by (simp add: delivered_def cnt_update)

lemma read_result_cases:
  "fp_inv void s \<Longrightarrow> delivered s \<Longrightarrow> \<not> delivering (FDone r) \<Longrightarrow>
    t < length (fpcs s) \<Longrightarrow> \<not> delivering (fpcs s ! t) \<Longrightarrow>
    got_fact void (fgoto t (FDone (FGot (read_result void (result s)))) s) (FDone (FGot (read_result void (result s))))"
  by (cases "result s") (auto simp: delivered_goto fp_inv_def)

lemma fp_inv_step:
  assumes inv: "fp_inv void s" and t: "t < length (fpcs s)" and step: "fp_step t (fpcs s ! t) s = Some s'"
  shows "fp_inv void s'"
proof -
  note at = fp_inv_at [OF inv t] 
  have dv: "delivering (fpcs s ! t) \<Longrightarrow> blocked s \<and> status s \<noteq> Ready \<and> \<not> delivered s"
    using fp_inv_delivering [OF inv t] .
  show ?thesis
  proof (cases "fpcs s ! t")
    case (SetClaim p)
    with step have s': "s' = fgoto t (if blocked s then FDone FUnit else if p = PVoid then SetStatus
        else SetStore p) (s\<lparr>blocked := True\<rparr>)"
      by (auto simp: claim_def)
    have "blocked s \<or> result s = Monostate" using inv by (auto simp: fp_inv_def)
    with at SetClaim show ?thesis
      unfolding s' by (intro fp_inv_goto [OF inv t]) (auto split: payload.splits)
  next
    case (SetStore p)
    with step have s': "s' = fgoto t SetStatus (s\<lparr>result := store_result p (result s)\<rparr>)" by simp
    from at SetStore dv show ?thesis
      unfolding s' by (intro fp_inv_goto [OF inv t]) (auto split: payload.splits)
  next
    case SetStatus
    with at step t dv show ?thesis by (auto intro!: fp_inv_goto [OF inv t])
  next
    case SetNotify
    with at step t show ?thesis 
      by (auto intro!: fp_inv_goto [OF fp_inv_notify_all [OF inv]])
  next
    case CloseNotify
    with at step t show ?thesis 
      by (auto intro!: fp_inv_goto [OF fp_inv_notify_all [OF inv]])
  next
    case (GetLoad v)
    with at step t show ?thesis
      by (cases "status s") (auto simp: delivered_goto fp_inv_ready [OF inv] intro!: fp_inv_goto [OF inv t])
  next
    case (GetRead v)
    with at step t read_result_cases [OF inv _ _ t] show ?thesis
      by (auto intro!: fp_inv_goto [OF inv t])
  qed (use at step t in \<open>auto split: if_splits intro!: fp_inv_goto [OF inv t]\<close>)
qed

lemma typed_call: "typed_op void oper \<Longrightarrow> typed void (fp_call oper) \<and> \<not> delivering (fp_call oper) \<and> got_fact void s (fp_call oper)"
  by (cases oper) auto

lemma fp_inv_exec:
  assumes "fp_inv void s" "fp_exec_for void a s = Some s'"
  shows "fp_inv void s'"
proof (cases a)
  case (Pair t x)
  with assms typed_call [of void] show ?thesis
    by (cases x) (auto simp: fp_exec_for_def split: if_splits fp_pc.splits intro: fp_inv_step intro!: fp_inv_goto [of void s])
qed

lemma wake_inv_exec:
  assumes "wake_inv s" "fp_exec a s = Some s'"
  shows "wake_inv s'"
proof (cases a)
  case (Pair t x)
  show ?thesis
  proof (cases x)
    case (FCall oper)
    with assms Pair show ?thesis
      by (cases oper) (auto simp: wake_inv_def cnt_update split: if_splits fp_pc.splits)
  next
    case FStep
    with assms Pair have t: "t < length (fpcs s)" and "fp_step t (fpcs s ! t) s = Some s'"
      by (auto split: if_splits)
    with assms(1) cnt_pos [of t "fpcs s" owes_notify] show ?thesis
      by (cases "fpcs s ! t") (auto simp: wake_inv_def cnt_update cnt_map claim_def split: if_splits)
  qed
qed


lemma fp_inv_init: "fp_init s \<Longrightarrow> fp_inv void s \<and> wake_inv s"
  by (auto simp: fp_init_def fp_new_def fp_inv_def wake_inv_def delivered_def cnt_def)

interpretation fp: invariant_system fp_init "fp_exec_for void" "fp_full_inv void" for void
proof unfold_locales
  fix s s' :: "('a, 'b) fp_sys" and a
  show "fp_init s \<Longrightarrow> fp_full_inv void s" by (simp add: fp_full_inv_def fp_inv_init)
  assume "fp_full_inv void s" "fp_exec_for void a s = Some s'"
  then show "fp_full_inv void s'"
    by (auto simp: fp_full_inv_def fp_exec_for_def split: if_splits
        intro: fp_inv_exec [unfolded fp_exec_for_def, where a = a] wake_inv_exec)
qed

subsection \<open>The winner of the claim\<close>

lemma claimed_by_start:
  assumes "fp_inv void s" "t < length (fpcs s)" "fpcs s ! t = SetClaim p" "\<not> blocked s"
    and "fp_exec (t, FStep) s = Some s'"
  shows "claimed_by p s'"
proof -
  have "cnt delivering (fpcs s) = 0" "result s = Monostate" using assms(1,4) by (auto simp: fp_inv_def)
  then have "\<forall>u < length (fpcs s). \<not> delivering (fpcs s ! u)" by (auto simp: cnt_zero_iff)
  with assms \<open>result s = Monostate\<close> show ?thesis
    by (auto simp: claimed_by_def claim_def nth_list_update set_update_memI split: if_splits)
qed

text \<open>Only the delivering thread touches a \<open>SetStore\<close> program counter.\<close>

lemma fp_step_store_pcs:
  assumes "fp_step t (fpcs s ! t) s = Some s'" "t < length (fpcs s)" "blocked s"
    and "\<not> delivering (fpcs s ! t)"
  shows "u < length (fpcs s) \<Longrightarrow> fpcs s' ! u = SetStore q \<longleftrightarrow> fpcs s ! u = SetStore q"
    and "length (fpcs s') = length (fpcs s)" "result s' = result s" "blocked s'"
proof -
  have rel: "release_waiter p = SetStore q \<longleftrightarrow> p = SetStore q" for p
    by (cases p) auto
  show "u < length (fpcs s) \<Longrightarrow> fpcs s' ! u = SetStore q \<longleftrightarrow> fpcs s ! u = SetStore q"
    using assms by (cases "fpcs s ! t") (auto simp: claim_def nth_list_update rel split: if_splits)
qed (use assms in \<open>(cases "fpcs s ! t"; auto simp: claim_def)+\<close>)

lemma claimed_by_delivery:
  assumes c: "claimed_by p s" and inv: "fp_inv void s" and t: "t < length (fpcs s)" and st: "fp_step t (fpcs s ! t) s = Some s'"
    and d: "delivering (fpcs s ! t)"
  shows "claimed_by p s'"
proof -
  have alone: "u = t" if "u < length (fpcs s)" "fpcs s ! u = SetStore q" for u q
    using cnt_ge_two [of u "fpcs s" t delivering] that t d inv by (auto simp: fp_inv_def)
  have others: "fpcs s' ! u = SetStore q \<Longrightarrow> u < length (fpcs s) \<Longrightarrow> False" for u q
    using alone [of u q] d st t by (cases "fpcs s ! t") (auto simp: nth_list_update split: if_splits)
  have len: "length (fpcs s') = length (fpcs s)" and "blocked s' = blocked s"
    using d st by (cases "fpcs s ! t"; auto)+
  moreover have "result s' = store_result p Monostate"
  proof (cases "fpcs s ! t = SetStatus")
    case True
    have "SetStore p \<notin> set (fpcs s)"
    proof
      assume "SetStore p \<in> set (fpcs s)"
      then obtain u where u: "u < length (fpcs s)" "fpcs s ! u = SetStore p"
        by (auto simp: in_set_conv_nth)
      then have "u = t" by (rule alone)
      with u True show False by simp
    qed
    with True st c show ?thesis by (auto simp: claimed_by_def)
  next
    case False
    with d obtain q where q: "fpcs s ! t = SetStore q" by (cases "fpcs s ! t") auto
    with c t have "q = p" by (auto simp: claimed_by_def)
    with q st fp_inv_at [OF inv t] show ?thesis by auto
  qed
  ultimately show ?thesis using c others by (auto simp: claimed_by_def)
qed

lemma claimed_by_exec:
  assumes "claimed_by p s" "fp_inv void s" "fp_exec a s = Some s'"
  shows "claimed_by p s'"
proof (cases a)
  case (Pair t x)
  show ?thesis
  proof (cases x)
    case (FCall oper)
    have "fp_call oper \<noteq> SetStore q" for q by (cases oper) auto
    moreover from FCall assms(3) Pair obtain r where "t < length (fpcs s)" "fpcs s ! t = FDone r"
      "s' = fgoto t (fp_call oper) s"
      by (auto split: if_splits fp_pc.splits)
    ultimately show ?thesis using assms(1)
      by (auto simp: claimed_by_def nth_list_update in_set_update_other split: if_splits)
  next
    case FStep
    with assms Pair have t: "t < length (fpcs s)" and st: "fp_step t (fpcs s ! t) s = Some s'"
      by (auto split: if_splits)
    show ?thesis
    proof (cases "delivering (fpcs s ! t)")
      case True
      with claimed_by_delivery [OF assms(1,2) t st] show ?thesis by blast
    next
      case False
      with fp_step_store_pcs [OF st t _ False] assms(1) show ?thesis
        by (auto simp: claimed_by_def in_set_conv_nth)
    qed
  qed
qed

lemma claimed_by_run:
  "claimed_by p s \<Longrightarrow> fp_inv void s \<Longrightarrow> run (fp_exec_for void) as s = Some s' \<Longrightarrow> claimed_by p s'"
proof (induction as arbitrary: s)
  case (Cons a as)
  then obtain u where u: "fp_exec_for void a s = Some u" "run (fp_exec_for void) as u = Some s'"
    by (auto split: option.splits)
  then have "fp_exec a s = Some u" by (auto simp: fp_exec_for_def split: if_splits)
  with Cons.prems u show ?case by (blast intro: Cons.IH claimed_by_exec fp_inv_exec)
qed simp

lemma claimed_by_delivered:
  assumes "claimed_by p s" "delivered s"
  shows "result s = store_result p Monostate"
  using assms by (auto simp: claimed_by_def delivered_def cnt_zero_iff)


subsection \<open>A method that runs alone\<close>

lemma solo_set:
  assumes "t < length (fpcs s)" "fpcs s ! t = FDone r"
  shows "\<exists>k s'. run fp_exec ((t, FCall (OpSet p)) # replicate k (t, FStep)) s = Some s' \<and>
    future_state.truncate s' = promise_set p (future_state.truncate s) \<and> fpcs s' ! t = FDone FUnit"
proof -
  let ?k = "if blocked s then 1 else if p = PVoid then 3 else 4"
  show ?thesis
    using assms
    by (intro exI [of _ "?k :: nat"])
      (auto simp: numeral_eq_Suc claim_def promise_set_def future_state.defs)
qed

lemma solo_close:
  assumes "t < length (fpcs s)" "fpcs s ! t = FDone r"
  shows "\<exists>k s'. run fp_exec ((t, FCall OpClose) # replicate k (t, FStep)) s = Some s' \<and>
    future_state.truncate s' = promise_close (future_state.truncate s) \<and> fpcs s' ! t = FDone FUnit"
  using assms by (intro exI [of _ 2]) (auto simp: numeral_eq_Suc promise_close_def future_state.defs)

lemma solo_setId:
  assumes "t < length (fpcs s)" "fpcs s ! t = FDone r"
  shows "\<exists>k s'. run fp_exec ((t, FCall (OpSetId i)) # replicate k (t, FStep)) s = Some s' \<and>
    future_state.truncate s' = promise_setId i (future_state.truncate s) \<and> fpcs s' ! t = FDone FUnit"
  using assms by (intro exI [of _ 2]) (auto simp: numeral_eq_Suc promise_setId_def claim_def future_state.defs)

lemma solo_get:
  assumes "t < length (fpcs s)" "fpcs s ! t = FDone r" "future_get void (future_state.truncate s) = Some g"
  shows "\<exists>k s'. run fp_exec ((t, FCall (OpGet void)) # replicate k (t, FStep)) s = Some s' \<and>
    future_state.truncate s' = future_state.truncate s \<and> fpcs s' ! t = FDone (FGot g)"
  using assms by (intro exI [of _ "if status s = Closed then 2 else 3 :: nat"])
    (auto simp: numeral_eq_Suc future_get_def future_state.defs split: if_splits)

lemma fp_exec_for_typed: "typed_act void a \<Longrightarrow> fp_exec_for void a s = fp_exec a s"
  by (simp add: fp_exec_for_def)

lemma fp_new_reachable: "reachable fp_init (fp_exec_for void) (fp_new n)"
  by (rule reachable.start) (auto simp: fp_init_def)

section \<open>Properties\<close>

text \<open>C29. The result is accessed without a lock and without a race: in every reachable state, while
  one thread is about to write the result, no other thread is about to write or read it.\<close>

theorem fp_result_race_free:
  assumes "reachable fp_init (fp_exec_for void) s"
    and "t < length (fpcs s)" "u < length (fpcs s)" "t \<noteq> u" and "fpcs s ! t = SetStore p"
  shows "\<not> accesses_result (fpcs s ! u)"
proof
  assume acc: "accesses_result (fpcs s ! u)"
  have inv: "fp_inv void s" using fp.reachable_inv [OF assms(1)] by (simp add: fp_full_inv_def)
  have one: "\<not> delivering (fpcs s ! u)"
    using cnt_ge_two [of t "fpcs s" u delivering] assms(2-5) inv by (auto simp: fp_inv_def)
  have "\<not> delivered s" using fp_inv_delivering [OF inv assms(2)] assms(5) by simp
  with acc one fp_inv_at [OF inv assms(3)] show False
    by (cases "fpcs s ! u" rule: accesses_result.cases) auto
qed

theorem fp_result_race_free_witness:
  "\<exists>s. reachable fp_init (fp_exec_for False) s \<and> fpcs s ! 0 = SetStore (PValue (42::nat)) \<and>
     fpcs s ! 1 = SetClaim (PException (7::nat)) \<and> \<not> accesses_result (fpcs s ! 1)"
proof -
  let ?s = "\<lparr>status = Pending, fid = 0, idSetted = False, blocked = True, result = Monostate,
     fpcs = [SetStore (PValue 42), SetClaim (PException 7)]\<rparr> :: (nat, nat) fp_sys"
  have "run (fp_exec_for False)
      [(0, FCall (OpSet (PValue 42))), (1, FCall (OpSet (PException 7))), (0, FStep)] (fp_new 2) = Some ?s"
    by code_simp
  then have r: "reachable fp_init (fp_exec_for False) ?s" by (rule run_reachable [OF fp_new_reachable])
  from fp_result_race_free [OF r, of 0 1 "PValue 42"] r show ?thesis by (intro exI [of _ ?s]) simp
qed

text \<open>C7. The first delivery wins. If thread \<open>t\<close> executes the claim of a delivery \<open>p\<close> on a state that
  was not claimed, then in every continuation each \<open>get\<close> that has returned a value or thrown has
  returned or thrown exactly what \<open>p\<close> carries, whatever else other producers try to deliver.\<close>

theorem fp_first_claim_wins:
  assumes "reachable fp_init (fp_exec_for void) s" and "t < length (fpcs s)"
    and "fpcs s ! t = SetClaim p" and "\<not> blocked s" and "fp_exec (t, FStep) s = Some s1"
    and "run (fp_exec_for void) as s1 = Some s'"
    and "u < length (fpcs s')" and "fpcs s' ! u = FDone (FGot g)"
  shows "g = GotNothing \<or> g = read_result void (store_result p Monostate)"
proof -
  have inv: "fp_inv void s" using fp.reachable_inv [OF assms(1)] by (simp add: fp_full_inv_def)
  have "fp_exec_for void (t, FStep) s = Some s1" using assms(5) by (simp add: fp_exec_for_typed)
  then have r1: "reachable fp_init (fp_exec_for void) s1" using assms(1) by (rule reachable.step [rotated])
  then have "reachable fp_init (fp_exec_for void) s'" using assms(6) by (rule run_reachable)
  from fp.reachable_inv [OF this] have inv': "fp_inv void s'" by (simp add: fp_full_inv_def)
  have "claimed_by p s1" using inv assms(2-5) by (rule claimed_by_start)
  moreover have "fp_inv void s1" using fp.reachable_inv [OF r1] by (simp add: fp_full_inv_def)
  ultimately have "claimed_by p s'" using assms(6) by (rule claimed_by_run)
  then have "delivered s' \<Longrightarrow> result s' = store_result p Monostate" by (rule claimed_by_delivered)
  with fp_inv_at [OF inv' assms(7)] assms(8) show ?thesis
    by (cases g) (auto simp flip: \<open>delivered s' \<Longrightarrow> result s' = store_result p Monostate\<close>)
qed

theorem fp_first_claim_wins_witness:
  "\<exists>s'. run (fp_exec_for False) set_get_schedule (fp_new 2) = Some s' \<and>
     fpcs s' ! 1 = FDone (FGot (GotValue 42)) \<and>
     GotValue 42 = read_result False (store_result (PValue (42::nat)) (Monostate :: (nat, nat) result_variant))"
proof -
  let ?s = "\<lparr>status = Pending, fid = 0, idSetted = False, blocked = False, result = Monostate,
     fpcs = [SetClaim (PValue 42), FDone FUnit]\<rparr> :: (nat, nat) fp_sys"
  let ?s1 = "\<lparr>status = Pending, fid = 0, idSetted = False, blocked = True, result = Monostate,
     fpcs = [SetStore (PValue 42), FDone FUnit]\<rparr> :: (nat, nat) fp_sys"
  let ?s' = "\<lparr>status = Ready, fid = 0, idSetted = False, blocked = True, result = Value 42,
     fpcs = [FDone FUnit, FDone (FGot (GotValue 42))]\<rparr> :: (nat, nat) fp_sys"
  have "run (fp_exec_for False) [(0, FCall (OpSet (PValue 42)))] (fp_new 2) = Some ?s" by code_simp
  then have r: "reachable fp_init (fp_exec_for False) ?s" by (rule run_reachable [OF fp_new_reachable])
  have c: "fp_exec (0, FStep) ?s = Some ?s1" by code_simp
  have k: "run (fp_exec_for False)
      (replicate 3 (0, FStep) @ (1, FCall (OpGet False)) # replicate 3 (1, FStep)) ?s1 = Some ?s'"
    by code_simp
  have "run (fp_exec_for False) set_get_schedule (fp_new 2) = Some ?s'" by code_simp
  with fp_first_claim_wins [OF r _ _ _ c k, of "PValue 42" 1 "GotValue 42"] show ?thesis
    by (intro exI [of _ ?s']) simp
qed

text \<open>C28. \<open>get\<close> never fails with \<open>std::bad_variant_access\<close>: whenever a reader finds a status other
  than pending and closed, the result it goes on to read has been stored.\<close>

theorem fp_get_never_bad_variant:
  assumes "reachable fp_init (fp_exec_for void) s"
  shows "FDone (FGot BadVariantAccess) \<notin> set (fpcs s)"
proof
  assume "FDone (FGot BadVariantAccess) \<in> set (fpcs s)"
  then obtain t where "t < length (fpcs s)" "fpcs s ! t = FDone (FGot BadVariantAccess)"
    by (auto simp: in_set_conv_nth)
  moreover have "fp_inv void s" using fp.reachable_inv [OF assms] by (simp add: fp_full_inv_def)
  ultimately show False using fp_inv_at [of void s t] by auto
qed

theorem fp_get_never_bad_variant_witness:
  "\<exists>s. run (fp_exec_for False) race_schedule (fp_new 3) = Some s \<and>
     fpcs s = [FDone FUnit, FDone (FGot (GotValue 42)), FDone FUnit] \<and> FDone (FGot BadVariantAccess) \<notin> set (fpcs s)"
proof -
  have "map_option fpcs (run (fp_exec_for False) race_schedule (fp_new 3)) =
      Some [FDone FUnit, FDone (FGot (GotValue 42)), FDone FUnit]" by code_simp
  then obtain s where s: "run (fp_exec_for False) race_schedule (fp_new 3) = Some s"
    "fpcs s = [FDone FUnit, FDone (FGot (GotValue 42)), FDone FUnit]" by auto
  from fp_get_never_bad_variant [OF run_reachable [OF fp_new_reachable s(1)]] s show ?thesis by blast
qed

text \<open>C27. No reader sleeps through a publication: when every thread has returned or is blocked in
  \<open>status.wait\<close>, a blocked reader means that the status is still pending.\<close>

theorem fp_no_missed_publication:
  assumes "reachable fp_init (fp_exec_for void) s" and "list_all fp_at_rest (fpcs s)"
    and "0 < cnt waits_status (fpcs s)"
  shows "status s = Pending"
proof -
  have "wake_inv s" using fp.reachable_inv [OF assms(1)] by (simp add: fp_full_inv_def)
  moreover have "fp_at_rest p \<Longrightarrow> \<not> owes_notify p" for p :: "('a, 'b) fp_pc"
    by (cases p rule: fp_at_rest.cases) auto
  then have "cnt owes_notify (fpcs s) = 0" using assms(2) by (auto simp: list_all_iff cnt_zero_iff)
  ultimately show ?thesis using assms(3) by (simp add: wake_inv_def)
qed

theorem fp_no_missed_publication_witness:
  "\<exists>s. fpcs s = [GetBlocked False, FDone FUnit] \<and> status (s :: (nat, nat) fp_sys) = Pending"
proof -
  let ?s = "\<lparr>status = Pending, fid = 0, idSetted = False, blocked = False, result = Monostate,
     fpcs = [GetBlocked False, FDone FUnit]\<rparr> :: (nat, nat) fp_sys"
  have "run (fp_exec_for False) [(0, FCall (OpGet False)), (0, FStep)] (fp_new 2) = Some ?s" by code_simp
  then have r: "reachable fp_init (fp_exec_for False) ?s" by (rule run_reachable [OF fp_new_reachable])
  have "list_all fp_at_rest (fpcs ?s)" "0 < cnt waits_status (fpcs ?s)" by simp_all
  from fp_no_missed_publication [OF r this] show ?thesis by (intro exI [of _ ?s]) simp
qed

text \<open>A method that is not interrupted behaves as one transition: from any state in which thread
  \<open>t\<close> is idle, its statements executed in a row end, and leave the shared state and the result of
  the atomic layer, for every delivery, \<open>close\<close>, \<open>setId\<close>, and a \<open>get\<close> that does not have to wait.\<close>

theorem fp_solo_runs:
  assumes "t < length (fpcs s)" and "fpcs s ! t = FDone r"
  shows "(\<exists>k s'. run fp_exec ((t, FCall (OpSet p)) # replicate k (t, FStep)) s = Some s' \<and>
            future_state.truncate s' = promise_set p (future_state.truncate s) \<and> fpcs s' ! t = FDone FUnit) \<and>
         (\<exists>k s'. run fp_exec ((t, FCall OpClose) # replicate k (t, FStep)) s = Some s' \<and>
            future_state.truncate s' = promise_close (future_state.truncate s) \<and> fpcs s' ! t = FDone FUnit) \<and>
         (\<exists>k s'. run fp_exec ((t, FCall (OpSetId i)) # replicate k (t, FStep)) s = Some s' \<and>
            future_state.truncate s' = promise_setId i (future_state.truncate s) \<and> fpcs s' ! t = FDone FUnit) \<and>
         (\<forall>g. future_get void (future_state.truncate s) = Some g \<longrightarrow>
            (\<exists>k s'. run fp_exec ((t, FCall (OpGet void)) # replicate k (t, FStep)) s = Some s' \<and>
               future_state.truncate s' = future_state.truncate s \<and> fpcs s' ! t = FDone (FGot g)))"
  using solo_set [OF assms] solo_close [OF assms] solo_setId [OF assms] solo_get [OF assms] by blast

theorem fp_solo_runs_witness:
  "\<exists>k s'. run fp_exec ((0, FCall (OpSet (PValue (42::nat)))) # replicate k (0, FStep))
       (fp_new 1 :: (nat, nat) fp_sys) = Some s' \<and>
     future_state.truncate s' = promise_set (PValue 42) future_state_new \<and> fpcs s' ! 0 = FDone FUnit"
  using fp_solo_runs [of 0 "fp_new 1 :: (nat, nat) fp_sys" FUnit "PValue 42"]
  by (simp add: fp_new_def future_state_new_def future_state.defs)

text \<open>\<open>close\<close> is not one-shot: a consumer can see the future ready, with its value stored, and
  still get nothing, because \<open>close\<close> overwrites the status whether or not the result was delivered.\<close>

theorem fp_close_discards_result:
  "\<exists>s1 s2. run fp_exec ready_schedule (fp_new 2) = Some s1 \<and> fpcs s1 ! 1 = FDone (FBool True) \<and>
     result s1 = Value 42 \<and> run fp_exec close_get_schedule s1 = Some s2 \<and>
     result s2 = Value 42 \<and> fpcs s2 ! 1 = FDone (FGot GotNothing)"
proof -
  let ?s1 = "\<lparr>status = Ready, fid = 0, idSetted = False, blocked = True, result = Value 42,
     fpcs = [FDone FUnit, FDone (FBool True)]\<rparr> :: (nat, nat) fp_sys"
  let ?s2 = "\<lparr>status = Closed, fid = 0, idSetted = False, blocked = True, result = Value 42,
     fpcs = [FDone FUnit, FDone (FGot GotNothing)]\<rparr> :: (nat, nat) fp_sys"
  have "run fp_exec ready_schedule (fp_new 2) = Some ?s1" by code_simp
  moreover have "run fp_exec close_get_schedule ?s1 = Some ?s2" by code_simp
  ultimately show ?thesis by (intro exI [of _ ?s1] exI [of _ ?s2]) simp
qed

text \<open>\<open>setId\<close> publishes the flag before the identifier: a concurrent \<open>getId\<close> can return the
  initial identifier 0 as if it had been set, though only 5 ever was.\<close>

theorem fp_getId_exposes_unset_id:
  "\<exists>s. run fp_exec set_id_schedule (fp_new 2) = Some s \<and> fpcs s ! 1 = FDone (FId (Some 0)) \<and> fid s = 5"
proof -
  let ?s = "\<lparr>status = Pending, fid = 5, idSetted = True, blocked = False, result = Monostate,
     fpcs = [FDone FUnit, FDone (FId (Some 0))]\<rparr> :: (nat, nat) fp_sys"
  have "run fp_exec set_id_schedule (fp_new 2) = Some ?s" by code_simp
  then show ?thesis by (intro exI [of _ ?s]) simp
qed

end
