(* ===== verification/SharedValue.thy ===== *)
theory SharedValue
  imports Prelude
begin

text \<open>
  \<^verbatim>\<open>include/miniruntime/asyncresult/sharedvalue.h\<close>: the reusable value holder of repeating tasks.

  The sequential layer (\<open>sv\<close>, \<open>sv_set\<close>, \<open>sv_setException\<close>, \<open>sv_wait\<close>, \<open>sv_close\<close>, \<open>sv_setId\<close>,
  \<open>sv_getId\<close>) gives each method as one transition, the specification \<open>sv_apply\<close> states its effect on the four fields independently; \<open>SharedValue<void>\<close> is the instance at \<open>bool\<close>
  with \<open>sv_set_void\<close> and \<open>sv_wait_void\<close>. The concurrent layer (\<open>sv_sys\<close>, \<open>sv_exec\<close>) interleaves any
  number of threads. A section under \<open>lock_guard\<close> that neither waits nor touches \<open>m_closed\<close> is one
  step, enabled when the mutex is free; \<open>wait\<close> is split into taking the lock, testing the
  predicate, blocking (which releases the lock) and the part after the wait, because \<open>close\<close>
  stores \<open>m_closed\<close> and notifies without the lock.

  Proved: every interleaving refines the specification, the latest of several values is delivered
  once, and no waiter sleeps while a value or an exception is there. Two surprises are proved as
  well: an exception is never cleared, so that no later value is delivered, and \<open>close\<close> can miss a
  thread on its way to sleep.
\<close>

section \<open>Atomic layer\<close>

record ('a, 'e) sv =
  sv_value :: "'a option"
  sv_exception :: "'e option"
  sv_closed :: bool
  sv_id :: "u64 option"

definition sv_new :: "('a, 'e) sv" where
  "sv_new = \<lparr>sv_value = None, sv_exception = None, sv_closed = False, sv_id = None\<rparr>"

definition sv_set :: "'a \<Rightarrow> ('a, 'e, 'm) sv_scheme \<Rightarrow> ('a, 'e, 'm) sv_scheme" where
  "sv_set v s = s\<lparr>sv_value := Some v\<rparr>"

definition sv_setException :: "'e \<Rightarrow> ('a, 'e, 'm) sv_scheme \<Rightarrow> ('a, 'e, 'm) sv_scheme" where
  "sv_setException e s = s\<lparr>sv_exception := Some e\<rparr>"

text \<open>The predicate of \<open>m_cv.wait\<close>, and what follows the wait: \<open>nullopt\<close>, a rethrow, or the value,
  which is taken out of the slot.\<close>

definition sv_pred :: "('a, 'e, 'm) sv_scheme \<Rightarrow> bool" where
  "sv_pred s \<longleftrightarrow> sv_value s \<noteq> None \<or> sv_exception s \<noteq> None \<or> sv_closed s"

datatype ('a, 'e) wait_outcome = WValue 'a | WNullopt | WThrew 'e

definition sv_take :: "('a, 'e, 'm) sv_scheme \<Rightarrow> ('a, 'e) wait_outcome \<times> ('a, 'e, 'm) sv_scheme" where
  "sv_take s =
     (if sv_closed s then (WNullopt, s)
      else case sv_exception s of
        Some e \<Rightarrow> (WThrew e, s)
      | None \<Rightarrow> (case sv_value s of None \<Rightarrow> WNullopt | Some v \<Rightarrow> WValue v, s\<lparr>sv_value := None\<rparr>))"

definition sv_wait :: "('a, 'e, 'm) sv_scheme \<Rightarrow> (('a, 'e) wait_outcome \<times> ('a, 'e, 'm) sv_scheme) option" where
  "sv_wait s = guarded (sv_pred s) (sv_take s)"

definition sv_close :: "('a, 'e, 'm) sv_scheme \<Rightarrow> ('a, 'e, 'm) sv_scheme" where
  "sv_close s = s\<lparr>sv_closed := True\<rparr>"

definition sv_setId :: "u64 \<Rightarrow> ('a, 'e, 'm) sv_scheme \<Rightarrow> ('a, 'e, 'm) sv_scheme" where
  "sv_setId i s = s\<lparr>sv_id := Some i\<rparr>"

definition sv_getId :: "('a, 'e, 'm) sv_scheme \<Rightarrow> u64 option" where
  "sv_getId s = sv_id s"

text \<open>\<open>SharedValue<void>\<close>; an exception passes through \<open>wait\<close>.\<close>

definition sv_set_void :: "(bool, 'e) sv \<Rightarrow> (bool, 'e) sv" where
  "sv_set_void s = sv_set True s"

fun has_value :: "(bool, 'e) wait_outcome \<Rightarrow> (bool, 'e) wait_outcome" where
  "has_value (WValue v) = WValue True"
| "has_value WNullopt = WValue False"
| "has_value (WThrew e) = WThrew e"

definition sv_wait_void :: "(bool, 'e) sv \<Rightarrow> ((bool, 'e) wait_outcome \<times> (bool, 'e) sv) option" where
  "sv_wait_void s = map_option (map_prod has_value id) (sv_wait s)"

datatype ('a, 'e) sv_op =
    SvSet 'a | SvSetException 'e | SvWait | SvClose | SvSetId u64 | SvGetId

datatype ('a, 'e) sv_res = SvUnit | SvGot "('a, 'e) wait_outcome" | SvIdent "u64 option"

fun sv_apply :: "('a, 'e) sv_op \<Rightarrow> ('a, 'e) sv \<Rightarrow> (('a, 'e) sv_res \<times> ('a, 'e) sv) option" where
  "sv_apply (SvSet v) s = Some (SvUnit, s\<lparr>sv_value := Some v\<rparr>)"
| "sv_apply (SvSetException e) s = Some (SvUnit, s\<lparr>sv_exception := Some e\<rparr>)"
| "sv_apply SvWait s =
     (if sv_closed s then Some (SvGot WNullopt, s)
      else case (sv_exception s, sv_value s) of
        (Some e, _) \<Rightarrow> Some (SvGot (WThrew e), s)
      | (None, Some v) \<Rightarrow> Some (SvGot (WValue v), s\<lparr>sv_value := None\<rparr>)
      | (None, None) \<Rightarrow> None)"
| "sv_apply SvClose s = Some (SvUnit, s\<lparr>sv_closed := True\<rparr>)"
| "sv_apply (SvSetId i) s = Some (SvUnit, s\<lparr>sv_id := Some i\<rparr>)"
| "sv_apply SvGetId s = Some (SvIdent (sv_id s), s)"

fun sv_spec :: "tid \<times> ('a, 'e) sv_op \<times> ('a, 'e) sv_res \<Rightarrow> ('a, 'e) sv \<Rightarrow> ('a, 'e) sv option" where
  "sv_spec (t, oper, r) s =
     (case sv_apply oper s of None \<Rightarrow> None | Some (r', s') \<Rightarrow> guarded (r' = r) s')"

section \<open>Concurrent layer\<close>

datatype ('a, 'e) sv_pc =
    SvDone "('a, 'e) sv_res"
  | SetLock 'a                 \<comment> \<open>\<open>set\<close>: the section under \<open>lock_guard\<close>\<close>
  | SetExcLock 'e              \<comment> \<open>\<open>setException\<close>: the section under \<open>lock_guard\<close>\<close>
  | PubNotify                  \<comment> \<open>\<open>m_cv.notify_all()\<close> after the section\<close>
  | WaitLock                   \<comment> \<open>acquire \<open>m_mutex\<close>\<close>
  | WaitTest                   \<comment> \<open>evaluate the predicate\<close>
  | WaitBlock                  \<comment> \<open>release and block\<close>
  | WaitBlocked
  | WaitDecide                 \<comment> \<open>after the wait, to the return\<close>
  | CloseStore                 \<comment> \<open>\<open>m_closed.store(true)\<close>\<close>
  | CloseNotify                \<comment> \<open>\<open>m_cv.notify_all()\<close>\<close>
  | SetIdLock u64
  | GetIdLock

record ('a, 'e) sv_sys = "('a, 'e) sv" +
  sv_mutex :: "tid option"
  sv_pcs :: "('a, 'e) sv_pc list"

definition sv_sys_new :: "nat \<Rightarrow> ('a, 'e) sv_sys" where
  "sv_sys_new n = \<lparr>sv_value = None, sv_exception = None, sv_closed = False, sv_id = None,
     sv_mutex = None, sv_pcs = replicate n (SvDone SvUnit)\<rparr>"

definition svgoto :: "tid \<Rightarrow> ('a, 'e) sv_pc \<Rightarrow> ('a, 'e) sv_sys \<Rightarrow> ('a, 'e) sv_sys" where
  "svgoto t p s = s\<lparr>sv_pcs := (sv_pcs s)[t := p]\<rparr>"

fun sv_call :: "('a, 'e) sv_op \<Rightarrow> ('a, 'e) sv_pc" where
  "sv_call (SvSet v) = SetLock v"
| "sv_call (SvSetException e) = SetExcLock e"
| "sv_call SvWait = WaitLock"
| "sv_call SvClose = CloseStore"
| "sv_call (SvSetId i) = SetIdLock i"
| "sv_call SvGetId = GetIdLock"

fun sv_wake :: "('a, 'e) sv_pc \<Rightarrow> ('a, 'e) sv_pc" where
  "sv_wake WaitBlocked = WaitLock"
| "sv_wake p = p"

definition sv_notify_all :: "('a, 'e) sv_sys \<Rightarrow> ('a, 'e) sv_sys" where
  "sv_notify_all s = s\<lparr>sv_pcs := map sv_wake (sv_pcs s)\<rparr>"

fun sv_step :: "tid \<Rightarrow> ('a, 'e) sv_pc \<Rightarrow> ('a, 'e) sv_sys \<Rightarrow> ('a, 'e) sv_sys option" where
  "sv_step t (SetLock v) s = guarded (sv_mutex s = None) (svgoto t PubNotify (sv_set v s))"
| "sv_step t (SetExcLock e) s = guarded (sv_mutex s = None) (svgoto t PubNotify (sv_setException e s))"
| "sv_step t PubNotify s = Some (svgoto t (SvDone SvUnit) (sv_notify_all s))"
| "sv_step t WaitLock s = guarded (sv_mutex s = None) (svgoto t WaitTest (s\<lparr>sv_mutex := Some t\<rparr>))"
| "sv_step t WaitTest s = Some (svgoto t (if sv_pred s then WaitDecide else WaitBlock) s)"
| "sv_step t WaitBlock s = Some (svgoto t WaitBlocked (s\<lparr>sv_mutex := None\<rparr>))"
| "sv_step t WaitDecide s =
     (case sv_take s of (r, s') \<Rightarrow> Some (svgoto t (SvDone (SvGot r)) (s'\<lparr>sv_mutex := None\<rparr>)))"
| "sv_step t CloseStore s = Some (svgoto t CloseNotify (sv_close s))"
| "sv_step t CloseNotify s = Some (svgoto t (SvDone SvUnit) (sv_notify_all s))"
| "sv_step t (SetIdLock i) s = guarded (sv_mutex s = None) (svgoto t (SvDone SvUnit) (sv_setId i s))"
| "sv_step t GetIdLock s = guarded (sv_mutex s = None) (svgoto t (SvDone (SvIdent (sv_getId s))) s)"
| "sv_step t WaitBlocked s = None"
| "sv_step t (SvDone r) s = None"

datatype ('a, 'e) sv_act = SvCall "('a, 'e) sv_op" | SvStep | SvSpurious

fun sv_exec :: "tid \<times> ('a, 'e) sv_act \<Rightarrow> ('a, 'e) sv_sys \<Rightarrow> ('a, 'e) sv_sys option" where
  "sv_exec (t, a) s =
     (if t < length (sv_pcs s) then
        (case a of
           SvCall oper \<Rightarrow> (case sv_pcs s ! t of SvDone r \<Rightarrow> Some (svgoto t (sv_call oper) s) | _ \<Rightarrow> None)
         | SvStep \<Rightarrow> sv_step t (sv_pcs s ! t) s
         | SvSpurious \<Rightarrow> guarded (sv_pcs s ! t = WaitBlocked) (svgoto t WaitLock s))
      else None)"

definition sv_init :: "('a, 'e) sv_sys \<Rightarrow> bool" where
  "sv_init s \<longleftrightarrow> (\<exists>n. s = sv_sys_new n)"

section \<open>Abstraction and invariant\<close>

definition sv_abs :: "('a, 'e) sv_sys \<Rightarrow> ('a, 'e) sv" where
  "sv_abs s = \<lparr>sv_value = sv_value s, sv_exception = sv_exception s, sv_closed = sv_closed s, sv_id = sv_id s\<rparr>"

text \<open>The step at which an operation takes effect, with its result.\<close>

fun sv_lin_step :: "tid \<Rightarrow> ('a, 'e) sv_pc \<Rightarrow> ('a, 'e) sv_sys \<Rightarrow> (tid \<times> ('a, 'e) sv_op \<times> ('a, 'e) sv_res) option" where
  "sv_lin_step t (SetLock v) s = Some (t, SvSet v, SvUnit)"
| "sv_lin_step t (SetExcLock e) s = Some (t, SvSetException e, SvUnit)"
| "sv_lin_step t WaitDecide s = Some (t, SvWait, SvGot (fst (sv_take s)))"
| "sv_lin_step t CloseStore s = Some (t, SvClose, SvUnit)"
| "sv_lin_step t (SetIdLock i) s = Some (t, SvSetId i, SvUnit)"
| "sv_lin_step t GetIdLock s = Some (t, SvGetId, SvIdent (sv_id s))"
| "sv_lin_step t p s = None"

fun sv_lin :: "tid \<times> ('a, 'e) sv_act \<Rightarrow> ('a, 'e) sv_sys \<Rightarrow> (tid \<times> ('a, 'e) sv_op \<times> ('a, 'e) sv_res) option" where
  "sv_lin (t, a) s = (case a of SvStep \<Rightarrow> sv_lin_step t (sv_pcs s ! t) s | _ \<Rightarrow> None)"

fun sv_holds :: "('a, 'e) sv_pc \<Rightarrow> bool" where
  "sv_holds WaitTest = True"
| "sv_holds WaitBlock = True"
| "sv_holds WaitDecide = True"
| "sv_holds _ = False"

definition sv_ok :: "('a, 'e) sv_sys \<Rightarrow> tid \<Rightarrow> ('a, 'e) sv_pc \<Rightarrow> bool" where
  "sv_ok s t p \<longleftrightarrow> (sv_holds p \<longrightarrow> sv_mutex s = Some t) \<and> (p = WaitDecide \<longrightarrow> sv_pred s) \<and>
     (p = WaitBlock \<longrightarrow> sv_value s = None \<and> sv_exception s = None)"

definition sv_inv :: "('a, 'e) sv_sys \<Rightarrow> bool" where
  "sv_inv s \<longleftrightarrow> (\<forall>t < length (sv_pcs s). sv_ok s t (sv_pcs s ! t))"

definition sv_wake_inv :: "('a, 'e) sv_sys \<Rightarrow> bool" where
  "sv_wake_inv s \<longleftrightarrow>
     (WaitBlocked \<in> set (sv_pcs s) \<and> (sv_value s \<noteq> None \<or> sv_exception s \<noteq> None) \<longrightarrow> PubNotify \<in> set (sv_pcs s))"

fun sv_at_rest :: "('a, 'e) sv_pc \<Rightarrow> bool" where
  "sv_at_rest (SvDone r) = True"
| "sv_at_rest WaitBlocked = True"
| "sv_at_rest _ = False"

text \<open>The only operation after which \<open>wait\<close> stops throwing a stored exception.\<close>

fun not_close :: "tid \<times> ('a, 'e) sv_op \<times> ('a, 'e) sv_res \<Rightarrow> bool" where
  "not_close (t, SvClose, r) = False"
| "not_close _ = True"

fun wait_threw :: "tid \<times> ('a, 'e) sv_op \<times> ('a, 'e) sv_res \<Rightarrow> bool" where
  "wait_threw (t, SvWait, r) = (\<exists>e. r = SvGot (WThrew e))"
| "wait_threw _ = True"

text \<open>The operations that leave a stored value in place, and those that end the delivery of values.\<close>

fun keeps_value :: "tid \<times> ('a, 'e) sv_op \<times> ('a, 'e) sv_res \<Rightarrow> bool" where
  "keeps_value (t, SvSet v, r) = False"
| "keeps_value (t, SvWait, SvGot (WValue v)) = False"
| "keeps_value _ = True"

fun still_delivers :: "tid \<times> ('a, 'e) sv_op \<times> ('a, 'e) sv_res \<Rightarrow> bool" where
  "still_delivers (t, SvClose, r) = False"
| "still_delivers (t, SvSetException e, r) = False"
| "still_delivers _ = True"

definition sv_full_inv :: "('a, 'e) sv_sys \<Rightarrow> bool" where
  "sv_full_inv s \<longleftrightarrow> sv_inv s \<and> sv_wake_inv s"

text \<open>Concrete schedules.\<close>

definition sv_handover :: "(tid \<times> (nat, nat) sv_act) list" where
  "sv_handover = [(1, SvCall SvWait), (1, SvStep), (1, SvStep), (1, SvStep), (0, SvCall (SvSet 5)), (0, SvStep),
     (0, SvStep), (1, SvStep), (1, SvStep), (1, SvStep)]"

definition sv_throw :: "(tid \<times> (nat, nat) sv_act) list" where
  "sv_throw = [(0, SvCall (SvSetException 9)), (0, SvStep), (0, SvStep)]"

definition sv_set_wait :: "(tid \<times> (nat, nat) sv_act) list" where
  "sv_set_wait = [(0, SvCall (SvSet 5)), (0, SvStep), (0, SvStep), (1, SvCall SvWait), (1, SvStep), (1, SvStep),
     (1, SvStep)]"

definition sv_missed_close :: "(tid \<times> (nat, nat) sv_act) list" where
  "sv_missed_close = [(1, SvCall SvWait), (1, SvStep), (1, SvStep), (0, SvCall SvClose), (0, SvStep), (0, SvStep),
     (1, SvStep)]"

section \<open>Lemmas\<close>

lemma svgoto_simps [simp]:
  "sv_value (svgoto t p s) = sv_value s" "sv_exception (svgoto t p s) = sv_exception s"
  "sv_closed (svgoto t p s) = sv_closed s" "sv_id (svgoto t p s) = sv_id s"
  "sv_mutex (svgoto t p s) = sv_mutex s" "sv_pcs (svgoto t p s) = (sv_pcs s)[t := p]"
  by (simp_all add: svgoto_def)

lemma sv_notify_simps [simp]:
  "sv_value (sv_notify_all s) = sv_value s" "sv_exception (sv_notify_all s) = sv_exception s"
  "sv_closed (sv_notify_all s) = sv_closed s" "sv_id (sv_notify_all s) = sv_id s"
  "sv_mutex (sv_notify_all s) = sv_mutex s" "sv_pcs (sv_notify_all s) = map sv_wake (sv_pcs s)"
  by (simp_all add: sv_notify_all_def)

lemma sv_wake_class [simp]:
  "sv_holds (sv_wake p) = sv_holds p" "sv_wake p = WaitDecide \<longleftrightarrow> p = WaitDecide"
  "sv_wake p = WaitBlock \<longleftrightarrow> p = WaitBlock" "WaitBlocked \<noteq> sv_wake p" "sv_wake p \<noteq> WaitBlocked"
  by (cases p; simp)+

lemma sv_call_class [simp]:
  "\<not> sv_holds (sv_call oper)" "sv_call oper \<noteq> WaitDecide" "sv_call oper \<noteq> WaitBlock" "sv_call oper \<noteq> WaitBlocked"
  "WaitBlocked \<noteq> sv_call oper" "PubNotify \<noteq> sv_call oper"
  by (cases oper; simp)+

lemma sv_take_simps [simp]:
  "sv_mutex (snd (sv_take s)) = sv_mutex s" "sv_pcs (snd (sv_take s)) = sv_pcs s"
  "sv_exception (snd (sv_take s)) = sv_exception s" "sv_closed (snd (sv_take s)) = sv_closed s"
  "sv_id (snd (sv_take s)) = sv_id s"
  by (auto simp: sv_take_def split: option.splits if_splits)

lemma sv_take_value: "sv_value (snd (sv_take s)) = Some v \<Longrightarrow> sv_value s = Some v"
  by (auto simp: sv_take_def split: option.splits if_splits)

lemmas sv_op_defs [atomic_ops] = sv_set_def sv_setException_def sv_close_def sv_setId_def sv_getId_def

lemma sv_ok_wake [simp]: "sv_ok s t (sv_wake p) = sv_ok s t p"
  by (simp add: sv_ok_def)

lemma sv_ok_idle: "\<not> sv_holds q \<Longrightarrow> sv_ok s t q"
  by (cases q) (simp_all add: sv_ok_def)

lemma sv_ok_step:
  assumes "sv_step t p s = Some s'" "sv_ok s t p" "sv_ok s u q" "u \<noteq> t"
  shows "sv_ok s' u q"
proof (cases "sv_holds q")
  case True
  with assms(3) have m: "sv_mutex s = Some u" by (simp add: sv_ok_def)
  with assms(2,4) have "\<not> sv_holds p" by (auto simp: sv_ok_def)
  with assms(1,3) m show ?thesis
    by (cases p) (auto simp: sv_ok_def sv_close_def sv_pred_def)
qed (rule sv_ok_idle)

lemma sv_pcs_step:
  assumes "sv_step t p s = Some s'" "t < length (sv_pcs s)"
  shows "length (sv_pcs s') = length (sv_pcs s) \<and> (\<forall>u < length (sv_pcs s). u \<noteq> t \<longrightarrow>
     sv_pcs s' ! u = sv_pcs s ! u \<or> sv_pcs s' ! u = sv_wake (sv_pcs s ! u))"
  using assms by (cases p) (auto simp: atomic_ops split_def)

lemma sv_ok_own:
  assumes "sv_step t p s = Some s'" "t < length (sv_pcs s)" "sv_ok s t p"
  shows "sv_ok s' t (sv_pcs s' ! t)"
  using assms by (cases p) (auto simp: atomic_ops sv_ok_def sv_pred_def split_def split: if_splits)

lemma sv_step_inv:
  assumes "sv_inv s" "t < length (sv_pcs s)" "sv_step t (sv_pcs s ! t) s = Some s'"
  shows "sv_inv s'"
  unfolding sv_inv_def
proof (intro allI impI)
  fix u assume u: "u < length (sv_pcs s')"
  have ok: "sv_ok s t (sv_pcs s ! t)" using assms(1,2) by (simp add: sv_inv_def)
  show "sv_ok s' u (sv_pcs s' ! u)"
  proof (cases "u = t")
    case True
    with sv_ok_own [OF assms(3,2) ok] show ?thesis by simp
  next
    case False
    have len: "u < length (sv_pcs s)" using u sv_pcs_step [OF assms(3,2)] by simp
    then have "sv_ok s u (sv_pcs s ! u)" using assms(1) by (simp add: sv_inv_def)
    with sv_ok_step [OF assms(3) ok] False have "sv_ok s' u (sv_pcs s ! u)" by blast
    with sv_pcs_step [OF assms(3,2)] False len show ?thesis by (metis sv_ok_wake)
  qed
qed

lemma sv_ok_svgoto [simp]: "sv_ok (svgoto t p s) = sv_ok s"
  by (intro ext) (simp add: sv_ok_def sv_pred_def)

lemma sv_ok_call [simp]: "sv_ok s t (sv_call oper)" "sv_ok s t WaitLock" "sv_ok s t WaitBlocked"
  by (simp_all add: sv_ok_def)

lemma sv_inv_goto:
  assumes "sv_inv s" "sv_ok s t p"
  shows "sv_inv (svgoto t p s)"
  unfolding sv_inv_def
proof (intro allI impI)
  fix u assume "u < length (sv_pcs (svgoto t p s))"
  with assms show "sv_ok (svgoto t p s) u (sv_pcs (svgoto t p s) ! u)"
    by (cases "u = t") (simp_all add: sv_inv_def)
qed

lemma sv_exec_inv: "sv_inv s \<Longrightarrow> sv_exec a s = Some s' \<Longrightarrow> sv_inv s'"
  by (cases a) (auto split: if_splits sv_act.splits sv_pc.splits intro: sv_step_inv sv_inv_goto)

lemma sv_abs_goto [simp]: "sv_abs (svgoto t p s) = sv_abs s" "sv_abs (sv_notify_all s) = sv_abs s"
    "sv_abs (s\<lparr>sv_mutex := m\<rparr>) = sv_abs s"
  by (simp_all add: sv_abs_def)

lemma sv_abs_ops [simp]:
  "sv_abs (sv_set v s) = sv_set v (sv_abs s)" "sv_abs (sv_setException e s) = sv_setException e (sv_abs s)"
  "sv_abs (sv_close s) = sv_close (sv_abs s)" "sv_abs (sv_setId i s) = sv_setId i (sv_abs s)"
  "sv_id (sv_abs s) = sv_id s" "sv_pred (sv_abs s) = sv_pred s"
  "sv_take (sv_abs s) = map_prod id sv_abs (sv_take s)"
  by (auto simp: sv_abs_def atomic_ops sv_pred_def sv_take_def split: option.splits)

lemma sv_step_refines:
  assumes "sv_ok s t p" "sv_step t p s = Some s'"
  shows "case sv_lin_step t p s of None \<Rightarrow> sv_abs s' = sv_abs s
     | Some e \<Rightarrow> sv_spec e (sv_abs s) = Some (sv_abs s')"
  using assms
  by (cases p) (auto simp: sv_ok_def sv_pred_def sv_take_def sv_abs_def atomic_ops split_def split: option.splits)

interpretation sv: linearization sv_init sv_exec sv_inv sv_abs sv_lin sv_spec
proof unfold_locales
  fix s :: "('a, 'e) sv_sys"
  show "sv_init s \<Longrightarrow> sv_inv s" by (auto simp: sv_init_def sv_inv_def sv_sys_new_def sv_ok_def)
next
  fix a :: "tid \<times> ('a, 'e) sv_act" and s s' :: "('a, 'e) sv_sys" and e
  assume inv: "sv_inv s" and ex: "sv_exec a s = Some s'"
  then show "sv_inv s'" by (rule sv_exec_inv)
  obtain t x where a: "a = (t, x)" by (cases a)
  have *: "case sv_lin a s of None \<Rightarrow> sv_abs s' = sv_abs s | Some e \<Rightarrow> sv_spec e (sv_abs s) = Some (sv_abs s')"
    using ex inv a sv_step_refines [of s t "sv_pcs s ! t" s']
    by (auto simp: sv_inv_def split: sv_act.splits if_splits sv_pc.splits)
  show "sv_abs s' = sv_abs s" if "sv_lin a s = None" using * that by simp
  show "sv_spec e (sv_abs s) = Some (sv_abs s')" if "sv_lin a s = Some e" using * that by simp
qed

lemma sv_wake_step:
  assumes "sv_inv s" "sv_wake_inv s" "t < length (sv_pcs s)" "sv_step t (sv_pcs s ! t) s = Some s'"
  shows "sv_wake_inv s'"
proof -
  have "sv_ok s t (sv_pcs s ! t)" using assms(1,3) by (simp add: sv_inv_def)
  with assms(2-4) in_set_update_other [of PubNotify "sv_pcs s" t] show ?thesis
    by (cases "sv_pcs s ! t")
      (auto simp: sv_wake_inv_def atomic_ops sv_ok_def split_def image_iff set_update_memI
        dest!: sv_take_value set_update_cases split: if_splits)
qed

interpretation svw: invariant_system sv_init sv_exec sv_full_inv
proof unfold_locales
  fix s :: "('a, 'e) sv_sys"
  assume i: "sv_init s"
  then have "sv_inv s" by (rule sv.inv_init)
  with i show "sv_full_inv s" by (auto simp: sv_full_inv_def sv_init_def sv_sys_new_def sv_wake_inv_def)
next
  fix a :: "tid \<times> ('a, 'e) sv_act" and s s' :: "('a, 'e) sv_sys"
  assume inv: "sv_full_inv s" and ex: "sv_exec a s = Some s'"
  obtain t x where a: "a = (t, x)" by (cases a)
  have "sv_wake_inv s'"
  proof (cases "x = SvStep")
    case True
    with inv ex a show ?thesis by (auto simp: sv_full_inv_def split: if_splits intro: sv_wake_step)
  next
    case False
    with inv ex a in_set_update_other [of PubNotify "sv_pcs s" t] show ?thesis
      by (auto simp: sv_full_inv_def sv_wake_inv_def dest!: set_update_cases
          split: if_splits sv_act.splits sv_pc.splits)
  qed
  with inv ex show "sv_full_inv s'" by (auto simp: sv_full_inv_def intro: sv.inv_exec)
qed

text \<open>Where a stored value comes from, and what a holder that still delivers has not seen.\<close>

lemma sv_value_origin:
  assumes "run sv_spec h sv_new = Some s" "sv_value s = Some v"
  shows "\<exists>fs u gs. h = fs @ (u, SvSet v, SvUnit) # gs \<and> list_all keeps_value gs"
  using assms
proof (induction h arbitrary: s rule: rev_induct)
  case Nil
  then show ?case by (auto simp: sv_new_def)
next
  case (snoc e h)
  obtain t oper r where e: "e = (t, oper, r)" by (cases e)
  from snoc.prems(1) obtain x where x: "run sv_spec h sv_new = Some x" "sv_spec e x = Some s"
    by (auto simp: run_append simp del: sv_spec.simps split: option.splits)
  show ?case
  proof (cases "keeps_value e")
    case True
    with x(2) e snoc.prems(2) have "sv_value x = Some v"
      by (cases oper) (auto simp: atomic_ops sv_wait_def sv_take_def split: option.splits if_splits)
    with snoc.IH [OF x(1)] obtain fs u gs where "h = fs @ (u, SvSet v, SvUnit) # gs" "list_all keeps_value gs" by blast
    with True have "h @ [e] = fs @ (u, SvSet v, SvUnit) # (gs @ [e]) \<and> list_all keeps_value (gs @ [e])" by simp
    then show ?thesis by blast
  next
    case False
    with x(2) e snoc.prems(2) have "e = (t, SvSet v, SvUnit)"
      by (cases oper) (auto simp: atomic_ops sv_wait_def sv_take_def split: option.splits if_splits)
    then have "h @ [e] = h @ (t, SvSet v, SvUnit) # [] \<and> list_all keeps_value []" by simp
    then show ?thesis by blast
  qed
qed

lemma sv_still_delivers:
  "run sv_spec h s = Some s' \<Longrightarrow> \<not> sv_closed s' \<Longrightarrow> sv_exception s' = None \<Longrightarrow>
     list_all still_delivers h \<and> \<not> sv_closed s \<and> sv_exception s = None"
proof (induction h arbitrary: s)
  case (Cons e h)
  obtain t oper r where e: "e = (t, oper, r)" by (cases e)
  with Cons.prems obtain u where u: "sv_spec e s = Some u" "run sv_spec h u = Some s'"
    by (auto simp del: sv_spec.simps split: option.splits)
  with Cons.IH [OF u(2)] Cons.prems have I: "list_all still_delivers h" "\<not> sv_closed u" "sv_exception u = None" by auto
  with u(1) e have "still_delivers e \<and> \<not> sv_closed s \<and> sv_exception s = None"
    by (cases oper) (auto simp: atomic_ops sv_wait_def sv_take_def split: option.splits if_splits)
  with I show ?case by simp
qed simp

lemma sv_spec_sticky:
  "run sv_spec h s = Some s' \<Longrightarrow> sv_exception s \<noteq> None \<Longrightarrow> \<not> sv_closed s \<Longrightarrow> list_all not_close h \<Longrightarrow>
     list_all wait_threw h \<and> sv_exception s' \<noteq> None"
proof (induction h arbitrary: s)
  case (Cons e h)
  obtain t oper r where e: "e = (t, oper, r)" by (cases e)
  with Cons.prems obtain u where u: "sv_spec e s = Some u" "run sv_spec h u = Some s'"
    by (auto simp del: sv_spec.simps split: option.splits)
  with Cons.prems e have "wait_threw e \<and> sv_exception u \<noteq> None \<and> \<not> sv_closed u"
    by (cases oper) (auto simp: atomic_ops sv_wait_def sv_take_def split: option.splits if_splits)
  with Cons.IH [OF u(2)] Cons.prems(4) show ?case by simp
qed simp

section \<open>Properties\<close>

text \<open>C11. Every interleaving of \<open>set\<close>, \<open>setException\<close>, \<open>wait\<close>, \<open>close\<close>, \<open>setId\<close> and \<open>getId\<close>, with
  spurious wake-ups, refines the atomic holder: the operations in the order of their effects,
  with the results the callers get, are a run of the atomic operations.\<close>

theorem sv_linearizable:
  assumes "run sv_exec as (sv_sys_new n) = Some s"
  shows "run sv_spec (events sv_exec sv_lin as (sv_sys_new n)) sv_new = Some (sv_abs s)"
proof -
  have "sv_init (sv_sys_new n)" by (auto simp: sv_init_def)
  from sv.history_refines [OF this assms] show ?thesis
    by (simp add: sv_abs_def sv_new_def sv_sys_new_def)
qed

theorem sv_linearizable_witness:
  "\<exists>s. run sv_exec sv_handover (sv_sys_new 2) = Some s \<and>
     run sv_spec [(0, SvSet 5, SvUnit), (1, SvWait, SvGot (WValue 5))] sv_new = Some (sv_abs s)"
proof -
  have ev: "events sv_exec sv_lin sv_handover (sv_sys_new 2) = [(0, SvSet 5, SvUnit), (1, SvWait, SvGot (WValue 5))]"
    by code_simp
  have "run sv_exec sv_handover (sv_sys_new 2) \<noteq> None" by code_simp
  then obtain s where s: "run sv_exec sv_handover (sv_sys_new 2) = Some s" by blast
  from sv_linearizable [OF s] s show ?thesis unfolding ev by blast
qed

text \<open>C38. The latest value, once: in every interleaving, a \<open>wait\<close> that returns a value returns the one stored by
  the last \<open>set\<close> that took effect before it, no other \<open>wait\<close> has returned a value since that \<open>set\<close>, and
  neither \<open>close\<close> nor \<open>setException\<close> has taken effect at all: after an exception no value is ever
  delivered.\<close>

theorem sv_latest_once:
  assumes "run sv_exec as (sv_sys_new n) = Some s"
    and "events sv_exec sv_lin as (sv_sys_new n) = es @ (t, SvWait, SvGot (WValue v)) # ds"
  shows "(\<exists>fs u gs. es = fs @ (u, SvSet v, SvUnit) # gs \<and> list_all keeps_value gs) \<and> list_all still_delivers es"
proof -
  have "sv_init (sv_sys_new n)" by (auto simp: sv_init_def)
  from sv.history_refines [OF this assms(1)] assms(2)
  have "run sv_spec (es @ (t, SvWait, SvGot (WValue v)) # ds) sv_new = Some (sv_abs s)"
    by (simp add: sv_abs_def sv_new_def sv_sys_new_def)
  then obtain x y where x: "run sv_spec es sv_new = Some x" "sv_spec (t, SvWait, SvGot (WValue v)) x = Some y"
    by (auto simp: run_append simp del: sv_spec.simps split: option.splits)
  then have "\<not> sv_closed x" "sv_exception x = None" "sv_value x = Some v"
    by (auto simp: sv_wait_def sv_take_def split: option.splits if_splits)
  with sv_value_origin [OF x(1)] sv_still_delivers [OF x(1)] show ?thesis by blast
qed

theorem sv_latest_once_witness:
  "\<exists>s. run sv_exec (sv_set_wait @ sv_handover) (sv_sys_new 2) = Some s \<and>
     events sv_exec sv_lin (sv_set_wait @ sv_handover) (sv_sys_new 2) =
       [(0, SvSet 5, SvUnit), (1, SvWait, SvGot (WValue 5)), (0, SvSet 5, SvUnit), (1, SvWait, SvGot (WValue 5))] \<and>
     (\<exists>fs u gs. [(0, SvSet 5, SvUnit :: (nat, nat) sv_res), (1, SvWait, SvGot (WValue 5)), (0, SvSet 5, SvUnit)] =
        fs @ (u, SvSet 5, SvUnit) # gs \<and> list_all keeps_value gs)"
proof -
  have ev: "events sv_exec sv_lin (sv_set_wait @ sv_handover) (sv_sys_new 2) =
       [(0, SvSet 5, SvUnit), (1, SvWait, SvGot (WValue 5)), (0, SvSet 5, SvUnit)] @ (1, SvWait, SvGot (WValue 5)) # []" by code_simp
  have "run sv_exec (sv_set_wait @ sv_handover) (sv_sys_new 2) \<noteq> None" by code_simp
  then obtain s where s: "run sv_exec (sv_set_wait @ sv_handover) (sv_sys_new 2) = Some s" by blast
  from sv_latest_once [OF s ev] s ev show ?thesis by simp
qed

text \<open>One \<open>wait\<close> after several values, on every branch: a closed holder gives \<open>nullopt\<close>, a stored exception is thrown
  (both leave the value where it is), otherwise the last value is taken out and the next \<open>wait\<close> blocks.\<close>

theorem sv_wait_after_sets:
  assumes "vs \<noteq> []"
  shows "sv_wait (fold sv_set vs s) =
     (if sv_closed s then Some (WNullopt, s\<lparr>sv_value := Some (last vs)\<rparr>)
      else case sv_exception s of
        Some e \<Rightarrow> Some (WThrew e, s\<lparr>sv_value := Some (last vs)\<rparr>)
      | None \<Rightarrow> Some (WValue (last vs), s\<lparr>sv_value := None\<rparr>))"
proof -
  have "fold sv_set vs s = s\<lparr>sv_value := Some (last vs)\<rparr>"
    using assms by (induction vs arbitrary: s) (auto simp: sv_set_def)
  then show ?thesis by (simp add: sv_wait_def sv_pred_def sv_take_def split: option.split)
qed

text \<open>No missed publication: when every thread has returned or sleeps in \<open>wait\<close> and some thread
  does sleep, neither a value nor an exception is there.\<close>

theorem sv_no_missed_publication:
  assumes "reachable sv_init sv_exec s" "list_all sv_at_rest (sv_pcs s)" "WaitBlocked \<in> set (sv_pcs s)"
  shows "sv_value s = None \<and> sv_exception s = None"
proof -
  have "sv_wake_inv s" using svw.reachable_inv [OF assms(1)] by (simp add: sv_full_inv_def)
  moreover have "PubNotify \<notin> set (sv_pcs s)" using assms(2) by (auto simp: list_all_iff)
  ultimately show ?thesis using assms(3) by (auto simp: sv_wake_inv_def)
qed

theorem sv_no_missed_publication_witness:
  "\<exists>s. run sv_exec (take 4 sv_handover) (sv_sys_new 2) = Some s \<and> sv_pcs s = [SvDone SvUnit, WaitBlocked] \<and>
     sv_value s = None \<and> sv_exception s = None"
proof -
  have "map_option sv_pcs (run sv_exec (take 4 sv_handover) (sv_sys_new 2)) = Some [SvDone SvUnit, WaitBlocked]"
    by code_simp
  then obtain s where s: "run sv_exec (take 4 sv_handover) (sv_sys_new 2) = Some s"
    "sv_pcs s = [SvDone SvUnit, WaitBlocked]" by auto
  have "reachable sv_init sv_exec s"
    by (rule run_reachable [OF reachable.start s(1)]) (auto simp: sv_init_def)
  from sv_no_missed_publication [OF this] s show ?thesis by simp
qed

text \<open>An exception is never cleared: after \<open>setException\<close>, in every continuation without \<open>close\<close>,
  every \<open>wait\<close> of every thread throws, however many values are set later.\<close>

theorem sv_exception_sticky:
  assumes "reachable sv_init sv_exec s" "sv_exception s \<noteq> None" "\<not> sv_closed s"
    "run sv_exec as s = Some s'" "list_all not_close (events sv_exec sv_lin as s)"
  shows "list_all wait_threw (events sv_exec sv_lin as s)"
proof -
  have "sv_inv s" using assms(1) by (rule sv.reachable_inv)
  from sv.events_refine [OF this assms(4)] assms(2,3,5) show ?thesis
    by (auto dest!: sv_spec_sticky simp: sv_abs_def)
qed

theorem sv_exception_sticky_witness:
  "\<exists>s. run sv_exec sv_throw (sv_sys_new 2) = Some s \<and>
     events sv_exec sv_lin sv_set_wait s = [(0, SvSet 5, SvUnit), (1, SvWait, SvGot (WThrew 9))] \<and>
     list_all wait_threw (events sv_exec sv_lin sv_set_wait s)"
proof -
  have "map_option (\<lambda>s. (sv_exception s, sv_closed s, run sv_exec sv_set_wait s \<noteq> None,
      events sv_exec sv_lin sv_set_wait s)) (run sv_exec sv_throw (sv_sys_new 2)) =
      Some (Some 9, False, True, [(0, SvSet 5, SvUnit), (1, SvWait, SvGot (WThrew 9))])"
    by code_simp
  then obtain s s' where s: "run sv_exec sv_throw (sv_sys_new 2) = Some s" "sv_exception s = Some 9"
    "\<not> sv_closed s" "run sv_exec sv_set_wait s = Some s'"
    "events sv_exec sv_lin sv_set_wait s = [(0, SvSet 5, SvUnit), (1, SvWait, SvGot (WThrew 9))]"
    by auto
  have "reachable sv_init sv_exec s"
    by (rule run_reachable [OF reachable.start s(1)]) (auto simp: sv_init_def)
  from sv_exception_sticky [OF this _ s(3,4)] s(1,2,5) show ?thesis by simp
qed

text \<open>\<open>close\<close> stores the flag and notifies without the mutex: after this schedule \<open>close\<close> has returned,
  and the thread in \<open>wait\<close>, which had tested the predicate before, sleeps although the holder is
  closed.\<close>

theorem sv_close_misses_waiter:
  "\<exists>s. run sv_exec sv_missed_close (sv_sys_new 2) = Some s \<and> sv_closed s \<and>
     sv_pcs s = [SvDone SvUnit, WaitBlocked]"
proof -
  have "map_option (\<lambda>s. (sv_closed s, sv_pcs s)) (run sv_exec sv_missed_close (sv_sys_new 2)) =
      Some (True, [SvDone SvUnit, WaitBlocked])"
    by code_simp
  then show ?thesis by auto
qed

end
