(* ===== verification/BoundedBlockingQueue.thy ===== *)
theory BoundedBlockingQueue
  imports Prelude
begin

text \<open>
  \<^verbatim>\<open>include/miniruntime/task/boundedblockingqueue.h\<close>, class \<open>BoundedBlockingQueue\<close>.

  Two layers. The atomic layer (\<open>bbq\<close>, \<open>bbq_push\<close>, \<open>bbq_pop\<close>, \<open>bbq_timeoutPop\<close>, \<open>bbq_close\<close>,
  \<open>bbq_size\<close>) gives each method as one transition of the fields \<open>m_deque\<close>, \<open>m_dequeMaxSize\<close> and
  \<open>m_closed\<close>; it is the contract the logger and the thread pool use. The concurrent layer
  (\<open>bbq_sys\<close>, \<open>bbq_exec\<close>) runs the method bodies statement by statement for any number of threads,
  with the mutex, the two condition variables, spurious wake-ups and timeouts. A condition
  variable's waiters are the threads whose program counter is the blocked one. A blocking
  \<open>wait(lock, pred)\<close> is the loop the standard prescribes: test the predicate with the lock held,
  atomically release and block, reacquire, test again. The atomic \<open>m_closed\<close> is read and written
  without the lock where the source does so. Failure of an allocation is not modelled, nor are
  the exceptions of the element type.

  Proved: mutual exclusion, the capacity bound, that every run refines the atomic layer with
  each operation taking effect at one step between call and return and returning what the
  atomic operation returns, FIFO order, absence of missed notifications while the queue is
  open, and that \<open>close\<close> (which stores the flag without the lock) can leave a consumer asleep.
\<close>

section \<open>Atomic layer\<close>

record 'a bbq =
  m_deque :: "'a list"
  m_dequeMaxSize :: nat
  m_closed :: bool

definition bbq_new :: "nat \<Rightarrow> 'a bbq" where
  "bbq_new maxSize = \<lparr>m_deque = [], m_dequeMaxSize = maxSize, m_closed = False\<rparr>"

text \<open>The wait predicates of the two condition variables.\<close>

definition not_full_pred :: "('a, 'b) bbq_scheme \<Rightarrow> bool" where
  "not_full_pred q \<longleftrightarrow> length (m_deque q) < m_dequeMaxSize q \<or> m_closed q"

definition not_empty_pred :: "('a, 'b) bbq_scheme \<Rightarrow> bool" where
  "not_empty_pred q \<longleftrightarrow> m_deque q \<noteq> [] \<or> m_closed q"

text \<open>Operations as one transition; \<open>None\<close> where the caller has to wait.\<close>

definition bbq_emplace :: "'a \<Rightarrow> 'a bbq \<Rightarrow> (bool \<times> 'a bbq) option" where
  "bbq_emplace v q =
     (if \<not> not_full_pred q then None
      else if m_closed q then Some (False, q)
      else Some (True, q\<lparr>m_deque := m_deque q @ [v]\<rparr>))"

definition bbq_push :: "'a \<Rightarrow> 'a bbq \<Rightarrow> (bool \<times> 'a bbq) option" where
  "bbq_push v q = bbq_emplace v q"

definition bbq_pop :: "'a bbq \<Rightarrow> ('a option \<times> 'a bbq) option" where
  "bbq_pop q =
     (if \<not> not_empty_pred q then None
      else case m_deque q of
             [] \<Rightarrow> Some (None, q)
           | v # vs \<Rightarrow> Some (Some v, q\<lparr>m_deque := vs\<rparr>))"

text \<open>The timeout bounds the wait, so the call always ends: with nothing if it elapsed.\<close>

definition bbq_timeoutPop :: "'a bbq \<Rightarrow> 'a option \<times> 'a bbq" where
  "bbq_timeoutPop q =
     (if \<not> not_empty_pred q then (None, q)
      else case m_deque q of
             [] \<Rightarrow> (None, q)
           | v # vs \<Rightarrow> (Some v, q\<lparr>m_deque := vs\<rparr>))"

definition bbq_close :: "'a bbq \<Rightarrow> 'a bbq" where
  "bbq_close q = q\<lparr>m_closed := True\<rparr>"

definition bbq_size :: "'a bbq \<Rightarrow> nat" where
  "bbq_size q = length (m_deque q)"

datatype 'a bbq_op = OpPush 'a | OpPop | OpTimeoutPop | OpClose | OpSize

datatype 'a bbq_res = RBool bool | ROpt "'a option" | RUnit | RSize nat

fun bbq_apply :: "'a bbq_op \<Rightarrow> 'a bbq \<Rightarrow> ('a bbq_res \<times> 'a bbq) option" where
  "bbq_apply (OpPush v) q = map_option (map_prod RBool id) (bbq_push v q)"
| "bbq_apply OpPop q = map_option (map_prod ROpt id) (bbq_pop q)"
| "bbq_apply OpTimeoutPop q = Some (map_prod ROpt id (bbq_timeoutPop q))"
| "bbq_apply OpClose q = Some (RUnit, bbq_close q)"
| "bbq_apply OpSize q = Some (RSize (bbq_size q), q)"

text \<open>The atomic queue as the specification of a history: an event is an operation of a thread
  with the result it got.\<close>

type_synonym 'a bbq_event = "tid \<times> 'a bbq_op \<times> 'a bbq_res"

fun bbq_spec :: "'a bbq_event \<Rightarrow> 'a bbq \<Rightarrow> 'a bbq option" where
  "bbq_spec (t, oper, r) q =
     (case bbq_apply oper q of None \<Rightarrow> None | Some (r', q') \<Rightarrow> guarded (r' = r) q')"

fun pushed_by :: "'a bbq_event \<Rightarrow> 'a list" where
  "pushed_by (t, OpPush v, RBool True) = [v]"
| "pushed_by e = []"

fun popped_by :: "'a bbq_event \<Rightarrow> 'a list" where
  "popped_by (t, oper, ROpt (Some v)) = [v]"
| "popped_by e = []"

section \<open>Concurrent layer\<close>

text \<open>Where a thread is in each method. A constructor stands before the statement it names.\<close>

datatype 'a emplace_pc =
    ELock 'a      \<comment> \<open>acquire (or reacquire) the mutex\<close>
  | EPred 'a      \<comment> \<open>evaluate the predicate of \<open>m_notFullCv.wait\<close>\<close>
  | EWait 'a      \<comment> \<open>predicate false: release the mutex and block, atomically\<close>
  | EBlocked 'a   \<comment> \<open>waiting on \<open>m_notFullCv\<close>\<close>
  | EClosed 'a    \<comment> \<open>\<open>if (m_closed) return false\<close>\<close>
  | EFail         \<comment> \<open>unlock, then return false\<close>
  | EBack 'a      \<comment> \<open>\<open>m_deque.emplace_back\<close>\<close>
  | EUnlock       \<comment> \<open>end of the inner scope\<close>
  | ENotify       \<comment> \<open>\<open>m_notEmptyCv.notify_one()\<close>, return true\<close>

text \<open>The flag says whether the method is \<open>timeoutPop\<close>.\<close>

datatype 'a pop_pc =
    PLock bool
  | PPred bool
  | PWait bool
  | PBlocked bool
  | PTimedOut          \<comment> \<open>timeout elapsed: reacquire the mutex\<close>
  | PFinalPred         \<comment> \<open>the predicate's value is the result of \<open>wait_for\<close>\<close>
  | PEmpty bool        \<comment> \<open>test for the empty result\<close>
  | PFront bool        \<comment> \<open>move the front out and \<open>pop_front\<close>\<close>
  | PNotify 'a         \<comment> \<open>\<open>m_notFullCv.notify_one()\<close>, mutex still held\<close>
  | PUnlock "'a option"

datatype close_pc = CStore | CNotifyEmpty | CNotifyFull

datatype size_pc = SLock | SRead | SUnlock nat

datatype 'a bbq_pc =
    Done "'a bbq_res"
  | Emplace "'a emplace_pc"
  | Pop "'a pop_pc"
  | Close close_pc
  | Size size_pc

record 'a bbq_sys = "'a bbq" +
  m_mutex :: "tid option"
  pcs :: "'a bbq_pc list"

text \<open>Choices of the environment: a new call, the next statement, a spurious wake-up, an
  elapsed timeout, the waiter a notification wakes.\<close>

datatype 'a bbq_act = Call "'a bbq_op" | Step | Spurious | Timeout | Wake tid

definition bbq_sys_new :: "nat \<Rightarrow> nat \<Rightarrow> 'a bbq_sys" where
  "bbq_sys_new n maxSize =
     \<lparr>m_deque = [], m_dequeMaxSize = maxSize, m_closed = False, m_mutex = None,
      pcs = replicate n (Done RUnit)\<rparr>"

definition goto :: "tid \<Rightarrow> 'a bbq_pc \<Rightarrow> 'a bbq_sys \<Rightarrow> 'a bbq_sys" where
  "goto t p s = s\<lparr>pcs := (pcs s)[t := p]\<rparr>"

fun waits_not_empty :: "'a bbq_pc \<Rightarrow> bool" where
  "waits_not_empty (Pop (PBlocked k)) = True"
| "waits_not_empty _ = False"

fun waits_not_full :: "'a bbq_pc \<Rightarrow> bool" where
  "waits_not_full (Emplace (EBlocked v)) = True"
| "waits_not_full _ = False"

fun wake :: "'a bbq_pc \<Rightarrow> 'a bbq_pc" where
  "wake (Pop (PBlocked k)) = Pop (PLock k)"
| "wake (Emplace (EBlocked v)) = Emplace (ELock v)"
| "wake p = p"

text \<open>\<open>notify_one\<close> wakes one waiter of the condition variable, if there is one.\<close>

fun notify_one :: "('a bbq_pc \<Rightarrow> bool) \<Rightarrow> 'a bbq_act \<Rightarrow> 'a bbq_sys \<Rightarrow> 'a bbq_sys option" where
  "notify_one waits (Wake w) s =
     guarded (w < length (pcs s) \<and> waits (pcs s ! w)) (goto w (wake (pcs s ! w)) s)"
| "notify_one waits Step s = guarded (\<not> list_ex waits (pcs s)) s"
| "notify_one waits _ s = None"

definition notify_all :: "('a bbq_pc \<Rightarrow> bool) \<Rightarrow> 'a bbq_sys \<Rightarrow> 'a bbq_sys" where
  "notify_all waits s = s\<lparr>pcs := map (\<lambda>p. if waits p then wake p else p) (pcs s)\<rparr>"

fun bbq_call :: "'a bbq_op \<Rightarrow> 'a bbq_pc" where
  "bbq_call (OpPush v) = Emplace (ELock v)"
| "bbq_call OpPop = Pop (PLock False)"
| "bbq_call OpTimeoutPop = Pop (PLock True)"
| "bbq_call OpClose = Close CStore"
| "bbq_call OpSize = Size SLock"

fun emplace_step :: "tid \<Rightarrow> 'a bbq_act \<Rightarrow> 'a emplace_pc \<Rightarrow> 'a bbq_sys \<Rightarrow> 'a bbq_sys option" where
  "emplace_step t a (ELock v) s =
     guarded (a = Step \<and> m_mutex s = None) (goto t (Emplace (EPred v)) (s\<lparr>m_mutex := Some t\<rparr>))"
| "emplace_step t a (EPred v) s =
     guarded (a = Step) (goto t (Emplace (if not_full_pred s then EClosed v else EWait v)) s)"
| "emplace_step t a (EWait v) s =
     guarded (a = Step) (goto t (Emplace (EBlocked v)) (s\<lparr>m_mutex := None\<rparr>))"
| "emplace_step t a (EBlocked v) s = guarded (a = Spurious) (goto t (Emplace (ELock v)) s)"
| "emplace_step t a (EClosed v) s =
     guarded (a = Step) (goto t (Emplace (if m_closed s then EFail else EBack v)) s)"
| "emplace_step t a EFail s =
     guarded (a = Step) (goto t (Done (RBool False)) (s\<lparr>m_mutex := None\<rparr>))"
| "emplace_step t a (EBack v) s =
     guarded (a = Step) (goto t (Emplace EUnlock) (s\<lparr>m_deque := m_deque s @ [v]\<rparr>))"
| "emplace_step t a EUnlock s =
     guarded (a = Step) (goto t (Emplace ENotify) (s\<lparr>m_mutex := None\<rparr>))"
| "emplace_step t a ENotify s =
     map_option (goto t (Done (RBool True))) (notify_one waits_not_empty a s)"

fun pop_step :: "tid \<Rightarrow> 'a bbq_act \<Rightarrow> 'a pop_pc \<Rightarrow> 'a bbq_sys \<Rightarrow> 'a bbq_sys option" where
  "pop_step t a (PLock k) s =
     guarded (a = Step \<and> m_mutex s = None) (goto t (Pop (PPred k)) (s\<lparr>m_mutex := Some t\<rparr>))"
| "pop_step t a (PPred k) s =
     guarded (a = Step) (goto t (Pop (if not_empty_pred s then PEmpty k else PWait k)) s)"
| "pop_step t a (PWait k) s =
     guarded (a = Step) (goto t (Pop (PBlocked k)) (s\<lparr>m_mutex := None\<rparr>))"
| "pop_step t a (PBlocked k) s =
     (case a of
        Spurious \<Rightarrow> Some (goto t (Pop (PLock k)) s)
      | Timeout \<Rightarrow> guarded k (goto t (Pop PTimedOut) s)
      | _ \<Rightarrow> None)"
| "pop_step t a PTimedOut s =
     guarded (a = Step \<and> m_mutex s = None) (goto t (Pop PFinalPred) (s\<lparr>m_mutex := Some t\<rparr>))"
| "pop_step t a PFinalPred s =
     guarded (a = Step) (goto t (Pop (if not_empty_pred s then PEmpty True else PUnlock None)) s)"
| "pop_step t a (PEmpty k) s =
     guarded (a = Step)
       (goto t (Pop (if m_deque s = [] \<and> (k \<or> m_closed s) then PUnlock None else PFront k)) s)"
| "pop_step t a (PFront k) s =
     (case m_deque s of
        [] \<Rightarrow> None
      | v # vs \<Rightarrow> guarded (a = Step) (goto t (Pop (PNotify v)) (s\<lparr>m_deque := vs\<rparr>)))"
| "pop_step t a (PNotify v) s =
     map_option (goto t (Pop (PUnlock (Some v)))) (notify_one waits_not_full a s)"
| "pop_step t a (PUnlock r) s =
     guarded (a = Step) (goto t (Done (ROpt r)) (s\<lparr>m_mutex := None\<rparr>))"

fun close_step :: "tid \<Rightarrow> 'a bbq_act \<Rightarrow> close_pc \<Rightarrow> 'a bbq_sys \<Rightarrow> 'a bbq_sys option" where
  "close_step t a CStore s = guarded (a = Step) (goto t (Close CNotifyEmpty) (s\<lparr>m_closed := True\<rparr>))"
| "close_step t a CNotifyEmpty s =
     guarded (a = Step) (goto t (Close CNotifyFull) (notify_all waits_not_empty s))"
| "close_step t a CNotifyFull s =
     guarded (a = Step) (goto t (Done RUnit) (notify_all waits_not_full s))"

fun size_step :: "tid \<Rightarrow> 'a bbq_act \<Rightarrow> size_pc \<Rightarrow> 'a bbq_sys \<Rightarrow> 'a bbq_sys option" where
  "size_step t a SLock s =
     guarded (a = Step \<and> m_mutex s = None) (goto t (Size SRead) (s\<lparr>m_mutex := Some t\<rparr>))"
| "size_step t a SRead s = guarded (a = Step) (goto t (Size (SUnlock (length (m_deque s)))) s)"
| "size_step t a (SUnlock n) s =
     guarded (a = Step) (goto t (Done (RSize n)) (s\<lparr>m_mutex := None\<rparr>))"

text \<open>One action of thread \<open>t\<close>.\<close>

fun bbq_exec :: "tid \<times> 'a bbq_act \<Rightarrow> 'a bbq_sys \<Rightarrow> 'a bbq_sys option" where
  "bbq_exec (t, a) s =
     (if t < length (pcs s) then
        (case pcs s ! t of
           Done r \<Rightarrow> (case a of Call oper \<Rightarrow> Some (goto t (bbq_call oper) s) | _ \<Rightarrow> None)
         | Emplace p \<Rightarrow> emplace_step t a p s
         | Pop p \<Rightarrow> pop_step t a p s
         | Close p \<Rightarrow> close_step t a p s
         | Size p \<Rightarrow> size_step t a p s)
      else None)"

definition bbq_init :: "'a bbq_sys \<Rightarrow> bool" where
  "bbq_init s \<longleftrightarrow> (\<exists>n maxSize. s = bbq_sys_new n maxSize)"

section \<open>Invariants and abstraction\<close>

text \<open>Program counters that hold the mutex.\<close>

fun holds_mutex :: "'a bbq_pc \<Rightarrow> bool" where
  "holds_mutex (Emplace p) = (case p of
     EPred v \<Rightarrow> True | EWait v \<Rightarrow> True | EClosed v \<Rightarrow> True | EFail \<Rightarrow> True | EBack v \<Rightarrow> True
   | EUnlock \<Rightarrow> True | _ \<Rightarrow> False)"
| "holds_mutex (Pop p) = (case p of
     PPred k \<Rightarrow> True | PWait k \<Rightarrow> True | PFinalPred \<Rightarrow> True | PEmpty k \<Rightarrow> True | PFront k \<Rightarrow> True
   | PNotify v \<Rightarrow> True | PUnlock r \<Rightarrow> True | _ \<Rightarrow> False)"
| "holds_mutex (Size p) = (case p of SLock \<Rightarrow> False | _ \<Rightarrow> True)"
| "holds_mutex _ = False"

definition mutex_inv :: "'a bbq_sys \<Rightarrow> bool" where
  "mutex_inv s \<longleftrightarrow> (\<forall>t < length (pcs s). holds_mutex (pcs s ! t) \<longleftrightarrow> m_mutex s = Some t) \<and>
     (\<forall>t. m_mutex s = Some t \<longrightarrow> t < length (pcs s))"

text \<open>What a thread in the critical section knows of the queue.\<close>

fun local_fact :: "'a bbq_sys \<Rightarrow> 'a bbq_pc \<Rightarrow> bool" where
  "local_fact s (Emplace (EWait v)) = (m_dequeMaxSize s \<le> length (m_deque s))"
| "local_fact s (Emplace (EClosed v)) = (length (m_deque s) < m_dequeMaxSize s \<or> m_closed s)"
| "local_fact s (Emplace EFail) = m_closed s"
| "local_fact s (Emplace (EBack v)) = (length (m_deque s) < m_dequeMaxSize s)"
| "local_fact s (Pop (PWait k)) = (m_deque s = [])"
| "local_fact s (Pop (PEmpty k)) = (m_deque s \<noteq> [] \<or> m_closed s)"
| "local_fact s (Pop (PFront k)) = (m_deque s \<noteq> [])"
| "local_fact s _ = True"

definition data_inv :: "'a bbq_sys \<Rightarrow> bool" where
  "data_inv s \<longleftrightarrow> length (m_deque s) \<le> m_dequeMaxSize s \<and>
     (\<forall>t < length (pcs s). local_fact s (pcs s ! t))"

definition bbq_inv :: "'a bbq_sys \<Rightarrow> bool" where
  "bbq_inv s \<longleftrightarrow> mutex_inv s \<and> data_inv s"

text \<open>Threads that will look for an element, or owe a notification to those who wait for one;
  and the same for free slots.\<close>

fun signals_element :: "'a bbq_pc \<Rightarrow> bool" where
  "signals_element (Pop p) = (case p of
     PLock k \<Rightarrow> True | PPred k \<Rightarrow> True | PTimedOut \<Rightarrow> True | PFinalPred \<Rightarrow> True | PEmpty k \<Rightarrow> True
   | PFront k \<Rightarrow> True | _ \<Rightarrow> False)"
| "signals_element (Emplace p) = (case p of EUnlock \<Rightarrow> True | ENotify \<Rightarrow> True | _ \<Rightarrow> False)"
| "signals_element _ = False"

fun signals_slot :: "'a bbq_pc \<Rightarrow> bool" where
  "signals_slot (Emplace p) = (case p of
     ELock v \<Rightarrow> True | EPred v \<Rightarrow> True | EClosed v \<Rightarrow> True | EBack v \<Rightarrow> True | _ \<Rightarrow> False)"
| "signals_slot (Pop p) = (case p of PNotify v \<Rightarrow> True | _ \<Rightarrow> False)"
| "signals_slot _ = False"

definition signal_inv :: "'a bbq_sys \<Rightarrow> bool" where
  "signal_inv s \<longleftrightarrow>
     (0 < cnt waits_not_empty (pcs s) \<longrightarrow> length (m_deque s) \<le> cnt signals_element (pcs s)) \<and>
     (\<not> m_closed s \<longrightarrow> 0 < cnt waits_not_full (pcs s) \<longrightarrow>
        m_dequeMaxSize s \<le> length (m_deque s) + cnt signals_slot (pcs s))"

text \<open>The atomic queue a concurrent state stands for. A push that has seen the queue open has
  taken effect, though its element reaches \<open>m_deque\<close> one statement later, still under the lock.\<close>

fun pending_of :: "'a bbq_pc \<Rightarrow> 'a list" where
  "pending_of (Emplace (EBack v)) = [v]"
| "pending_of _ = []"

definition pending :: "'a bbq_sys \<Rightarrow> 'a list" where
  "pending s = (case m_mutex s of None \<Rightarrow> [] | Some t \<Rightarrow> pending_of (pcs s ! t))"

definition bbq_abs :: "'a bbq_sys \<Rightarrow> 'a bbq" where
  "bbq_abs s = \<lparr>m_deque = m_deque s @ pending s, m_dequeMaxSize = m_dequeMaxSize s,
                m_closed = m_closed s\<rparr>"

text \<open>The step at which an operation takes effect, with its result.\<close>

fun bbq_lin :: "tid \<times> 'a bbq_act \<Rightarrow> 'a bbq_sys \<Rightarrow> 'a bbq_event option" where
  "bbq_lin (t, a) s = (case pcs s ! t of
     Emplace (EClosed v) \<Rightarrow> Some (t, OpPush v, RBool (\<not> m_closed s))
   | Pop PFinalPred \<Rightarrow> if not_empty_pred s then None else Some (t, OpTimeoutPop, ROpt None)
   | Pop (PEmpty k) \<Rightarrow>
       if m_deque s = [] \<and> (k \<or> m_closed s)
       then Some (t, (if k then OpTimeoutPop else OpPop), ROpt None) else None
   | Pop (PFront k) \<Rightarrow>
       Some (t, (if k then OpTimeoutPop else OpPop), ROpt (Some (hd (m_deque s))))
   | Close CStore \<Rightarrow> Some (t, OpClose, RUnit)
   | Size SRead \<Rightarrow> Some (t, OpSize, RSize (length (m_deque s)))
   | _ \<Rightarrow> None)"

text \<open>The result an operation is bound to return once it has taken effect.\<close>

fun committed :: "'a bbq_pc \<Rightarrow> 'a bbq_res option" where
  "committed (Done r) = Some r"
| "committed (Emplace p) = (case p of
     EFail \<Rightarrow> Some (RBool False) | EBack v \<Rightarrow> Some (RBool True) | EUnlock \<Rightarrow> Some (RBool True)
   | ENotify \<Rightarrow> Some (RBool True) | _ \<Rightarrow> None)"
| "committed (Pop p) = (case p of
     PNotify v \<Rightarrow> Some (ROpt (Some v)) | PUnlock r \<Rightarrow> Some (ROpt r) | _ \<Rightarrow> None)"
| "committed (Close p) = (case p of CStore \<Rightarrow> None | _ \<Rightarrow> Some RUnit)"
| "committed (Size p) = (case p of SUnlock n \<Rightarrow> Some (RSize n) | _ \<Rightarrow> None)"

text \<open>The operation a thread has called and that has not taken effect yet.\<close>

fun requested :: "'a bbq_pc \<Rightarrow> 'a bbq_op option" where
  "requested (Emplace p) = (case p of
     ELock v \<Rightarrow> Some (OpPush v) | EPred v \<Rightarrow> Some (OpPush v) | EWait v \<Rightarrow> Some (OpPush v) | EBlocked v \<Rightarrow> Some (OpPush v)
   | EClosed v \<Rightarrow> Some (OpPush v) | _ \<Rightarrow> None)"
| "requested (Pop p) = (case p of
     PLock k \<Rightarrow> Some (if k then OpTimeoutPop else OpPop) | PPred k \<Rightarrow> Some (if k then OpTimeoutPop else OpPop)
   | PWait k \<Rightarrow> Some (if k then OpTimeoutPop else OpPop) | PBlocked k \<Rightarrow> Some (if k then OpTimeoutPop else OpPop)
   | PTimedOut \<Rightarrow> Some OpTimeoutPop | PFinalPred \<Rightarrow> Some OpTimeoutPop
   | PEmpty k \<Rightarrow> Some (if k then OpTimeoutPop else OpPop) | PFront k \<Rightarrow> Some (if k then OpTimeoutPop else OpPop)
   | _ \<Rightarrow> None)"
| "requested (Close CStore) = Some OpClose"
| "requested (Size p) = (case p of SUnlock n \<Rightarrow> None | _ \<Rightarrow> Some OpSize)"
| "requested _ = None"

definition bbq_requested :: "'a bbq_sys \<Rightarrow> tid \<Rightarrow> 'a bbq_op option" where
  "bbq_requested s t = (if t < length (pcs s) then requested (pcs s ! t) else None)"

definition bbq_committed :: "'a bbq_sys \<Rightarrow> tid \<Rightarrow> 'a bbq_res option" where
  "bbq_committed s t = (if t < length (pcs s) then committed (pcs s ! t) else None)"

text \<open>A state in which no thread can move unless a new call, a spurious wake-up or a timeout
  comes from outside.\<close>

fun at_rest :: "'a bbq_pc \<Rightarrow> bool" where
  "at_rest (Done r) = True"
| "at_rest (Pop (PBlocked k)) = True"
| "at_rest (Emplace (EBlocked v)) = True"
| "at_rest _ = False"

definition quiescent :: "'a bbq_sys \<Rightarrow> bool" where
  "quiescent s \<longleftrightarrow> list_all at_rest (pcs s)"

text \<open>Actions that need nothing from outside the queue.\<close>

definition internal :: "'a bbq_act \<Rightarrow> bool" where
  "internal a \<longleftrightarrow> a = Step \<or> (\<exists>w. a = Wake w)"

definition bbq_full_inv :: "'a bbq_sys \<Rightarrow> bool" where
  "bbq_full_inv s \<longleftrightarrow> bbq_inv s \<and> signal_inv s"

text \<open>One concrete step against the atomic layer.\<close>

abbreviation refines_atomically :: "tid \<times> 'a bbq_act \<Rightarrow> 'a bbq_sys \<Rightarrow> 'a bbq_sys \<Rightarrow> bool" where
  "refines_atomically a s s' \<equiv> (case bbq_lin a s of
     None \<Rightarrow> bbq_abs s' = bbq_abs s
   | Some e \<Rightarrow> bbq_spec e (bbq_abs s) = Some (bbq_abs s'))"

text \<open>Schedules for two threads: one pushes and the other pops; a consumer that is about to block
  while another thread closes the queue; a closed queue and a late producer; a consumer asleep on
  an empty queue.\<close>

definition push_pop_schedule :: "(tid \<times> nat bbq_act) list" where
  "push_pop_schedule =
     (0, Call (OpPush 7)) # replicate 6 (0, Step) @ (1, Call OpPop) # replicate 6 (1, Step)"

definition close_race_schedule :: "(tid \<times> nat bbq_act) list" where
  "close_race_schedule =
     [(0, Call OpPop), (0, Step), (0, Step),
      (1, Call OpClose), (1, Step), (1, Step), (1, Step),
      (0, Step)]"

definition push_closed_schedule :: "(tid \<times> nat bbq_act) list" where
  "push_closed_schedule = (0, Call (OpPush 7)) # replicate 4 (0, Step)"

definition sleeping_consumer :: "nat bbq_sys" where
  "sleeping_consumer =
     \<lparr>m_deque = [], m_dequeMaxSize = 1, m_closed = False, m_mutex = None,
      pcs = [Pop (PBlocked False), Done RUnit]\<rparr>"

definition closed_queue :: "nat bbq_sys" where
  "closed_queue = (bbq_sys_new 2 1)\<lparr>m_closed := True\<rparr>"

section \<open>Invariants of the concurrent layer\<close>

subsection \<open>Mutual exclusion\<close>

lemma length_pcs_goto [simp]: "length (pcs (goto t p s)) = length (pcs s)"
  by (simp add: goto_def)

lemma goto_simps [simp]:
  "m_deque (goto t p s) = m_deque s" "m_dequeMaxSize (goto t p s) = m_dequeMaxSize s"
  "m_closed (goto t p s) = m_closed s" "m_mutex (goto t p s) = m_mutex s"
  "pcs (goto t p s) = (pcs s)[t := p]"
  by (simp_all add: goto_def)

lemma notify_all_simps [simp]:
  "m_deque (notify_all w s) = m_deque s" "m_dequeMaxSize (notify_all w s) = m_dequeMaxSize s"
  "m_closed (notify_all w s) = m_closed s" "m_mutex (notify_all w s) = m_mutex s"
  "pcs (notify_all w s) = map (\<lambda>p. if w p then wake p else p) (pcs s)"
  by (simp_all add: notify_all_def)

lemma notify_one_SomeD:
  "notify_one waits a s = Some s' \<Longrightarrow>
     (\<exists>w. a = Wake w \<and> w < length (pcs s) \<and> waits (pcs s ! w) \<and> s' = goto w (wake (pcs s ! w)) s) \<or>
     (a = Step \<and> (\<forall>p \<in> set (pcs s). \<not> waits p) \<and> s' = s)"
  by (cases a) (auto simp: list_ex_iff)

lemma holds_mutex_wake [simp]: "holds_mutex (wake p) = holds_mutex p"
  by (cases p rule: wake.cases) auto

lemma mutex_inv_owner:
  "mutex_inv s \<Longrightarrow> t < length (pcs s) \<Longrightarrow> holds_mutex (pcs s ! t) \<longleftrightarrow> m_mutex s = Some t"
  by (simp add: mutex_inv_def)

lemma mutex_inv_goto:
  assumes "mutex_inv s" "t < length (pcs s)" "pcs s' = pcs s"
    and "m_mutex s' = (if holds_mutex p then Some t else if holds_mutex (pcs s ! t) then None else m_mutex s)"
    and "holds_mutex p \<Longrightarrow> m_mutex s = None \<or> m_mutex s = Some t"
  shows "mutex_inv (goto t p s')"
  using assms by (auto simp: mutex_inv_def nth_list_update split: if_splits)

lemma mutex_inv_notify_one: "mutex_inv s \<Longrightarrow> notify_one waits a s = Some s' \<Longrightarrow> mutex_inv s'"
  by (auto dest!: notify_one_SomeD intro!: mutex_inv_goto simp: mutex_inv_owner)

lemma mutex_inv_notify_all: "mutex_inv s \<Longrightarrow> mutex_inv (notify_all waits s)"
  by (auto simp: mutex_inv_def)

lemma notify_one_frame:
  assumes "notify_one waits a s = Some s'"
  shows "length (pcs s') = length (pcs s)" "m_mutex s' = m_mutex s" "m_deque s' = m_deque s"
    "m_closed s' = m_closed s" "m_dequeMaxSize s' = m_dequeMaxSize s"
    "t < length (pcs s) \<Longrightarrow> \<not> waits (pcs s ! t) \<Longrightarrow> pcs s' ! t = pcs s ! t"
  using notify_one_SomeD [OF assms] by (auto simp: nth_list_update)

lemma mutex_inv_notify_goto:
  assumes "mutex_inv s" "t < length (pcs s)" "notify_one waits a s = Some s'"
    and "\<not> waits (pcs s ! t)" "holds_mutex p = holds_mutex (pcs s ! t)"
  shows "mutex_inv (goto t p s')"
  using assms mutex_inv_owner [OF assms(1,2)]
  by (intro mutex_inv_goto [OF mutex_inv_notify_one [OF assms(1,3)]])
    (auto simp: notify_one_frame [OF assms(3)])

lemma mutex_inv_notify_all_goto:
  assumes "mutex_inv s" "t < length (pcs s)" "\<not> waits (pcs s ! t)" "holds_mutex p = holds_mutex (pcs s ! t)"
  shows "mutex_inv (goto t p (notify_all waits s))"
  using assms mutex_inv_owner [OF assms(1,2)]
  by (intro mutex_inv_goto [OF mutex_inv_notify_all [OF assms(1), of waits]]) auto

lemmas mutex_inv_intros = mutex_inv_goto mutex_inv_notify_goto mutex_inv_notify_all_goto

lemma mutex_inv_emplace:
  assumes "mutex_inv s" "t < length (pcs s)" "pcs s ! t = Emplace p" "emplace_step t a p s = Some s'"
  shows "mutex_inv s'"
  using assms mutex_inv_owner [OF assms(1,2)]
  by (cases p) (auto intro: mutex_inv_intros [of s])

lemma mutex_inv_pop:
  assumes "mutex_inv s" "t < length (pcs s)" "pcs s ! t = Pop p" "pop_step t a p s = Some s'"
  shows "mutex_inv s'"
  using assms mutex_inv_owner [OF assms(1,2)]
  by (cases p) (auto split: list.splits bbq_act.splits intro: mutex_inv_intros [of s])

lemma mutex_inv_close:
  assumes "mutex_inv s" "t < length (pcs s)" "pcs s ! t = Close p" "close_step t a p s = Some s'"
  shows "mutex_inv s'"
  using assms  mutex_inv_owner [OF assms(1,2)]
  by (cases p) (auto intro: mutex_inv_intros [of s])

lemma mutex_inv_size:
  assumes "mutex_inv s" "t < length (pcs s)" "pcs s ! t = Size p" "size_step t a p s = Some s'"
  shows "mutex_inv s'"
  using assms mutex_inv_owner [OF assms(1,2)]
  by (cases p) (auto intro: mutex_inv_intros [of s])

lemma holds_mutex_call [simp]: "\<not> holds_mutex (bbq_call oper)"
  by (cases oper) auto

lemma mutex_inv_exec:
  assumes "mutex_inv s" "bbq_exec (t, a) s = Some s'"
  shows "mutex_inv s'"
proof (cases "pcs s ! t")
  case (Done r)
  with assms mutex_inv_owner [OF assms(1), of t] show ?thesis
    by (auto split: if_splits bbq_act.splits intro!: mutex_inv_goto [of s])
qed (use assms in \<open>auto split: if_splits intro: mutex_inv_emplace mutex_inv_pop
  mutex_inv_close mutex_inv_size\<close>)

subsection \<open>Capacity\<close>

lemma local_fact_free: "\<not> holds_mutex p \<Longrightarrow> local_fact s p"
  by (cases "(s, p)" rule: local_fact.cases) auto

lemma local_fact_cong:
  "m_deque s' = m_deque s \<Longrightarrow> m_dequeMaxSize s' = m_dequeMaxSize s \<Longrightarrow> m_closed s \<longrightarrow> m_closed s' \<Longrightarrow>
     local_fact s p \<Longrightarrow> local_fact s' p"
  by (cases "(s, p)" rule: local_fact.cases) auto

lemma local_fact_frame [simp]:
  "local_fact (goto t p' s) p = local_fact s p" "local_fact (notify_all waits s) p = local_fact s p"
  by (cases "(s, p)" rule: local_fact.cases; simp)+

lemma waits_not_holds: "waits_not_empty p \<Longrightarrow> \<not> holds_mutex p" "waits_not_full p \<Longrightarrow> \<not> holds_mutex p"
  by (cases p rule: waits_not_empty.cases; simp) (cases p rule: waits_not_full.cases; simp)

lemma data_inv_notify_one:
  "data_inv s \<Longrightarrow> notify_one waits a s = Some s' \<Longrightarrow> (\<And>p. waits p \<Longrightarrow> \<not> holds_mutex p) \<Longrightarrow> data_inv s'"
  by (auto simp: data_inv_def nth_list_update local_fact_free dest!: notify_one_SomeD)

lemma data_inv_notify_all:
  "data_inv s \<Longrightarrow> (\<And>p. waits p \<Longrightarrow> \<not> holds_mutex p) \<Longrightarrow> data_inv (notify_all waits s)"
  by (auto simp: data_inv_def local_fact_free)

text \<open>A step that leaves the deque alone needs only its own fact; one that changes it holds the
  mutex, so the other threads assert nothing.\<close>

lemma data_inv_goto:
  assumes "data_inv s" "mutex_inv s" "t < length (pcs s)" "pcs s' = pcs s"
    and "m_dequeMaxSize s' = m_dequeMaxSize s" "m_closed s \<longrightarrow> m_closed s'"
    and "m_deque s' = m_deque s \<or> holds_mutex (pcs s ! t)"
    and "length (m_deque s') \<le> m_dequeMaxSize s" "local_fact s' p"
  shows "data_inv (goto t p s')"
proof -
  have "local_fact s' (pcs s ! u)" if "u < length (pcs s)" "u \<noteq> t" for u
    using that assms local_fact_cong [of s' s] local_fact_free [of "pcs s ! u"]
    by (auto simp: data_inv_def mutex_inv_def)
  then have "local_fact s' (((pcs s)[t := p]) ! u)" if "u < length (pcs s)" for u
    using that assms by (cases "u = t") auto
  then show ?thesis
    using assms local_fact_cong [of "goto t p s'" s'] by (auto simp: data_inv_def)
qed

lemma data_inv_notify_goto:
  assumes "data_inv s" "mutex_inv s" "t < length (pcs s)" "notify_one waits a s = Some s'"
    and "\<And>p. waits p \<Longrightarrow> \<not> holds_mutex p" "\<And>s. local_fact s p"
  shows "data_inv (goto t p s')"
  using data_inv_notify_one [OF assms(1,4,5)] mutex_inv_notify_one [OF assms(2,4)] assms
  by (intro data_inv_goto [of s']) (auto simp: notify_one_frame [OF assms(4)] data_inv_def)

lemma data_inv_notify_all_goto:
  assumes "data_inv s" "mutex_inv s" "t < length (pcs s)"
    and "\<And>p. waits p \<Longrightarrow> \<not> holds_mutex p" "\<And>s. local_fact s p"
  shows "data_inv (goto t p (notify_all waits s))"
  using data_inv_notify_all [OF assms(1,4)] mutex_inv_notify_all [OF assms(2)] assms
  by (intro data_inv_goto [of "notify_all waits s"]) (auto simp: data_inv_def)

lemmas data_inv_intros = data_inv_goto data_inv_notify_goto data_inv_notify_all_goto

lemma data_inv_at: "data_inv s \<Longrightarrow> t < length (pcs s) \<Longrightarrow> local_fact s (pcs s ! t)"
  by (simp add: data_inv_def)

lemma data_inv_bound: "data_inv s \<Longrightarrow> length (m_deque s) \<le> m_dequeMaxSize s"
  by (simp add: data_inv_def)

lemma data_inv_emplace:
  assumes "data_inv s" "mutex_inv s" "t < length (pcs s)" "pcs s ! t = Emplace p" "emplace_step t a p s = Some s'"
  shows "data_inv s'"
  using assms data_inv_at [OF assms(1,3)] data_inv_bound [OF assms(1)]
  by (cases p) (auto simp: not_full_pred_def dest: waits_not_holds intro: data_inv_intros [of s])

lemma data_inv_pop:
  assumes "data_inv s" "mutex_inv s" "t < length (pcs s)" "pcs s ! t = Pop p" "pop_step t a p s = Some s'"
  shows "data_inv s'"
  using assms data_inv_at [OF assms(1,3)] data_inv_bound [OF assms(1)]
  by (cases p) (auto simp: not_empty_pred_def split: list.splits bbq_act.splits dest: waits_not_holds intro: data_inv_intros [of s])

lemma data_inv_close:
  assumes "data_inv s" "mutex_inv s" "t < length (pcs s)" "pcs s ! t = Close p" "close_step t a p s = Some s'"
  shows "data_inv s'"
  using assms data_inv_bound [OF assms(1)]
  by (cases p) (auto dest: waits_not_holds intro: data_inv_intros [of s])

lemma data_inv_size:
  assumes "data_inv s" "mutex_inv s" "t < length (pcs s)" "pcs s ! t = Size p" "size_step t a p s = Some s'"
  shows "data_inv s'"
  using assms data_inv_bound [OF assms(1)]
  by (cases p) (auto intro!: data_inv_goto [of s])

lemma local_fact_call [simp]: "local_fact s (bbq_call oper)"
  by (rule local_fact_free) simp

lemma data_inv_exec:
  assumes "data_inv s" "mutex_inv s" "bbq_exec (t, a) s = Some s'"
  shows "data_inv s'"
proof (cases "pcs s ! t")
  case (Done r)
  with assms data_inv_bound [OF assms(1)] show ?thesis
    by (auto split: if_splits bbq_act.splits intro!: data_inv_goto [of s])
qed (use assms in \<open>auto split: if_splits intro: data_inv_emplace data_inv_pop
  data_inv_close data_inv_size\<close>)

lemma bbq_inv_init: "bbq_init s \<Longrightarrow> bbq_inv s"
  by (auto simp: bbq_init_def bbq_inv_def mutex_inv_def data_inv_def bbq_sys_new_def)

lemma bbq_inv_exec: "bbq_inv s \<Longrightarrow> bbq_exec a s = Some s' \<Longrightarrow> bbq_inv s'"
  unfolding bbq_inv_def by (cases a) (blast intro: mutex_inv_exec data_inv_exec)

subsection \<open>No missed notification\<close>

lemma waits_not_emptyE: "waits_not_empty p \<Longrightarrow> \<exists>k. p = Pop (PBlocked k)"
  by (cases p rule: waits_not_empty.cases) auto

lemma waits_not_fullE: "waits_not_full p \<Longrightarrow> \<exists>v. p = Emplace (EBlocked v)"
  by (cases p rule: waits_not_full.cases) auto

lemma wake_waits [simp]: "\<not> waits_not_empty (wake p)" "\<not> waits_not_full (wake p)"
  by (cases p rule: wake.cases; simp)+

lemma cnt_wake:
  assumes "\<And>p. waits p \<Longrightarrow> P (wake p) = P p"
  shows "cnt P (map (\<lambda>p. if waits p then wake p else p) ps) = cnt P ps"
  using assms by (induction ps) auto

text \<open>A notification moves one waiter, if there is one, to the threads that will look again.\<close>

lemma notify_not_empty_cnt:
  assumes "notify_one waits_not_empty a s = Some s'"
  shows "cnt waits_not_empty (pcs s) = 0 \<and> s' = s \<or>
      0 < cnt waits_not_empty (pcs s) \<and>
      cnt waits_not_empty (pcs s') = cnt waits_not_empty (pcs s) - 1 \<and>
      cnt signals_element (pcs s') = Suc (cnt signals_element (pcs s)) \<and>
      cnt waits_not_full (pcs s') = cnt waits_not_full (pcs s) \<and>
      cnt signals_slot (pcs s') = cnt signals_slot (pcs s)"
  using notify_one_SomeD [OF assms]
proof (elim disjE exE)
  fix w
  assume w: "a = Wake w \<and> w < length (pcs s) \<and> waits_not_empty (pcs s ! w) \<and> s' = goto w (wake (pcs s ! w)) s"
  with cnt_pos [of w "pcs s" waits_not_empty] show ?thesis
    by (auto simp: cnt_update dest!: waits_not_emptyE)
qed (simp add: cnt_zero_iff)

lemma notify_not_full_cnt:
  assumes "notify_one waits_not_full a s = Some s'"
  shows "cnt waits_not_full (pcs s) = 0 \<and> s' = s \<or>
      0 < cnt waits_not_full (pcs s) \<and>
      cnt waits_not_full (pcs s') = cnt waits_not_full (pcs s) - 1 \<and>
      cnt signals_slot (pcs s') = Suc (cnt signals_slot (pcs s)) \<and>
      cnt waits_not_empty (pcs s') = cnt waits_not_empty (pcs s) \<and>
      cnt signals_element (pcs s') = cnt signals_element (pcs s)"
  using notify_one_SomeD [OF assms]
proof (elim disjE exE)
  fix w
  assume w: "a = Wake w \<and> w < length (pcs s) \<and> waits_not_full (pcs s ! w) \<and> s' = goto w (wake (pcs s ! w)) s"
  with cnt_pos [of w "pcs s" waits_not_full] show ?thesis
    by (auto simp: cnt_update dest!: waits_not_fullE)
qed (simp add: cnt_zero_iff)

lemma signal_inv_emplace_notify:
  assumes "signal_inv s" "t < length (pcs s)" "pcs s ! t = Emplace ENotify"
    and "notify_one waits_not_empty a s = Some s1"
  shows "signal_inv (goto t (Done r) s1)"
  using assms(1-3) cnt_pos [OF assms(2), of signals_element] notify_not_empty_cnt [OF assms(4)]
    notify_one_frame [OF assms(4)]
  by (auto simp: signal_inv_def cnt_update)

lemma signal_inv_pop_notify:
  assumes "signal_inv s" "t < length (pcs s)" "pcs s ! t = Pop (PNotify v)"
    and "notify_one waits_not_full a s = Some s1"
  shows "signal_inv (goto t (Pop (PUnlock r)) s1)"
  using assms(1-3) cnt_pos [OF assms(2), of signals_slot] notify_not_full_cnt [OF assms(4)]
    notify_one_frame [OF assms(4)]
  by (auto simp: signal_inv_def cnt_update)

lemma signal_inv_emplace:
  assumes "signal_inv s" "data_inv s" "t < length (pcs s)" "pcs s ! t = Emplace p"
    and "emplace_step t a p s = Some s'"
  shows "signal_inv s'"
proof (cases "p = ENotify")
  case True
  with assms show ?thesis by (auto intro: signal_inv_emplace_notify)
next
  case False
  with assms data_inv_at [OF assms(2,3)] data_inv_bound [OF assms(2)]
    cnt_pos [OF assms(3), of signals_slot] cnt_pos [OF assms(3), of signals_element]
    cnt_pos [OF assms(3), of waits_not_full]
  show ?thesis by (cases p) (auto simp: signal_inv_def cnt_update not_full_pred_def)
qed

lemma signal_inv_pop:
  assumes "signal_inv s" "data_inv s" "t < length (pcs s)" "pcs s ! t = Pop p"
    and "pop_step t a p s = Some s'"
  shows "signal_inv s'"
proof (cases "\<exists>v. p = PNotify v")
  case True
  with assms show ?thesis by (auto intro: signal_inv_pop_notify)
next
  case False
  with assms data_inv_at [OF assms(2,3)] data_inv_bound [OF assms(2)]
    cnt_pos [OF assms(3), of signals_element] cnt_pos [OF assms(3), of waits_not_empty]
  show ?thesis
    by (cases p) (auto simp: signal_inv_def cnt_update not_empty_pred_def
        split: list.splits bbq_act.splits)
qed

lemma cnt_notify_all [simp]:
  "cnt waits_not_empty (map (\<lambda>p. if waits_not_empty p then wake p else p) ps) = 0"
  "cnt waits_not_full (map (\<lambda>p. if waits_not_empty p then wake p else p) ps) = cnt waits_not_full ps"
  "cnt waits_not_empty (map (\<lambda>p. if waits_not_full p then wake p else p) ps) = cnt waits_not_empty ps"
  "cnt waits_not_full (map (\<lambda>p. if waits_not_full p then wake p else p) ps) = 0"
  "cnt signals_slot (map (\<lambda>p. if waits_not_empty p then wake p else p) ps) = cnt signals_slot ps"
  "cnt signals_element (map (\<lambda>p. if waits_not_full p then wake p else p) ps) = cnt signals_element ps"
  by (auto simp: cnt_zero_iff dest!: waits_not_emptyE waits_not_fullE intro!: cnt_wake)

lemma signal_inv_close:
  assumes "signal_inv s" "t < length (pcs s)" "pcs s ! t = Close p" "close_step t a p s = Some s'"
  shows "signal_inv s'"
  using assms by (cases p) (auto simp: signal_inv_def cnt_update)

lemma signal_inv_size:
  assumes "signal_inv s" "t < length (pcs s)" "pcs s ! t = Size p" "size_step t a p s = Some s'"
  shows "signal_inv s'"
  using assms by (cases p) (auto simp: signal_inv_def cnt_update)

lemma signal_inv_call:
  assumes "signal_inv s" "t < length (pcs s)" "pcs s ! t = Done r"
  shows "signal_inv (goto t (bbq_call oper) s)"
  using assms by (cases oper) (auto simp: signal_inv_def cnt_update)

lemma signal_inv_exec:
  assumes "signal_inv s" "bbq_inv s" "bbq_exec (t, a) s = Some s'"
  shows "signal_inv s'"
proof (cases "pcs s ! t")
  case (Done r)
  with assms show ?thesis by (auto split: if_splits bbq_act.splits intro: signal_inv_call)
qed (use assms in \<open>auto simp: bbq_inv_def split: if_splits
  intro: signal_inv_emplace signal_inv_pop signal_inv_close signal_inv_size\<close>)

subsection \<open>Linearization\<close>

lemma pending_goto [simp]:
  "t < length (pcs s) \<Longrightarrow> m_mutex s = Some t \<Longrightarrow> pending (goto t p s) = pending_of p"
  "m_mutex s = None \<Longrightarrow> pending s = []"
  by (simp_all add: pending_def)

lemma pending_other:
  "mutex_inv s \<Longrightarrow> t < length (pcs s) \<Longrightarrow> m_mutex s \<noteq> Some t \<Longrightarrow> m_mutex s' = m_mutex s \<Longrightarrow>
     pcs s' = pcs s \<Longrightarrow> pending (goto t p s') = pending s"
  by (auto simp: pending_def split: option.splits)

lemma pending_owner: "m_mutex s = Some t \<Longrightarrow> pending s = pending_of (pcs s ! t)"
  by (simp add: pending_def)

lemma pending_wake [simp]: "pending_of (wake p) = pending_of p"
  by (cases p rule: wake.cases) auto

lemma pending_notify_one:
  assumes "notify_one waits a s = Some s'" "mutex_inv s" 
  shows "pending s' = pending s"
  using assms notify_one_SomeD [OF assms(1)]
  by (auto simp: pending_def nth_list_update mutex_inv_def split: option.splits)

lemma pending_notify_all [simp]: "mutex_inv s \<Longrightarrow> pending (notify_all waits s) = pending s"
  by (auto simp: pending_def mutex_inv_def split: option.splits)

lemmas bbq_op_defs [atomic_ops] = bbq_push_def bbq_emplace_def bbq_pop_def bbq_timeoutPop_def bbq_close_def
  bbq_size_def not_full_pred_def not_empty_pred_def bbq_abs_def

lemma bbq_invD:
  assumes "bbq_inv s" "t < length (pcs s)"
  shows "holds_mutex (pcs s ! t) \<longleftrightarrow> m_mutex s = Some t" "mutex_inv s" "local_fact s (pcs s ! t)"
  using assms by (simp_all add: bbq_inv_def mutex_inv_owner data_inv_at)

lemma refines_emplace:
  assumes "bbq_inv s" "t < length (pcs s)" "pcs s ! t = Emplace p" "emplace_step t a p s = Some s'"
  shows "refines_atomically (t, a) s s'"
proof (cases "p = ENotify")
  case True
  with assms obtain s1 where s1: "notify_one waits_not_empty a s = Some s1" "s' = goto t (Done (RBool True)) s1"
    by auto
  have m: "mutex_inv s" using assms(1) by (simp add: bbq_inv_def)
  then have "mutex_inv s1" using s1 by (blast intro: mutex_inv_notify_one)
  moreover have "m_mutex s1 \<noteq> Some t"
    using True assms(2,3) mutex_inv_owner [OF m assms(2)] notify_one_frame [OF s1(1)] by auto
  ultimately have "pending s' = pending s"
    using s1 assms(2) m notify_one_frame [OF s1(1)]
    by (simp add: pending_other [of s1] pending_notify_one)
  with True assms(3) s1 notify_one_frame [OF s1(1)] show ?thesis by (simp add: bbq_abs_def)
next
  case False
  with assms bbq_invD [OF assms(1,2)] show ?thesis
    by (cases p) (auto simp: atomic_ops pending_owner pending_other [of s])
qed

lemma refines_pop:
  assumes "bbq_inv s" "t < length (pcs s)" "pcs s ! t = Pop p" "pop_step t a p s = Some s'"
  shows "refines_atomically (t, a) s s'"
proof (cases "\<exists>v. p = PNotify v")
  case True
  with assms obtain v s1 where s1: "notify_one waits_not_full a s = Some s1" "s' = goto t (Pop (PUnlock (Some v))) s1"
    "p = PNotify v"
    by auto
  have m: "mutex_inv s" using assms(1) by (simp add: bbq_inv_def)
  have "m_mutex s = Some t"
    using s1 assms(2,3) mutex_inv_owner [OF m assms(2)] by auto
  with s1 assms(2,3) notify_one_frame [OF s1(1)] show ?thesis by (simp add: bbq_abs_def pending_owner)
next
  case False
  with assms bbq_invD [OF assms(1,2)] show ?thesis
    by (cases p) (auto simp: atomic_ops pending_owner pending_other [of s] split: list.splits bbq_act.splits)
qed

lemma refines_close:
  assumes "bbq_inv s" "t < length (pcs s)" "pcs s ! t = Close p" "close_step t a p s = Some s'"
  shows "refines_atomically (t, a) s s'"
  using assms bbq_invD [OF assms(1,2)]
  by (cases p) (auto simp: atomic_ops pending_other [of s] mutex_inv_notify_all
      pending_other [of "notify_all waits_not_empty s"] pending_other [of "notify_all waits_not_full s"])

lemma refines_size:
  assumes "bbq_inv s" "t < length (pcs s)" "pcs s ! t = Size p" "size_step t a p s = Some s'"
  shows "refines_atomically (t, a) s s'"
  using assms bbq_invD [OF assms(1,2)]
  by (cases p) (auto simp: atomic_ops pending_owner pending_other [of s])

lemma refines_exec:
  assumes "bbq_inv s" "bbq_exec (t, a) s = Some s'"
  shows "refines_atomically (t, a) s s'"
proof (cases "pcs s ! t")
  case (Done r)
  have "mutex_inv s" using assms by (simp add: bbq_inv_def)
  with Done assms mutex_inv_owner [of s t] show ?thesis 
     by (auto simp: bbq_abs_def pending_other [of s] split: if_splits bbq_act.splits)
next
  case (Emplace p)
  with assms refines_emplace [of s t p a s'] show ?thesis by (auto split: if_splits)
next
  case (Pop p)
  with assms refines_pop [of s t p a s'] show ?thesis by (auto split: if_splits)
next
  case (Close p)
  with assms refines_close [of s t p a s'] show ?thesis by (auto split: if_splits)
next
  case (Size p)
  with assms refines_size [of s t p a s'] show ?thesis by (auto split: if_splits)
qed

interpretation bq: linearization bbq_init bbq_exec bbq_inv bbq_abs bbq_lin bbq_spec
proof unfold_locales
  fix a :: "tid \<times> 'a bbq_act" and s s' :: "'a bbq_sys" and e
  assume s: "bbq_inv s" "bbq_exec a s = Some s'"
  obtain t x where a: "a = (t, x)" by (cases a)
  show "bbq_abs s' = bbq_abs s" if "bbq_lin a s = None"
    using refines_exec [of s t x s'] s that unfolding a by (simp split: option.splits)
  show "bbq_spec e (bbq_abs s) = Some (bbq_abs s')" if "bbq_lin a s = Some e"
    using refines_exec [of s t x s'] s that unfolding a by (simp split: option.splits)
qed (auto intro: bbq_inv_init bbq_inv_exec)

subsection \<open>Results\<close>

lemma committed_wake [simp]: "committed (wake p) = committed p"
  by (cases p rule: wake.cases) auto

lemma committed_call [simp]: "committed (bbq_call oper) = None"
  by (cases oper) auto

lemma notify_one_committed:
  "notify_one waits a s = Some s' \<Longrightarrow> u < length (pcs s) \<Longrightarrow> committed (pcs s' ! u) = committed (pcs s ! u)"
  by (auto dest!: notify_one_SomeD simp: nth_list_update)

lemma requested_wake [simp]: "requested (wake p) = requested p"
  by (cases p rule: wake.cases) auto

lemma requested_call [simp]: "requested (bbq_call oper) = Some oper"
  by (cases oper) auto

lemma notify_one_requested:
  "notify_one waits a s = Some s' \<Longrightarrow> u < length (pcs s) \<Longrightarrow> requested (pcs s' ! u) = requested (pcs s ! u)"
  by (auto dest!: notify_one_SomeD simp: nth_list_update)

text \<open>What a step of \<open>t\<close> changes of the calls: of the other threads nothing, of \<open>t\<close>'s own only at its effect.\<close>

lemma other_calls:
  assumes "bbq_exec (t, a) s = Some s'"
  shows "length (pcs s') = length (pcs s) \<and> (u < length (pcs s) \<longrightarrow> u \<noteq> t \<longrightarrow>
    requested (pcs s' ! u) = requested (pcs s ! u) \<and> committed (pcs s' ! u) = committed (pcs s ! u))"
proof (cases "pcs s ! t")
  case (Done r)
  with assms show ?thesis by (auto split: if_splits bbq_act.splits)
next
  case (Emplace p)
  with assms show ?thesis
    by (cases p) (auto simp: notify_one_requested notify_one_committed dest: notify_one_frame(1) split: if_splits)
next
  case (Pop p)
  with assms show ?thesis
    by (cases p) (auto simp: notify_one_requested notify_one_committed dest: notify_one_frame(1)
        split: if_splits list.splits bbq_act.splits)
next
  case (Close p)
  with assms show ?thesis by (cases p) (auto split: if_splits)
next
  case (Size p)
  with assms show ?thesis by (cases p) (auto split: if_splits)
qed

lemma own_call:
  assumes "bbq_exec (t, a) s = Some s'" "\<And>oper. a \<noteq> Call oper"
  shows "case bbq_lin (t, a) s of
      None \<Rightarrow> requested (pcs s' ! t) = requested (pcs s ! t) \<and> committed (pcs s' ! t) = committed (pcs s ! t)
    | Some (u, oper, r) \<Rightarrow> u = t \<and> requested (pcs s ! t) = Some oper \<and> requested (pcs s' ! t) = None \<and>
        committed (pcs s ! t) = None \<and> committed (pcs s' ! t) = Some r"
proof (cases "pcs s ! t")
  case (Done r)
  with assms show ?thesis by (auto split: if_splits bbq_act.splits)
next
  case (Emplace p)
  with assms show ?thesis by (cases p) (auto dest: notify_one_frame split: if_splits)
next
  case (Pop p)
  with assms show ?thesis
    by (cases p) (auto dest: notify_one_frame split: if_splits list.splits bbq_act.splits)
next
  case (Close p)
  with assms show ?thesis by (cases p) (auto split: if_splits)
next
  case (Size p)
  with assms show ?thesis by (cases p) (auto split: if_splits)
qed

lemma bbq_call_idle:
  assumes "bbq_exec (t, Call oper) s = Some s'"
  shows "(\<exists>r. pcs s ! t = Done r) \<and> s' = goto t (bbq_call oper) s"
proof (cases "pcs s ! t")
  case (Emplace p)
  with assms show ?thesis by (cases p) (auto split: if_splits)
next
  case (Pop p)
  with assms show ?thesis by (cases p) (auto split: if_splits list.splits)
next
  case (Close p)
  with assms show ?thesis by (cases p) (auto split: if_splits)
next
  case (Size p)
  with assms show ?thesis by (cases p) (auto split: if_splits)
qed (use assms in \<open>auto split: if_splits\<close>)

lemma bbq_exec_in_range: "bbq_exec (t, a) s = Some s' \<Longrightarrow> t < length (pcs s)"
  by (simp split: if_splits)

interpretation bo: atomic_object bbq_init bbq_exec bbq_inv bbq_abs bbq_lin bbq_spec Call bbq_requested bbq_committed
proof (unfold_locales, goal_cases)
  case (1 t p s s')
  then show ?case using bbq_call_idle [OF 1] bbq_exec_in_range [OF 1]
    by (auto simp: bbq_requested_def bbq_committed_def)
next
  case (2 t x s s')
  then have t: "t < length (pcs s)" "length (pcs s') = length (pcs s)" using other_calls bbq_exec_in_range by blast+
  have "x \<noteq> Call oper" for oper using 2(2) by auto
  with own_call [OF 2(1)] t show ?case
    by (auto simp: bbq_requested_def bbq_committed_def simp del: bbq_lin.simps split: option.splits)
next
  case (3 t x s s' u)
  with other_calls [OF 3(1), of u] show ?case by (auto simp: bbq_requested_def bbq_committed_def)
qed

subsection \<open>Histories of the atomic queue\<close>

lemma bbq_spec_fifo:
  "run bbq_spec h q = Some q' \<Longrightarrow>
     m_deque q @ concat (map pushed_by h) = concat (map popped_by h) @ m_deque q'"
proof (induction h arbitrary: q)
  case (Cons e h)
  obtain t oper r where e: "e = (t, oper, r)" by (cases e)
  from Cons.prems obtain q1 where q1: "bbq_spec e q = Some q1" "run bbq_spec h q1 = Some q'"
    by (auto split: option.splits)
  have "m_deque q @ pushed_by e = popped_by e @ m_deque q1"
    using q1(1) unfolding e
    by (cases oper) (auto simp: bbq_push_def bbq_emplace_def bbq_pop_def bbq_timeoutPop_def bbq_close_def
        split: option.splits if_splits list.splits)
  with Cons.IH [OF q1(2)] show ?case by simp (metis append.assoc)
qed simp

lemma bbq_spec_closed:
  "run bbq_spec h q = Some q' \<Longrightarrow> m_closed q \<Longrightarrow> concat (map pushed_by h) = [] \<and> m_closed q'"
proof (induction h arbitrary: q)
  case (Cons e h)
  obtain t oper r where e: "e = (t, oper, r)" by (cases e)
  from Cons.prems obtain q1 where q1: "bbq_spec e q = Some q1" "run bbq_spec h q1 = Some q'"
    by (auto split: option.splits)
  have "pushed_by e = [] \<and> m_closed q1"
    using q1(1) Cons.prems(2) unfolding e
    by (cases oper) (auto simp: bbq_push_def bbq_emplace_def bbq_pop_def bbq_timeoutPop_def bbq_close_def
        not_full_pred_def split: option.splits if_splits list.splits)
  with Cons.IH [OF q1(2)] show ?case by simp
qed simp

subsection \<open>Progress\<close>

lemma internal_simps [simp]: "internal Step" "internal (Wake w)"
  by (simp_all add: internal_def)

lemma notify_one_enabled: "\<exists>a s'. internal a \<and> notify_one waits a s = Some s'"
proof (cases "list_ex waits (pcs s)")
  case True
  then obtain w where "w < length (pcs s)" "waits (pcs s ! w)" by (auto simp: list_ex_length)
  then have "notify_one waits (Wake w) s = Some (goto w (wake (pcs s ! w)) s)" by simp
  then show ?thesis using internal_simps(2) by blast
next
  case False
  then have "notify_one waits Step s = Some s" by simp
  then show ?thesis using internal_simps(1) by blast
qed

lemma close_step_enabled: "\<exists>s'. close_step t Step p s = Some s'"
  by (cases p) auto

lemma size_step_enabled: "p = SLock \<longrightarrow> m_mutex s = None \<Longrightarrow> \<exists>s'. size_step t Step p s = Some s'"
  by (cases p) auto

lemma holder_enabled:
  assumes "bbq_inv s" "t < length (pcs s)" "m_mutex s = Some t"
  shows "\<exists>a s'. internal a \<and> bbq_exec (t, a) s = Some s'"
proof -
  have h: "holds_mutex (pcs s ! t)" and l: "local_fact s (pcs s ! t)"
    using assms bbq_invD [OF assms(1,2)] by auto
  show ?thesis
  proof (cases "\<exists>v. pcs s ! t = Pop (PNotify v)")
    case True
    moreover obtain a s' where "internal a" "notify_one waits_not_full a s = Some s'"
      using notify_one_enabled by blast
    ultimately have "\<exists>s'. bbq_exec (t, a) s = Some s'" using assms(2) by auto
    with \<open>internal a\<close> show ?thesis by blast
  next
    case False
    with h l assms(2) have "\<exists>s'. bbq_exec (t, Step) s = Some s'"
      by (cases "pcs s ! t")
        (auto split: pop_pc.splits emplace_pc.splits size_pc.splits list.splits)
    then show ?thesis using internal_simps(1) by blast
  qed
qed

lemma free_enabled:
  assumes "m_mutex s = None" "t < length (pcs s)" "\<not> at_rest (pcs s ! t)" "\<not> holds_mutex (pcs s ! t)"
  shows "\<exists>a s'. internal a \<and> bbq_exec (t, a) s = Some s'"
proof (cases "pcs s ! t = Emplace ENotify")
  case True
  moreover obtain a s' where "internal a" "notify_one waits_not_empty a s = Some s'"
    using notify_one_enabled by blast
  ultimately have "\<exists>s'. bbq_exec (t, a) s = Some s'" using assms(2) by auto
  with \<open>internal a\<close> show ?thesis by blast
next
  case False
  with assms have "\<exists>s'. bbq_exec (t, Step) s = Some s'"
    by (cases "pcs s ! t")
      (auto split: pop_pc.splits emplace_pc.splits simp: size_step_enabled close_step_enabled)
  then show ?thesis using internal_simps(1) by blast
qed


lemma bbq_progress:
  assumes "bbq_inv s" "\<not> quiescent s"
  shows "\<exists>t a s'. internal a \<and> bbq_exec (t, a) s = Some s'"
proof (cases "m_mutex s")
  case (Some t)
  with assms have "t < length (pcs s)" by (auto simp: bbq_inv_def mutex_inv_def)
  with holder_enabled [OF assms(1) this Some] show ?thesis by blast
next
  case None
  from assms(2) obtain t where t: "t < length (pcs s)" "\<not> at_rest (pcs s ! t)"
    by (auto simp: quiescent_def list_all_length)
  moreover have "\<not> holds_mutex (pcs s ! t)"
    using bbq_invD(1) [OF assms(1) t(1)] None by simp
  ultimately show ?thesis using free_enabled [OF None] by blast
qed

lemma at_rest_signals: "at_rest p \<Longrightarrow> \<not> signals_element p \<and> \<not> signals_slot p"
  by (cases p rule: at_rest.cases) auto

lemma quiescent_cnt:
  assumes "quiescent s"
  shows "cnt signals_element (pcs s) = 0" "cnt signals_slot (pcs s) = 0"
  using assms at_rest_signals by (auto simp: quiescent_def list_all_iff cnt_zero_iff)

interpretation bqw: invariant_system bbq_init bbq_exec bbq_full_inv
proof unfold_locales
  fix s :: "'a bbq_sys"
  assume "bbq_init s"
  then show "bbq_full_inv s"
    using bbq_inv_init by (auto simp: bbq_full_inv_def bbq_init_def signal_inv_def bbq_sys_new_def cnt_def)
next
  fix a :: "tid \<times> 'a bbq_act" and s s' :: "'a bbq_sys"
  assume "bbq_full_inv s" "bbq_exec a s = Some s'"
  then show "bbq_full_inv s'"
    by (cases a) (auto simp: bbq_full_inv_def simp del: bbq_exec.simps intro: bbq_inv_exec signal_inv_exec)
qed

lemma quiescent_stuck:
  assumes "quiescent s" "internal a"
  shows "bbq_exec (t, a) s = None"
proof (cases "t < length (pcs s)")
  case True
  with assms have "at_rest (pcs s ! t)" by (simp add: quiescent_def list_all_length)
  with assms(2) show ?thesis
    by (cases "pcs s ! t" rule: at_rest.cases) (auto simp: internal_def)
qed simp

section \<open>Properties\<close>

text \<open>C2. The concurrent queue refines the atomic one. For any number of threads, any capacity and
  any interleaving of the statements of \<open>push\<close>, \<open>pop\<close>, \<open>timeoutPop\<close>, \<open>close\<close> and \<open>size\<close>, with
  spurious wake-ups and timeouts, the operations in the order in which they take effect, with
  the results they commit to, are a run of the atomic queue that ends in the state the
  concurrent one stands for.\<close>

theorem bbq_linearizable:
  assumes "run bbq_exec as (bbq_sys_new n maxSize) = Some s"
  shows "run bbq_spec (events bbq_exec bbq_lin as (bbq_sys_new n maxSize)) (bbq_new maxSize)
           = Some (bbq_abs s)"
proof -
  have "bbq_init (bbq_sys_new n maxSize)" by (auto simp: bbq_init_def)
  from bq.history_refines [OF this assms] show ?thesis
    by (simp add: bbq_abs_def pending_def bbq_sys_new_def bbq_new_def)
qed

theorem bbq_linearizable_witness:
  "run bbq_exec push_pop_schedule (bbq_sys_new 2 1)
     = Some ((bbq_sys_new 2 1)\<lparr>pcs := [Done (RBool True), Done (ROpt (Some 7))]\<rparr>) \<and>
   run bbq_spec (events bbq_exec bbq_lin push_pop_schedule (bbq_sys_new 2 1)) (bbq_new 1)
     = Some (bbq_new 1)"
proof -
  have h: "run bbq_exec push_pop_schedule (bbq_sys_new 2 1)
      = Some ((bbq_sys_new 2 1)\<lparr>pcs := [Done (RBool True), Done (ROpt (Some 7))]\<rparr>)"
    by code_simp
  show ?thesis
    using h bbq_linearizable [OF h]
    by (simp add: bbq_abs_def pending_def bbq_sys_new_def bbq_new_def)
qed

text \<open>C36. Every operation takes effect exactly once, between its call and its return, and returns
  the result of that moment: in a reachable state, a step of thread \<open>t\<close> that is not a new call
  either is the effect of \<open>t\<close>'s operation, which had no result before and has the event's result
  after, or leaves \<open>t\<close>'s result as it was; and it leaves every other thread's result as it was.\<close>

theorem bbq_effect_once:
  assumes "bbq_exec (t, a) s = Some s'" and "\<And>oper. a \<noteq> Call oper" and "u < length (pcs s)"
  shows "committed (pcs s' ! u) = (if u = t then
       (case bbq_lin (t, a) s of None \<Rightarrow> committed (pcs s ! t) | Some (w, oper, r) \<Rightarrow> Some r)
       else committed (pcs s ! u)) \<and>
     (\<forall>w oper r. bbq_lin (t, a) s = Some (w, oper, r) \<longrightarrow> w = t \<and> committed (pcs s ! t) = None)"
  using own_call [OF assms(1,2)] other_calls [OF assms(1), of u] assms(3)
  by (auto simp del: bbq_exec.simps bbq_lin.simps split: option.splits)

theorem bbq_effect_once_witness:
  "\<exists>s'. bbq_exec (0, Step) (closed_queue\<lparr>m_mutex := Some 0, pcs := [Emplace (EClosed 7), Done RUnit]\<rparr>)
       = Some s' \<and> committed (pcs s' ! 0) = Some (RBool False)"
proof -
  let ?s = "closed_queue\<lparr>m_mutex := Some 0, pcs := [Emplace (EClosed 7), Done RUnit]\<rparr>"
  have h: "bbq_exec (0, Step) ?s = Some (goto 0 (Emplace EFail) ?s)"
    by (simp add: closed_queue_def bbq_sys_new_def)
  from bbq_effect_once [OF h, of 0] h show ?thesis
    by (simp add: closed_queue_def bbq_sys_new_def)
qed

text \<open>FIFO. In any run, the values of the successful pushes, in the order in which they took
  effect, are the values popped so far, in order, followed by the present content of the queue:
  nothing is lost, duplicated or reordered, whatever the number of producers and consumers.\<close>

theorem bbq_fifo:
  assumes "run bbq_exec as (bbq_sys_new n maxSize) = Some s"
  shows "concat (map pushed_by (events bbq_exec bbq_lin as (bbq_sys_new n maxSize))) =
         concat (map popped_by (events bbq_exec bbq_lin as (bbq_sys_new n maxSize))) @
         m_deque (bbq_abs s)"
proof -
  let ?h = "events bbq_exec bbq_lin as (bbq_sys_new n maxSize)"
  have "bbq_init (bbq_sys_new n maxSize)" by (auto simp: bbq_init_def)
  from bq.history_refines [OF this assms]
  have "run bbq_spec ?h (bbq_abs (bbq_sys_new n maxSize)) = Some (bbq_abs s)" .
  from bbq_spec_fifo [OF this] show ?thesis
    by (simp add: bbq_abs_def pending_def bbq_sys_new_def)
qed

theorem bbq_fifo_witness:
  "concat (map pushed_by (events bbq_exec bbq_lin push_pop_schedule (bbq_sys_new 2 1))) = [7] \<and>
   concat (map popped_by (events bbq_exec bbq_lin push_pop_schedule (bbq_sys_new 2 1))) = [7]"
proof -
  have h: "run bbq_exec push_pop_schedule (bbq_sys_new 2 1)
      = Some ((bbq_sys_new 2 1)\<lparr>pcs := [Done (RBool True), Done (ROpt (Some 7))]\<rparr>)"
    by code_simp
  have p: "concat (map popped_by (events bbq_exec bbq_lin push_pop_schedule (bbq_sys_new 2 1))) = [7]"
    by code_simp
  from bbq_fifo [OF h] p show ?thesis by (simp add: bbq_abs_def pending_def bbq_sys_new_def)
qed

text \<open>C37. In every reachable state the queue holds at most \<open>maxSize\<close> elements, a push that has been
  accepted but not yet stored included, and at most one thread is inside a critical section.\<close>

theorem bbq_capacity_and_mutex:
  assumes "reachable bbq_init bbq_exec s"
  shows "length (m_deque (bbq_abs s)) \<le> m_dequeMaxSize s \<and> cnt holds_mutex (pcs s) \<le> 1"
proof -
  have inv: "bbq_inv s" using assms by (rule bq.reachable_inv)
  have "cnt holds_mutex (pcs s) \<le> 1"
    using inv by (intro cnt_le_one) (auto simp: bbq_inv_def mutex_inv_def)
  moreover have "length (m_deque (bbq_abs s)) \<le> m_dequeMaxSize s"
  proof (cases "m_mutex s")
    case (Some t)
    with inv have t: "t < length (pcs s)" by (simp add: bbq_inv_def mutex_inv_def)
    from bbq_invD(3) [OF inv t] Some inv show ?thesis
      by (cases "pcs s ! t" rule: pending_of.cases)
        (auto simp: bbq_abs_def pending_def bbq_inv_def data_inv_def)
  qed (use inv in \<open>simp add: bbq_abs_def bbq_inv_def data_inv_def\<close>)
  ultimately show ?thesis by simp
qed

theorem bbq_capacity_and_mutex_witness:
  "\<exists>s. run bbq_exec (take 4 push_pop_schedule) (bbq_sys_new 2 1) = Some s \<and> cnt holds_mutex (pcs s) = 1 \<and>
     m_deque (bbq_abs s) = [7] \<and> length (m_deque (bbq_abs s)) \<le> m_dequeMaxSize s \<and> m_dequeMaxSize s = 1"
proof -
  have "map_option (\<lambda>s. (cnt holds_mutex (pcs s), m_deque (bbq_abs s), m_dequeMaxSize s))
      (run bbq_exec (take 4 push_pop_schedule) (bbq_sys_new 2 1)) = Some (1, [7], 1)"
    by code_simp
  then obtain s where s: "run bbq_exec (take 4 push_pop_schedule) (bbq_sys_new 2 1) = Some s"
    "cnt holds_mutex (pcs s) = 1" "m_deque (bbq_abs s) = [7]" "m_dequeMaxSize s = 1" by auto
  have "reachable bbq_init bbq_exec s"
    by (rule run_reachable [OF reachable.start s(1)]) (auto simp: bbq_init_def)
  from bbq_capacity_and_mutex [OF this] s show ?thesis by blast
qed

text \<open>C20. No notification is missed. When every thread has returned or is asleep on a condition
  variable, a sleeping consumer means that the queue is empty, and a sleeping producer on an
  open queue means that it is full: the single \<open>notify_one\<close> of each operation suffices, also with
  timeouts and spurious wake-ups.\<close>

theorem bbq_no_missed_notification:
  assumes "reachable bbq_init bbq_exec s" and "quiescent s"
  shows "(0 < cnt waits_not_empty (pcs s) \<longrightarrow> m_deque s = []) \<and>
         (\<not> m_closed s \<and> 0 < cnt waits_not_full (pcs s) \<longrightarrow> length (m_deque s) = m_dequeMaxSize s)"
proof -
  have "bbq_full_inv s" using assms(1) by (rule bqw.reachable_inv)
  with quiescent_cnt [OF assms(2)] show ?thesis
    by (auto simp: bbq_full_inv_def signal_inv_def bbq_inv_def data_inv_def)
qed

theorem bbq_no_missed_notification_witness:
  "quiescent sleeping_consumer \<and> 0 < cnt waits_not_empty (pcs sleeping_consumer) \<and>
   m_deque sleeping_consumer = []"
proof -
  have "run bbq_exec [(0, Call OpPop), (0, Step), (0, Step), (0, Step)] (bbq_sys_new 2 1)
      = Some sleeping_consumer"
    by code_simp
  moreover have "reachable bbq_init bbq_exec (bbq_sys_new 2 1 :: nat bbq_sys)"
    by (rule reachable.start) (auto simp: bbq_init_def)
  ultimately have r: "reachable bbq_init bbq_exec sleeping_consumer" by (blast intro: run_reachable)
  have q: "quiescent sleeping_consumer" by (simp add: quiescent_def sleeping_consumer_def)
  from bbq_no_missed_notification [OF r q] q show ?thesis by (simp add: sleeping_consumer_def)
qed

text \<open>C21. The queue never blocks itself: in every reachable state in which some thread has neither
  returned nor gone to sleep on a condition variable, some thread can execute its next statement
  without help from outside.\<close>

theorem bbq_deadlock_free:
  assumes "reachable bbq_init bbq_exec s" and "\<not> quiescent s"
  shows "\<exists>t a s'. internal a \<and> bbq_exec (t, a) s = Some s'"
  using bbq_progress [OF bq.reachable_inv [OF assms(1)] assms(2)] .

theorem bbq_deadlock_free_witness:
  "\<exists>t a s'. internal a \<and>
     bbq_exec (t, a) ((bbq_sys_new 2 1)\<lparr>pcs := [Emplace (ELock (7::nat)), Done RUnit]\<rparr>) = Some s'"
proof -
  let ?s = "(bbq_sys_new 2 1)\<lparr>pcs := [Emplace (ELock (7::nat)), Done RUnit]\<rparr>"
  have "run bbq_exec [(0, Call (OpPush 7))] (bbq_sys_new 2 1) = Some ?s" by code_simp
  moreover have "reachable bbq_init bbq_exec (bbq_sys_new 2 1 :: nat bbq_sys)"
    by (rule reachable.start) (auto simp: bbq_init_def)
  ultimately have r: "reachable bbq_init bbq_exec ?s" by (blast intro: run_reachable)
  have "\<not> quiescent ?s" by (simp add: quiescent_def)
  from bbq_deadlock_free [OF r this] show ?thesis .
qed

text \<open>A closed queue accepts nothing more: once \<open>m_closed\<close> is set, no continuation of the run
  contains a successful push, and the flag stays set.\<close>

theorem bbq_closed_rejects:
  assumes "reachable bbq_init bbq_exec s" and "m_closed s" and "run bbq_exec as s = Some s'"
  shows "concat (map pushed_by (events bbq_exec bbq_lin as s)) = [] \<and> m_closed s'"
proof -
  have "bbq_inv s" using assms(1) by (rule bq.reachable_inv)
  from bq.events_refine [OF this assms(3)] have
    "run bbq_spec (events bbq_exec bbq_lin as s) (bbq_abs s) = Some (bbq_abs s')" .
  from bbq_spec_closed [OF this] assms(2) show ?thesis by (simp add: bbq_abs_def)
qed

theorem bbq_closed_rejects_witness:
  "\<exists>s'. run bbq_exec push_closed_schedule (closed_queue\<lparr>pcs := [Done RUnit, Done RUnit]\<rparr>) = Some s' \<and>
     concat (map pushed_by (events bbq_exec bbq_lin push_closed_schedule
       (closed_queue\<lparr>pcs := [Done RUnit, Done RUnit]\<rparr>))) = [] \<and> pcs s' ! 0 = Done (RBool False)"
proof -
  let ?c = "closed_queue\<lparr>pcs := [Done RUnit, Done RUnit]\<rparr>"
  let ?s' = "closed_queue\<lparr>pcs := [Done (RBool False), Done RUnit]\<rparr>"
  have "run bbq_exec ((1, Call OpClose) # replicate 3 (1, Step)) (bbq_sys_new 2 1) = Some ?c"
    by code_simp
  moreover have "reachable bbq_init bbq_exec (bbq_sys_new 2 1 :: nat bbq_sys)"
    by (rule reachable.start) (auto simp: bbq_init_def)
  ultimately have r: "reachable bbq_init bbq_exec ?c" by (blast intro: run_reachable)
  have h: "run bbq_exec push_closed_schedule ?c = Some ?s'" by code_simp
  have "m_closed ?c" by (simp add: closed_queue_def)
  from bbq_closed_rejects [OF r this h] h show ?thesis by auto
qed

text \<open>\<open>close\<close> can leave a consumer asleep. It stores the flag without holding the mutex, so the
  store and both notifications can fall between a consumer's test of the wait predicate and its
  going to sleep: then \<open>close\<close> has returned, the queue is closed, the consumer waits for good and
  no action of the queue's threads is possible, although the contract says that waiters wake
  immediately on \<open>close\<close>.\<close>

theorem bbq_close_misses_waiter:
  "\<exists>s. run bbq_exec close_race_schedule (bbq_sys_new 2 1) = Some s \<and> m_closed s \<and>
     pcs s = [Pop (PBlocked False), Done RUnit] \<and>
     \<not> (\<exists>t a s'. internal a \<and> bbq_exec (t, a) s = Some s')"
proof -
  let ?s = "closed_queue\<lparr>pcs := [Pop (PBlocked False), Done RUnit]\<rparr>"
  have r: "run bbq_exec close_race_schedule (bbq_sys_new 2 1) = Some ?s" by code_simp
  have "quiescent ?s" by (simp add: quiescent_def)
  then have stuck: "bbq_exec (t, a) ?s = None" if "internal a" for t a
    using that by (rule quiescent_stuck)
  have "\<not> (\<exists>t a s'. internal a \<and> bbq_exec (t, a) ?s = Some s')"
    using stuck by (metis option.distinct(1))
  then show ?thesis using r by (intro exI [of _ ?s]) (simp add: closed_queue_def)
qed

end
