(* ===== verification/Logger.thy ===== *)
theory Logger
  imports BoundedBlockingQueue
begin

text \<open>
  \<^verbatim>\<open>include/miniruntime/logger/logger.h\<close> and \<^verbatim>\<open>src/logger/logger.cpp\<close>: the asynchronous logger.

  Clients call \<open>log\<close>, \<open>flush\<close>, \<open>shutdown\<close>, \<open>setMinLevel\<close> and \<open>setOutput\<close>; one worker thread takes
  messages from a bounded queue of 1000 and writes them. The methods are split at their accesses
  to the atomics, the queue is the atomic layer of \<open>BoundedBlockingQueue\<close> (which every interleaving
  of its statements refines), and the counters are 64-bit words. The worker's \<open>pop\<close> is split once
  more, into the test of the predicate, the start of the wait and the sleep, and \<open>close\<close> into its
  store and its notification, because a \<open>close\<close> in between is missed by the worker; a client's call of
  \<open>push\<close> stays one transition with its notification. Parameters stand for the standard
  library's formatting: \<open>vformat\<close> of a format string with its arguments gives the text or the
  message of a \<open>format_error\<close>, \<open>fmtF\<close> and \<open>fmtT\<close> print the date and the time of a time point. The
  time stamp of a message is an argument of the call.

  Proved: what is written is, at every moment, a prefix of the accepted messages in the order of
  acceptance; after \<open>shutdown\<close> it is all of them; messages below the minimum level and those
  offered after \<open>shutdown\<close> are dropped; the counters count; when \<open>flush\<close> returns, everything
  accepted before it read its target has been written, provided no client was between its push
  and its count. Without that proviso \<open>flush\<close> can return too early, and it can also block for
  good after everything was written. The worker drains a closed queue by its own steps unless it
  sleeps; if it missed the \<open>close\<close>, only a spurious wake-up ends the \<open>shutdown\<close>.
\<close>

section \<open>Messages and formatting\<close>

datatype log_level = Debug | Info | Warning | Error

fun level_value :: "log_level \<Rightarrow> nat" where
  "level_value Debug = 0"
| "level_value Info = 1"
| "level_value Warning = 2"
| "level_value Error = 3"

lemma level_value_inj: "level_value a = level_value b \<Longrightarrow> a = b"
  by (cases a; cases b) auto

instantiation log_level :: linorder
begin

definition less_eq_log_level :: "log_level \<Rightarrow> log_level \<Rightarrow> bool" where
  "a \<le> b \<longleftrightarrow> level_value a \<le> level_value b"

definition less_log_level :: "log_level \<Rightarrow> log_level \<Rightarrow> bool" where
  "a < b \<longleftrightarrow> level_value a < level_value b"

instance
  by standard (auto simp: less_eq_log_level_def less_log_level_def level_value_inj)

end

record source_location =
  file_name :: string
  line :: nat

record log_message =
  timestamp :: nat
  level :: log_level
  message :: string
  source :: source_location

definition levelToString :: "log_level \<Rightarrow> string" where
  "levelToString l = (case l of
     Debug \<Rightarrow> ''DEBUG'' | Info \<Rightarrow> ''INFO'' | Warning \<Rightarrow> ''WARNING'' | Error \<Rightarrow> ''ERROR'')"

fun decimal :: "nat \<Rightarrow> string" where
  "decimal n = (if n < 10 then [char_of (48 + n)] else decimal (n div 10) @ [char_of (48 + n mod 10)])"

declare decimal.simps [simp del]

text \<open>The line \<open>writeMessage\<close> sends to the stream.\<close>

definition format_line :: "(nat \<Rightarrow> string) \<Rightarrow> (nat \<Rightarrow> string) \<Rightarrow> log_message \<Rightarrow> string" where
  "format_line fmtF fmtT m =
     ''['' @ fmtF (timestamp m) @ '' '' @ fmtT (timestamp m) @ ''] ['' @ levelToString (level m) @
     ''] ['' @ file_name (source m) @ '':'' @ decimal (line (source m)) @ ''] '' @ message m @ [CHR 10]"

text \<open>The text \<open>log\<close> enqueues: the formatted message, or a note of the format error.\<close>

definition formatted_message :: "string + string \<Rightarrow> string" where
  "formatted_message r = (case r of Inr text \<Rightarrow> text | Inl what \<Rightarrow> ''[Format error] '' @ what)"

section \<open>State and steps\<close>

datatype client_pc =
    LDone
  | LLevel log_message           \<comment> \<open>\<open>if (level < minLevel()) return\<close>\<close>
  | LPush log_message            \<comment> \<open>\<open>m_impl->queue.push\<close>\<close>
  | LCount                       \<comment> \<open>\<open>enqueued.fetch_add(1)\<close>\<close>
  | FTarget                      \<comment> \<open>\<open>target = enqueued.load()\<close>\<close>
  | FCheck u64                   \<comment> \<open>\<open>while (processed.load() < target)\<close>\<close>
  | FLoad u64                    \<comment> \<open>argument of \<open>processed.wait\<close>\<close>
  | FWait u64 u64                \<comment> \<open>compare with the argument, block if equal\<close>
  | FBlocked u64 u64
  | SClose                       \<comment> \<open>\<open>queue.close()\<close>: \<open>m_closed.store(true)\<close>\<close>
  | SNotify                      \<comment> \<open>\<open>queue.close()\<close>: \<open>m_notEmptyCv.notify_all()\<close>\<close>
  | SJoin                        \<comment> \<open>\<open>if (thread.joinable()) thread.join()\<close>\<close>
  | SetMin log_level
  | SetOut nat

datatype worker_pc =
    WPop                         \<comment> \<open>\<open>queue.pop()\<close>: lock, test the predicate, take the front if it holds\<close>
  | WWait                        \<comment> \<open>the predicate was false; the mutex of the queue is still held\<close>
  | WAsleep                      \<comment> \<open>inside \<open>m_notEmptyCv.wait\<close>, the mutex released\<close>
  | WOutput log_message          \<comment> \<open>\<open>output.load()\<close>\<close>
  | WWrite nat log_message       \<comment> \<open>write the line to the stream\<close>
  | WCount                       \<comment> \<open>\<open>processed.fetch_add(1)\<close>\<close>
  | WNotify                      \<comment> \<open>\<open>processed.notify_all()\<close>\<close>
  | WExit

record logger =
  minLevel :: log_level
  outStream :: nat
  queue :: "log_message bbq"
  enqueued :: u64
  processed :: u64
  joinable :: bool
  worker :: worker_pc
  clients :: "client_pc list"
  written :: "(nat \<times> log_message) list"

definition queue_capacity :: nat where
  "queue_capacity = 1000"

definition logger_new :: "nat \<Rightarrow> logger" where
  "logger_new n = \<lparr>minLevel = Debug, outStream = 0, queue = bbq_new queue_capacity, enqueued = 0,
     processed = 0, joinable = True, worker = WPop, clients = replicate n LDone, written = []\<rparr>"

text \<open>A call of \<open>log\<close> gives the level, the location, the outcome of \<open>vformat\<close> and the time.\<close>

datatype logger_op =
    OpLog log_level source_location "string + string" nat
  | OpFlush | OpShutdown | OpSetMinLevel log_level | OpSetOutput nat

definition make_message :: "log_level \<Rightarrow> source_location \<Rightarrow> string + string \<Rightarrow> nat \<Rightarrow> log_message" where
  "make_message l loc r now =
     \<lparr>timestamp = now, level = l, message = formatted_message r, source = loc\<rparr>"

fun logger_call :: "logger_op \<Rightarrow> client_pc" where
  "logger_call (OpLog l loc r now) = LLevel (make_message l loc r now)"
| "logger_call OpFlush = FTarget"
| "logger_call OpShutdown = SClose"
| "logger_call (OpSetMinLevel l) = SetMin l"
| "logger_call (OpSetOutput os) = SetOut os"

text \<open>\<open>LSpurious\<close> is a spurious wake-up of \<open>atomic::wait\<close>, which compares again, \<open>WSpurious\<close> one of
  the condition variable, after which the worker tests the predicate again.\<close>

datatype logger_act = LCall tid logger_op | LStep tid | LSpurious tid | WStep | WSpurious

definition lgoto :: "tid \<Rightarrow> client_pc \<Rightarrow> logger \<Rightarrow> logger" where
  "lgoto t p s = s\<lparr>clients := (clients s)[t := p]\<rparr>"

text \<open>A notification of \<open>m_notEmptyCv\<close> reaches the worker only if it sleeps. A push needs the mutex
  of the queue, which the worker holds from the test of its predicate until it sleeps; \<open>close\<close> needs
  no mutex, so its store and its notification can both fall into that window.\<close>

fun wake_worker :: "worker_pc \<Rightarrow> worker_pc" where
  "wake_worker WAsleep = WPop"
| "wake_worker p = p"

fun client_step :: "tid \<Rightarrow> client_pc \<Rightarrow> logger \<Rightarrow> logger option" where
  "client_step t (LLevel m) s = Some (lgoto t (if level m < minLevel s then LDone else LPush m) s)"
| "client_step t (LPush m) s =
     (if worker s = WWait then None
      else case bbq_push m (queue s) of
        None \<Rightarrow> None
      | Some (pushed, q) \<Rightarrow>
          Some (if pushed then lgoto t LCount (s\<lparr>queue := q, worker := wake_worker (worker s)\<rparr>)
                else lgoto t LDone (s\<lparr>queue := q\<rparr>)))"
| "client_step t LCount s = Some (lgoto t LDone (s\<lparr>enqueued := enqueued s + 1\<rparr>))"
| "client_step t FTarget s = Some (lgoto t (FCheck (enqueued s)) s)"
| "client_step t (FCheck target) s =
     Some (lgoto t (if processed s < target then FLoad target else LDone) s)"
| "client_step t (FLoad target) s = Some (lgoto t (FWait target (processed s)) s)"
| "client_step t (FWait target old) s =
     Some (lgoto t (if processed s = old then FBlocked target old else FCheck target) s)"
| "client_step t (FBlocked target old) s = None"
| "client_step t SClose s = Some (lgoto t SNotify (s\<lparr>queue := bbq_close (queue s)\<rparr>))"
| "client_step t SNotify s = Some (lgoto t SJoin (s\<lparr>worker := wake_worker (worker s)\<rparr>))"
| "client_step t SJoin s =
     (if joinable s then guarded (worker s = WExit) (lgoto t LDone (s\<lparr>joinable := False\<rparr>))
      else Some (lgoto t LDone s))"
| "client_step t (SetMin l) s = Some (lgoto t LDone (s\<lparr>minLevel := l\<rparr>))"
| "client_step t (SetOut os) s = Some (lgoto t LDone (s\<lparr>outStream := os\<rparr>))"
| "client_step t LDone s = None"

fun release_flush :: "client_pc \<Rightarrow> client_pc" where
  "release_flush (FBlocked target old) = FWait target old"
| "release_flush p = p"

fun worker_step :: "worker_pc \<Rightarrow> logger \<Rightarrow> logger option" where
  "worker_step WPop s =
     (case bbq_pop (queue s) of
        None \<Rightarrow> Some (s\<lparr>worker := WWait\<rparr>)
      | Some (None, q) \<Rightarrow> Some (s\<lparr>queue := q, worker := WExit\<rparr>)
      | Some (Some m, q) \<Rightarrow> Some (s\<lparr>queue := q, worker := WOutput m\<rparr>))"
| "worker_step WWait s = Some (s\<lparr>worker := WAsleep\<rparr>)"
| "worker_step WAsleep s = None"
| "worker_step (WOutput m) s = Some (s\<lparr>worker := WWrite (outStream s) m\<rparr>)"
| "worker_step (WWrite os m) s = Some (s\<lparr>worker := WCount, written := written s @ [(os, m)]\<rparr>)"
| "worker_step WCount s = Some (s\<lparr>worker := WNotify, processed := processed s + 1\<rparr>)"
| "worker_step WNotify s = Some (s\<lparr>worker := WPop, clients := map release_flush (clients s)\<rparr>)"
| "worker_step WExit s = None"

fun logger_exec :: "logger_act \<Rightarrow> logger \<Rightarrow> logger option" where
  "logger_exec (LCall t oper) s =
     guarded (t < length (clients s) \<and> clients s ! t = LDone) (lgoto t (logger_call oper) s)"
| "logger_exec (LStep t) s =
     (if t < length (clients s) then client_step t (clients s ! t) s else None)"
| "logger_exec (LSpurious t) s =
     (if t < length (clients s)
      then (case clients s ! t of
              FBlocked target old \<Rightarrow> Some (lgoto t (FWait target old) s)
            | _ \<Rightarrow> None)
      else None)"
| "logger_exec WStep s = worker_step (worker s) s"
| "logger_exec WSpurious s = guarded (worker s = WAsleep) (s\<lparr>worker := WPop\<rparr>)"

definition logger_init :: "logger \<Rightarrow> bool" where
  "logger_init s \<longleftrightarrow> (\<exists>n. s = logger_new n)"

text \<open>The lines sent to one stream, as the program sees them.\<close>

definition stream_lines :: "(nat \<Rightarrow> string) \<Rightarrow> (nat \<Rightarrow> string) \<Rightarrow> nat \<Rightarrow> logger \<Rightarrow> string list" where
  "stream_lines fmtF fmtT os s =
     map (\<lambda>(os', m). format_line fmtF fmtT m) (filter (\<lambda>(os', m). os' = os) (written s))"

section \<open>Invariant\<close>

text \<open>The messages accepted so far: written, in the worker's hands, or queued.\<close>

fun in_hand :: "worker_pc \<Rightarrow> log_message list" where
  "in_hand (WOutput m) = [m]"
| "in_hand (WWrite os m) = [m]"
| "in_hand _ = []"

definition accepted :: "logger \<Rightarrow> log_message list" where
  "accepted s = map snd (written s) @ in_hand (worker s) @ m_deque (queue s)"

fun uncounted :: "worker_pc \<Rightarrow> nat" where
  "uncounted WCount = 1"
| "uncounted _ = 0"

definition logger_inv :: "logger \<Rightarrow> bool" where
  "logger_inv s \<longleftrightarrow>
     enqueued s + of_nat (cnt (\<lambda>p. p = LCount) (clients s)) = of_nat (length (accepted s)) \<and>
     processed s + of_nat (uncounted (worker s)) = of_nat (length (written s)) \<and>
     cnt (\<lambda>p. p = LCount) (clients s) \<le> length (accepted s) \<and>
     uncounted (worker s) \<le> length (written s) \<and>
     length (m_deque (queue s)) \<le> queue_capacity \<and> m_dequeMaxSize (queue s) = queue_capacity \<and>
     (worker s = WExit \<longrightarrow> m_closed (queue s) \<and> m_deque (queue s) = []) \<and>
     (\<not> joinable s \<longrightarrow> worker s = WExit)"

text \<open>The step at which a message is accepted.\<close>

fun logger_lin :: "logger_act \<Rightarrow> logger \<Rightarrow> log_message option" where
  "logger_lin (LStep t) s =
     (case clients s ! t of LPush m \<Rightarrow> (if m_closed (queue s) then None else Some m) | _ \<Rightarrow> None)"
| "logger_lin _ s = None"

text \<open>A client inside \<open>flush\<close>, with its target; what holds of it while it waits for \<open>n\<close> messages.\<close>

fun flushing :: "client_pc \<Rightarrow> u64 option" where
  "flushing (FCheck target) = Some target"
| "flushing (FLoad target) = Some target"
| "flushing (FWait target old) = Some target"
| "flushing (FBlocked target old) = Some target"
| "flushing _ = None"

definition flush_inv :: "tid \<Rightarrow> nat \<Rightarrow> logger \<Rightarrow> bool" where
  "flush_inv t n s \<longleftrightarrow> t < length (clients s) \<and>
     ((\<exists>target. flushing (clients s ! t) = Some target \<and> unat target = n) \<or>
      clients s ! t = LDone \<and> n \<le> length (written s))"




definition level_inv :: "log_level \<Rightarrow> nat \<Rightarrow> logger \<Rightarrow> bool" where
  "level_inv l n s \<longleftrightarrow> l \<le> minLevel s \<and> n \<le> length (accepted s) \<and>
     (\<forall>m \<in> set (drop n (accepted s)). l \<le> level m) \<and>
     (\<forall>m. LPush m \<in> set (clients s) \<longrightarrow> l \<le> level m) \<and>
     (\<forall>l'. SetMin l' \<in> set (clients s) \<longrightarrow> l \<le> l')"

definition raises_level :: "log_level \<Rightarrow> logger_act \<Rightarrow> bool" where
  "raises_level l a \<longleftrightarrow> (\<forall>t l'. a = LCall t (OpSetMinLevel l') \<longrightarrow> l \<le> l')"

definition stream_inv :: "nat \<Rightarrow> logger \<Rightarrow> bool" where
  "stream_inv os s \<longleftrightarrow> outStream s = os \<and> list_all (\<lambda>w. fst w = os) (written s) \<and>
     (\<forall>os'. SetOut os' \<notin> set (clients s)) \<and> (\<forall>os' m. worker s = WWrite os' m \<longrightarrow> os' = os)"

definition keeps_output :: "logger_act \<Rightarrow> bool" where
  "keeps_output a \<longleftrightarrow> (case a of LCall t (OpSetOutput os) \<Rightarrow> False | _ \<Rightarrow> True)"

definition flush_hung :: "logger \<Rightarrow> bool" where
  "flush_hung s \<longleftrightarrow> clients s \<in> {[FWait 1 1], [FBlocked 1 1]} \<and> processed s = 1 \<and>
     worker s \<in> {WPop, WWait, WAsleep} \<and>
     m_deque (queue s) = [] \<and> \<not> m_closed (queue s)"

text \<open>Concrete schedules.\<close>

definition ex_loc :: source_location where
  "ex_loc = \<lparr>file_name = ''main.cpp'', line = 42\<rparr>"

definition ex_msg :: log_message where
  "ex_msg = make_message Info ex_loc (Inr ''started'') 7"

definition ex_log :: logger_op where
  "ex_log = OpLog Info ex_loc (Inr ''started'') 7"

definition shutdown_schedule :: "logger_act list" where
  "shutdown_schedule =
     [LCall 0 ex_log, LStep 0, LStep 0, LStep 0, LCall 0 OpShutdown, LStep 0,
      LStep 0, WStep, WStep, WStep, WStep, WStep, WStep, LStep 0]"

definition missed_close_schedule :: "logger_act list" where
  "missed_close_schedule = [WStep, LCall 0 OpShutdown, LStep 0, LStep 0, WStep]"

definition level_schedule :: "logger_act list" where
  "level_schedule =
     [LCall 0 ex_log, LStep 0, LCall 0 (OpLog Error ex_loc (Inr ''failed'') 9), LStep 0, LStep 0]"

definition ex_msg2 :: log_message where
  "ex_msg2 = make_message Error ex_loc (Inl ''bad'') 8"

definition early_flush_schedule :: "logger_act list" where
  "early_flush_schedule =
     [LCall 0 ex_log, LStep 0, LStep 0,
      LCall 1 (OpLog Error ex_loc (Inl ''bad'') 8), LStep 1, LStep 1, LStep 1,
      WStep, WStep, WStep, WStep, WStep,
      LCall 1 OpFlush, LStep 1, LStep 1]"

definition flush_hang_schedule :: "logger_act list" where
  "flush_hang_schedule =
     [LCall 0 ex_log, LStep 0, LStep 0, LStep 0, LCall 0 OpFlush, LStep 0, LStep 0,
      WStep, WStep, WStep, WStep, WStep, LStep 0, LStep 0]"

section \<open>Lemmas\<close>

lemma lgoto_simps [simp]:
  "minLevel (lgoto t p s) = minLevel s" "outStream (lgoto t p s) = outStream s" "queue (lgoto t p s) = queue s"
  "enqueued (lgoto t p s) = enqueued s" "processed (lgoto t p s) = processed s"
  "joinable (lgoto t p s) = joinable s" "worker (lgoto t p s) = worker s"
  "written (lgoto t p s) = written s" "clients (lgoto t p s) = (clients s)[t := p]"
  by (simp_all add: lgoto_def)

lemma accepted_lgoto [simp]: "accepted (lgoto t p s) = accepted s"
  by (simp add: accepted_def)

lemma logger_call_not_count: "logger_call oper \<noteq> LCount"
  by (cases oper) auto

lemma wake_worker_simps [simp]:
  "in_hand (wake_worker p) = in_hand p" "uncounted (wake_worker p) = uncounted p"
  "wake_worker p = WExit \<longleftrightarrow> p = WExit" "wake_worker p = WWrite os m \<longleftrightarrow> p = WWrite os m"
  "wake_worker p = WOutput m \<longleftrightarrow> p = WOutput m"
  by (cases p; simp)+

lemma release_flush_count [simp]: "release_flush p = LCount \<longleftrightarrow> p = LCount"
  by (cases p) auto

lemma bbq_push_cases:
  assumes "bbq_push v q = Some (b, q')"
  shows "b \<and> \<not> m_closed q \<and> length (m_deque q) < m_dequeMaxSize q \<and> q' = q\<lparr>m_deque := m_deque q @ [v]\<rparr> \<or>
     \<not> b \<and> m_closed q \<and> q' = q"
  using assms by (auto simp: bbq_push_def bbq_emplace_def not_full_pred_def split: if_splits)

lemma bbq_pop_cases:
  assumes "bbq_pop q = Some (r, q')"
  shows "(\<exists>v vs. r = Some v \<and> m_deque q = v # vs \<and> q' = q\<lparr>m_deque := vs\<rparr>) \<or>
     r = None \<and> m_deque q = [] \<and> m_closed q \<and> q' = q"
  using assms by (auto simp: bbq_pop_def not_empty_pred_def split: if_splits list.splits)

text \<open>Every action appends the message it accepts, if any, and changes nothing else of the sequence
  of accepted messages.\<close>

lemma accepted_exec:
  assumes "logger_exec a s = Some s'"
  shows "accepted s' = accepted s @ (case logger_lin a s of None \<Rightarrow> [] | Some m \<Rightarrow> [m])"
proof (cases a)
  case (LCall t oper)
  with assms show ?thesis by auto
next
  case (LStep t)
  with assms have "t < length (clients s)" "client_step t (clients s ! t) s = Some s'"
    by (auto split: if_splits)
  with LStep show ?thesis
    by (cases "clients s ! t")
      (auto simp: accepted_def bbq_close_def dest!: bbq_push_cases split: option.splits if_splits)
next
  case (LSpurious t)
  with assms show ?thesis by (auto split: if_splits client_pc.splits)
next
  case WStep
  with assms show ?thesis
    by (cases "worker s") (auto simp: accepted_def dest!: bbq_pop_cases split: option.splits)
next
  case WSpurious
  with assms show ?thesis by (auto simp: accepted_def)
qed

lemma logger_inv_client:
  assumes "logger_inv s" "t < length (clients s)" "client_step t (clients s ! t) s = Some s'"
  shows "logger_inv s'"
  using assms cnt_pos [OF assms(2), of "\<lambda>p. p = LCount"]
  by (cases "clients s ! t")
    (auto simp: logger_inv_def cnt_update accepted_def bbq_close_def algebra_simps dest!: bbq_push_cases split: option.splits if_splits)

lemma logger_inv_worker:
  assumes "logger_inv s" "worker_step (worker s) s = Some s'"
  shows "logger_inv s'"
  using assms
  by (cases "worker s")
    (auto simp: logger_inv_def accepted_def cnt_map algebra_simps dest!: bbq_pop_cases split: option.splits if_splits)

lemma logger_inv_init: "logger_init s \<Longrightarrow> logger_inv s"
  by (auto simp: logger_init_def logger_new_def logger_inv_def accepted_def bbq_new_def cnt_def)

interpretation lg: invariant_system logger_init logger_exec logger_inv
proof unfold_locales
  fix a s s'
  assume inv: "logger_inv s" and ex: "logger_exec a s = Some s'"
  show "logger_inv s'"
  proof (cases a)
    case (LCall t oper)
    with ex inv logger_call_not_count [of oper] show ?thesis
      by (auto simp: logger_inv_def cnt_update)
  next
    case (LStep t)
    with ex inv show ?thesis by (auto split: if_splits intro: logger_inv_client)
  next
    case (LSpurious t)
    with ex inv show ?thesis
      by (auto simp: logger_inv_def cnt_update split: if_splits client_pc.splits)
  next
    case WStep
    with ex inv show ?thesis by (auto intro: logger_inv_worker)
  next
    case WSpurious
    with ex inv show ?thesis by (auto simp: logger_inv_def accepted_def)
  qed
qed (rule logger_inv_init)

lemma accepted_run:
  "run logger_exec as s = Some s' \<Longrightarrow> accepted s' = accepted s @ events logger_exec logger_lin as s"
proof (induction as arbitrary: s)
  case (Cons a as)
  then obtain u where u: "logger_exec a s = Some u" "run logger_exec as u = Some s'"
    by (auto split: option.splits)
  with Cons.IH [OF u(2)] accepted_exec [OF u(1)] show ?case by (simp split: option.splits)
qed simp

lemma written_exec: "logger_exec a s = Some s' \<Longrightarrow> \<exists>ws. written s' = written s @ ws"
proof (cases a)
  case (LStep t)
  moreover assume "logger_exec a s = Some s'"
  ultimately show ?thesis by (cases "clients s ! t") (auto split: if_splits option.splits prod.splits)
next
  case WStep
  moreover assume "logger_exec a s = Some s'"
  ultimately show ?thesis by (cases "worker s") (auto split: option.splits prod.splits)
qed (auto split: if_splits client_pc.splits)

subsection \<open>Flush\<close>

lemma processed_le_written: "logger_inv s \<Longrightarrow> unat (processed s) \<le> length (written s)"
proof -
  assume "logger_inv s"
  then have "processed s = of_nat (length (written s) - uncounted (worker s))"
    by (auto simp: logger_inv_def of_nat_diff algebra_simps)
  then have "unat (processed s) = (length (written s) - uncounted (worker s)) mod 2 ^ 64"
    by (simp add: unat_of_nat)
  also have "\<dots> \<le> length (written s) - uncounted (worker s)" by (rule mod_less_eq_dividend)
  finally show ?thesis by simp
qed

lemma flushing_release [simp]: "flushing (release_flush p) = flushing p" "release_flush p = LDone \<longleftrightarrow> p = LDone"
  by (cases p; simp)+

lemma clients_length_exec: "logger_exec a s = Some s' \<Longrightarrow> length (clients s') = length (clients s)"
proof (cases a)
  case (LStep t)
  moreover assume "logger_exec a s = Some s'"
  ultimately show ?thesis by (cases "clients s ! t") (auto split: if_splits option.splits prod.splits)
next
  case WStep
  moreover assume "logger_exec a s = Some s'"
  ultimately show ?thesis by (cases "worker s") (auto split: option.splits prod.splits)
qed (auto split: if_splits client_pc.splits)

lemma clients_exec:
  assumes "logger_exec a s = Some s'" "a \<noteq> LStep t" "\<And>oper. a \<noteq> LCall t oper"
  shows "length (clients s') = length (clients s) \<and> (t < length (clients s) \<longrightarrow>
     flushing (clients s' ! t) = flushing (clients s ! t) \<and>
     (clients s' ! t = LDone \<longleftrightarrow> clients s ! t = LDone))"
proof (cases a)
  case (LCall u oper)
  with assms(3) have "u \<noteq> t" by auto
  with LCall assms(1) show ?thesis by auto
next
  case (LStep u)
  with assms(2) have "u \<noteq> t" by auto
  with LStep assms(1) clients_length_exec [OF assms(1)] show ?thesis
    by (cases "clients s ! u") (auto split: if_splits option.splits prod.splits)
next
  case (LSpurious u)
  with assms(1) show ?thesis
    by (auto simp: nth_list_update split: if_splits client_pc.splits)
next
  case WStep
  with assms(1) show ?thesis
    by (cases "worker s") (auto split: option.splits prod.splits)
next
  case WSpurious
  with assms(1) show ?thesis by auto
qed

lemma flush_inv_exec:
  assumes "flush_inv t n s" "logger_inv s" "logger_exec a s = Some s'" "\<And>oper. a \<noteq> LCall t oper"
  shows "flush_inv t n s'"
proof -
  from written_exec [OF assms(3)] obtain ws where ws: "written s' = written s @ ws" by blast
  show ?thesis
  proof (cases "a = LStep t")
    case True
    with assms(1,3) processed_le_written [OF assms(2)] show ?thesis
      by (cases "clients s ! t") (auto simp: flush_inv_def word_less_nat_alt split: if_splits)
  next
    case False
    with clients_exec [OF assms(3) False assms(4)] assms(1) ws show ?thesis
      by (auto simp: flush_inv_def)
  qed
qed

lemma flush_inv_run:
  "flush_inv t n s \<Longrightarrow> logger_inv s \<Longrightarrow> run logger_exec as s = Some s' \<Longrightarrow>
     (\<forall>oper. LCall t oper \<notin> set as) \<Longrightarrow> flush_inv t n s'"
proof (induction as arbitrary: s)
  case (Cons a as)
  then obtain u where u: "logger_exec a s = Some u" "run logger_exec as u = Some s'"
    by (auto split: option.splits)
  have "flush_inv t n u" using Cons.prems(1,2) u(1) by (rule flush_inv_exec) (use Cons.prems(4) in auto)
  moreover have "logger_inv u" using Cons.prems(2) u(1) by (rule lg.inv_exec)
  ultimately show ?case using Cons.IH u(2) Cons.prems(4) by auto
qed simp

subsection \<open>Shutdown\<close>

lemma accepted_lin_closed: "m_closed (queue s) \<Longrightarrow> logger_lin a s = None"
  by (cases a) (auto split: client_pc.splits)

lemma worker_exit_exec:
  assumes "worker s = WExit" "logger_exec a s = Some s'" "m_closed (queue s)"
  shows "worker s' = WExit \<and> written s' = written s \<and> m_closed (queue s')"
proof (cases a)
  case (LStep t)
  with assms show ?thesis
    by (cases "clients s ! t")
      (auto simp: bbq_close_def dest!: bbq_push_cases split: if_splits option.splits prod.splits)
next
  case (LSpurious t)
  with assms show ?thesis by (auto split: if_splits client_pc.splits)
qed (use assms in auto)

lemma worker_exit_run:
  "worker s = WExit \<Longrightarrow> m_closed (queue s) \<Longrightarrow> run logger_exec as s = Some s' \<Longrightarrow>
     written s' = written s \<and> accepted s' = accepted s"
proof (induction as arbitrary: s)
  case (Cons a as)
  then obtain u where u: "logger_exec a s = Some u" "run logger_exec as u = Some s'"
    by (auto split: option.splits)
  from worker_exit_exec [OF Cons.prems(1) u(1) Cons.prems(2)] Cons.IH [OF _ _ u(2)]
    accepted_exec [OF u(1)] accepted_lin_closed [OF Cons.prems(2), of a]
  show ?case by simp
qed simp






subsection \<open>Minimum level and output stream\<close>

lemma release_flush_keeps [simp]:
  "release_flush p = LPush m \<longleftrightarrow> p = LPush m" "release_flush p = SetMin l \<longleftrightarrow> p = SetMin l"
  "release_flush p = SetOut os \<longleftrightarrow> p = SetOut os"
  "LPush m = release_flush p \<longleftrightarrow> p = LPush m" "SetMin l = release_flush p \<longleftrightarrow> p = SetMin l"
  "SetOut os = release_flush p \<longleftrightarrow> p = SetOut os"
  by (cases p; auto)+

lemma level_inv_exec:
  assumes "level_inv l n s" "logger_exec a s = Some s'" "raises_level l a"
  shows "level_inv l n s'"
proof (cases a)
  case (LCall t oper)
  with assms show ?thesis
    by (cases oper) (auto simp: level_inv_def raises_level_def dest!: set_update_cases)
next
  case (LStep t)
  with assms(2) have t: "t < length (clients s)" "client_step t (clients s ! t) s = Some s'"
    by (auto split: if_splits)
  then have "clients s ! t \<in> set (clients s)" by simp
  with LStep t assms(1) accepted_exec [OF assms(2)] show ?thesis
    by (cases "clients s ! t")
      (auto simp: level_inv_def dest!: bbq_push_cases set_update_cases split: if_splits option.splits)
next
  case (LSpurious t)
  with assms(1,2) show ?thesis
    by (auto simp: level_inv_def dest!: set_update_cases split: if_splits client_pc.splits)
next
  case WStep
  with assms(1,2) accepted_exec [OF assms(2)] show ?thesis
    by (cases "worker s") (auto simp: level_inv_def image_iff split: option.splits)
next
  case WSpurious
  with assms(1,2) show ?thesis by (auto simp: level_inv_def accepted_def)
qed

lemma level_inv_run:
  "level_inv l n s \<Longrightarrow> run logger_exec as s = Some s' \<Longrightarrow> list_all (raises_level l) as \<Longrightarrow> level_inv l n s'"
proof (induction as arbitrary: s)
  case (Cons a as)
  then show ?case using level_inv_exec [OF Cons.prems(1)] by (auto split: option.splits)
qed simp

lemma stream_inv_exec:
  assumes "stream_inv os s" "logger_exec a s = Some s'" "keeps_output a"
  shows "stream_inv os s'"
proof (cases a)
  case (LCall t oper)
  with assms show ?thesis
    by (cases oper) (auto simp: stream_inv_def keeps_output_def dest!: set_update_cases)
next
  case (LStep t)
  with assms(2) have t: "t < length (clients s)" "client_step t (clients s ! t) s = Some s'"
    by (auto split: if_splits)
  then have "clients s ! t \<in> set (clients s)" by simp
  with LStep t assms(1) show ?thesis
    by (cases "clients s ! t")
      (auto simp: stream_inv_def dest!: set_update_cases split: if_splits option.splits)
next
  case (LSpurious t)
  with assms(1,2) show ?thesis
    by (auto simp: stream_inv_def dest!: set_update_cases split: if_splits client_pc.splits)
next
  case WStep
  with assms(1,2) show ?thesis
    by (cases "worker s") (auto simp: stream_inv_def image_iff split: option.splits)
next
  case WSpurious
  with assms(1,2) show ?thesis by (auto simp: stream_inv_def)
qed

lemma stream_inv_run:
  "stream_inv os s \<Longrightarrow> run logger_exec as s = Some s' \<Longrightarrow> list_all keeps_output as \<Longrightarrow> stream_inv os s'"
proof (induction as arbitrary: s)
  case (Cons a as)
  then show ?case using stream_inv_exec [OF Cons.prems(1)] by (auto split: option.splits)
qed simp

lemma stream_lines_all: "stream_inv os s \<Longrightarrow> stream_lines F T os s = map (format_line F T) (map snd (written s))"
  by (auto simp: stream_inv_def stream_lines_def list_all_iff split_def filter_id_conv)

lemma counters_exact:
  assumes "logger_inv s" "length (accepted s) < 2 ^ 64"
  shows "unat (enqueued s) + cnt (\<lambda>p. p = LCount) (clients s) = length (accepted s)"
    and "unat (processed s) + uncounted (worker s) = length (written s)"
proof -
  have "enqueued s = of_nat (length (accepted s) - cnt (\<lambda>p. p = LCount) (clients s))"
    using assms(1) by (auto simp: logger_inv_def algebra_simps of_nat_diff)
  then have "unat (enqueued s) = length (accepted s) - cnt (\<lambda>p. p = LCount) (clients s)"
    using assms(2) by (simp add: unat_of_nat)
  then show "unat (enqueued s) + cnt (\<lambda>p. p = LCount) (clients s) = length (accepted s)"
    using assms(1) by (simp add: logger_inv_def)
  have le: "length (written s) \<le> length (accepted s)" by (simp add: accepted_def)
  have "processed s = of_nat (length (written s) - uncounted (worker s))"
    using assms(1) by (auto simp: logger_inv_def algebra_simps of_nat_diff)
  then have "unat (processed s) = length (written s) - uncounted (worker s)"
    using assms(2) le by (simp add: unat_of_nat)
  then show "unat (processed s) + uncounted (worker s) = length (written s)"
    using assms(1) by (simp add: logger_inv_def)
qed


section \<open>Properties\<close>

text \<open>C12. At every moment of every run the messages written, then the one the worker holds, then the
  queued ones, are exactly the accepted messages in the order in which their pushes took effect:
  nothing is lost, doubled or reordered on the way to the stream.\<close>

theorem logger_writes_in_order:
  assumes "run logger_exec as (logger_new n) = Some s"
  shows "map snd (written s) @ in_hand (worker s) @ m_deque (queue s) =
     events logger_exec logger_lin as (logger_new n)"
  using accepted_run [OF assms] by (simp add: accepted_def logger_new_def bbq_new_def)

theorem logger_writes_in_order_witness:
  "case run logger_exec [LCall 0 ex_log, LStep 0, LStep 0, WStep, WStep, LStep 0, WStep] (logger_new 1) of
     None \<Rightarrow> False
   | Some s \<Rightarrow> written s = [(0, ex_msg)] \<and>
       map snd (written s) @ in_hand (worker s) @ m_deque (queue s) =
       events logger_exec logger_lin [LCall 0 ex_log, LStep 0, LStep 0, WStep, WStep, LStep 0, WStep] (logger_new 1)"
proof -
  have "run logger_exec [LCall 0 ex_log, LStep 0, LStep 0, WStep, WStep, LStep 0, WStep] (logger_new 1) \<noteq> None"
    by code_simp
  then obtain s where s: "run logger_exec [LCall 0 ex_log, LStep 0, LStep 0, WStep, WStep, LStep 0, WStep] (logger_new 1) = Some s"
    by blast
  moreover have "map_option written (run logger_exec [LCall 0 ex_log, LStep 0, LStep 0, WStep, WStep, LStep 0, WStep] (logger_new 1)) = Some [(0, ex_msg)]"
    by code_simp
  ultimately show ?thesis using logger_writes_in_order [OF s] by simp
qed

text \<open>C30. Once a call of \<open>shutdown\<close> has joined the worker, every accepted message has been written, and
  nothing that any client does later is accepted or written.\<close>

theorem logger_shutdown_complete:
  assumes "reachable logger_init logger_exec s" "\<not> joinable s" "run logger_exec as s = Some s'"
  shows "map snd (written s) = accepted s \<and> written s' = written s \<and> accepted s' = accepted s"
proof -
  have "logger_inv s" using assms(1) by (rule lg.reachable_inv)
  with assms(2) have w: "worker s = WExit" "m_closed (queue s)" "m_deque (queue s) = []"
    by (auto simp: logger_inv_def)
  then have "map snd (written s) = accepted s" by (simp add: accepted_def)
  with worker_exit_run [OF w(1,2) assms(3)] show ?thesis by simp
qed

lemma new_reachable: "run logger_exec as (logger_new n) = Some s \<Longrightarrow> reachable logger_init logger_exec s"
  by (rule run_reachable [OF reachable.start]) (auto simp: logger_init_def)

theorem logger_shutdown_complete_witness:
  "\<exists>s s'. run logger_exec shutdown_schedule (logger_new 1) = Some s \<and>
     run logger_exec [LCall 0 ex_log, LStep 0, LStep 0] s = Some s' \<and> \<not> joinable s \<and>
     map snd (written s) = [ex_msg] \<and> accepted s = [ex_msg] \<and> written s' = written s \<and> accepted s' = [ex_msg]"
proof -
  let ?more = "[LCall 0 ex_log, LStep 0, LStep 0]"
  have "map_option (\<lambda>s. (joinable s, map snd (written s), run logger_exec ?more s \<noteq> None))
      (run logger_exec shutdown_schedule (logger_new 1)) = Some (False, [ex_msg], True)"
    by code_simp
  then obtain s s' where s: "run logger_exec shutdown_schedule (logger_new 1) = Some s" "\<not> joinable s"
    "map snd (written s) = [ex_msg]" "run logger_exec ?more s = Some s'" by auto
  with logger_shutdown_complete [OF new_reachable [OF s(1)] s(2,4)] show ?thesis by (simp del: run.simps)
qed



text \<open>While the minimum level is at least \<open>l\<close> and no call lowers it below \<open>l\<close>, every message
  accepted has level \<open>l\<close> or more.\<close>

theorem logger_min_level:
  assumes "run logger_exec as s = Some s'" "l \<le> minLevel s" "clients s = replicate n LDone"
    "list_all (raises_level l) as" "m \<in> set (drop (length (accepted s)) (accepted s'))"
  shows "l \<le> level m"
proof -
  have "level_inv l (length (accepted s)) s" using assms(2,3) by (auto simp: level_inv_def)
  from level_inv_run [OF this assms(1,4)] assms(5) show ?thesis by (auto simp: level_inv_def)
qed

theorem logger_min_level_witness:
  "\<exists>s'. run logger_exec level_schedule ((logger_new 1)\<lparr>minLevel := Warning\<rparr>) = Some s' \<and>
     accepted s' = [make_message Error ex_loc (Inr ''failed'') 9] \<and>
     Warning \<le> level (make_message Error ex_loc (Inr ''failed'') 9)"
proof -
  let ?s = "(logger_new 1)\<lparr>minLevel := Warning\<rparr>"
  have "map_option accepted (run logger_exec level_schedule ?s) = Some [make_message Error ex_loc (Inr ''failed'') 9]"
    by code_simp
  then obtain s' where s': "run logger_exec level_schedule ?s = Some s'"
    "accepted s' = [make_message Error ex_loc (Inr ''failed'') 9]" by auto
  have "Warning \<le> level (make_message Error ex_loc (Inr ''failed'') 9)"
    by (rule logger_min_level [OF s'(1), of Warning 1])
      (use s'(2) in \<open>auto simp: logger_new_def level_schedule_def raises_level_def ex_log_def accepted_def bbq_new_def\<close>)
  with s' show ?thesis by blast
qed

text \<open>C40. As long as fewer than \<open>2 ^ 64\<close> messages were accepted, \<open>enqueued\<close> is their number less the
  clients between their push and their count, \<open>processed\<close> is the number of written messages less
  the one the worker has not counted yet, and the queue never holds more than 1000.\<close>

theorem logger_counters:
  assumes "reachable logger_init logger_exec s" "length (accepted s) < 2 ^ 64"
  shows "unat (enqueued s) + cnt (\<lambda>p. p = LCount) (clients s) = length (accepted s) \<and>
     unat (processed s) + uncounted (worker s) = length (written s) \<and> length (m_deque (queue s)) \<le> 1000"
proof -
  have inv: "logger_inv s" using assms(1) by (rule lg.reachable_inv)
  with counters_exact [OF inv assms(2)] show ?thesis by (simp add: logger_inv_def queue_capacity_def)
qed

theorem logger_counters_witness:
  "\<exists>s. run logger_exec (take 10 shutdown_schedule) (logger_new 1) = Some s \<and> enqueued s = 1 \<and>
     unat (enqueued s) + cnt (\<lambda>p. p = LCount) (clients s) = length (accepted s) \<and>
     unat (processed s) + uncounted (worker s) = length (written s) \<and> length (m_deque (queue s)) \<le> 1000"
proof -
  have "map_option (\<lambda>s. (enqueued s, accepted s)) (run logger_exec (take 10 shutdown_schedule) (logger_new 1)) =
      Some (1, [ex_msg])"
    by code_simp
  then obtain s where s: "run logger_exec (take 10 shutdown_schedule) (logger_new 1) = Some s"
    "enqueued s = 1" "accepted s = [ex_msg]" by auto
  from logger_counters [OF new_reachable [OF s(1)]] s show ?thesis by simp
qed

text \<open>C32. \<open>flush\<close>: if no client is between its push and its count when \<open>flush\<close> reads its target, then
  when it returns every message accepted before that moment has been written.\<close>

theorem logger_flush_complete:
  assumes "reachable logger_init logger_exec s" "t < length (clients s)" "clients s ! t = FTarget"
    "LCount \<notin> set (clients s)" "length (accepted s) < 2 ^ 64"
    "run logger_exec (LStep t # as) s = Some s'" "\<forall>oper. LCall t oper \<notin> set as" "clients s' ! t = LDone"
  shows "take (length (accepted s)) (map snd (written s')) = accepted s"
proof -
  have inv: "logger_inv s" using assms(1) by (rule lg.reachable_inv)
  have "cnt (\<lambda>p. p = LCount) (clients s) = 0" using assms(4) by (auto simp: cnt_zero_iff)
  then have tgt: "unat (enqueued s) = length (accepted s)" using counters_exact [OF inv assms(5)] by simp
  obtain u where u: "logger_exec (LStep t) s = Some u" "run logger_exec as u = Some s'"
    using assms(6) by (auto split: option.splits)
  have fi: "flush_inv t (length (accepted s)) u"
    using u(1) assms(2,3) tgt by (auto simp: flush_inv_def)
  have iu: "logger_inv u" using inv u(1) by (rule lg.inv_exec)
  have "flush_inv t (length (accepted s)) s'" using fi iu u(2) assms(7) by (rule flush_inv_run)
  then have le: "length (accepted s) \<le> length (written s')" using assms(8) by (auto simp: flush_inv_def)
  have "accepted s' = accepted s @ events logger_exec logger_lin (LStep t # as) s"
    using assms(6) by (rule accepted_run)
  then have "take (length (accepted s)) (accepted s') = accepted s" by simp
  with le show ?thesis by (simp add: accepted_def)
qed

theorem logger_flush_complete_witness:
  "\<exists>s s'. run logger_exec [LCall 0 ex_log, LStep 0, LStep 0, LStep 0, LCall 0 OpFlush] (logger_new 1) = Some s \<and>
     run logger_exec [LStep 0, LStep 0, LStep 0, LStep 0, LSpurious 0, LStep 0, WStep, WStep, WStep, WStep, WStep,
       LStep 0, LStep 0] s = Some s' \<and> clients s' = [LDone] \<and>
     take (length (accepted s)) (map snd (written s')) = accepted s \<and> accepted s = [ex_msg]"
proof -
  let ?a = "[LCall 0 ex_log, LStep 0, LStep 0, LStep 0, LCall 0 OpFlush]"
  let ?b = "[LStep 0, LStep 0, LStep 0, LSpurious 0, LStep 0, WStep, WStep, WStep, WStep, WStep, LStep 0, LStep 0]"
  have "map_option (\<lambda>s. (clients s, accepted s, map_option clients (run logger_exec (LStep 0 # ?b) s)))
      (run logger_exec ?a (logger_new 1)) = Some ([FTarget], [ex_msg], Some [LDone])"
    by code_simp
  then obtain s s' where s: "run logger_exec ?a (logger_new 1) = Some s" "clients s = [FTarget]"
    "accepted s = [ex_msg]" "run logger_exec (LStep 0 # ?b) s = Some s'" "clients s' = [LDone]"
    by (auto simp del: run.simps)
  have "take (length (accepted s)) (map snd (written s')) = accepted s"
    by (rule logger_flush_complete [OF new_reachable [OF s(1)] _ _ _ _ s(4)]) (use s(2,3,5) in auto)
  with s show ?thesis by (auto simp del: run.simps)
qed

text \<open>The default stream receives, when \<open>setOutput\<close> is never called, the formatted lines of the
  accepted messages in order; those not written yet are in the worker's hands or queued.\<close>

theorem logger_default_stream:
  assumes "run logger_exec as (logger_new n) = Some s" "list_all keeps_output as"
  shows "stream_lines F T 0 s @ map (format_line F T) (in_hand (worker s) @ m_deque (queue s)) =
     map (format_line F T) (events logger_exec logger_lin as (logger_new n))"
proof -
  have "stream_inv 0 (logger_new n)" by (auto simp: stream_inv_def logger_new_def)
  from stream_inv_run [OF this assms] have "stream_lines F T 0 s = map (format_line F T) (map snd (written s))"
    by (rule stream_lines_all)
  moreover have "accepted (logger_new n) = []" by (simp add: accepted_def logger_new_def bbq_new_def)
  with accepted_run [OF assms(1)]
  have "map (format_line F T) (accepted s) = map (format_line F T) (events logger_exec logger_lin as (logger_new n))"
    by simp
  ultimately show ?thesis by (simp add: accepted_def)
qed

theorem logger_default_stream_witness:
  "\<exists>s. run logger_exec (take 10 shutdown_schedule) (logger_new 1) = Some s \<and>
     stream_lines (\<lambda>t. ''2024-01-01'') (\<lambda>t. ''12:00:00'') 0 s =
       [''[2024-01-01 12:00:00] [INFO] [main.cpp:42] started'' @ [CHR 10]]"
proof -
  let ?F = "\<lambda>t::nat. ''2024-01-01''" and ?T = "\<lambda>t::nat. ''12:00:00''"
  have "map_option (\<lambda>s. (in_hand (worker s), m_deque (queue s))) (run logger_exec (take 10 shutdown_schedule) (logger_new 1)) =
      Some ([], [])"
    by code_simp
  then obtain s where s: "run logger_exec (take 10 shutdown_schedule) (logger_new 1) = Some s"
    "in_hand (worker s) = []" "m_deque (queue s) = []" by auto
  have "list_all keeps_output (take 10 shutdown_schedule)" by code_simp
  from logger_default_stream [OF s(1) this, of ?F ?T] s(2,3)
  have "stream_lines ?F ?T 0 s = map (format_line ?F ?T)
      (events logger_exec logger_lin (take 10 shutdown_schedule) (logger_new 1))" by simp
  also have "\<dots> = [''[2024-01-01 12:00:00] [INFO] [main.cpp:42] started'' @ [CHR 10]]" by code_simp
  finally show ?thesis using s by blast
qed

text \<open>\<open>enqueue\<close> counts a message only after it was pushed: a run in which client 0 has pushed but not
  counted, client 1 logs a message (its \<open>log\<close> returns) and flushes, and \<open>flush\<close> returns although the
  message of client 1 is still in the queue.\<close>

theorem logger_flush_returns_early:
  "\<exists>s. run logger_exec early_flush_schedule (logger_new 2) = Some s \<and> clients s = [LCount, LDone] \<and>
     accepted s = [ex_msg, ex_msg2] \<and> map snd (written s) = [ex_msg]"
proof -
  have "map_option (\<lambda>s. (clients s, accepted s, map snd (written s)))
      (run logger_exec early_flush_schedule (logger_new 2)) = Some ([LCount, LDone], [ex_msg, ex_msg2], [ex_msg])"
    by code_simp
  then show ?thesis by auto
qed

text \<open>\<open>close\<close> stores and notifies without the mutex. A worker that found its queue empty and open but
  does not sleep yet misses both: after this schedule it sleeps on a closed queue, and without a
  spurious wake-up \<open>shutdown\<close> (and the destructor, which calls it) never returns from the join.\<close>

lemma missed_close_exec:
  assumes "worker s = WAsleep" "clients s = [SJoin]" "joinable s" "logger_exec a s = Some s'" "a \<noteq> WSpurious"
  shows False
  using assms by (cases a) (auto split: if_splits)

theorem logger_shutdown_can_hang:
  "\<exists>s. run logger_exec missed_close_schedule (logger_new 1) = Some s \<and> m_closed (queue s) \<and>
     clients s = [SJoin] \<and> (\<forall>a. a \<noteq> WSpurious \<longrightarrow> logger_exec a s = None)"
proof -
  have "map_option (\<lambda>s. (m_closed (queue s), clients s, worker s, joinable s))
      (run logger_exec missed_close_schedule (logger_new 1)) = Some (True, [SJoin], WAsleep, True)"
    by code_simp
  then obtain s where s: "run logger_exec missed_close_schedule (logger_new 1) = Some s" "m_closed (queue s)"
    "clients s = [SJoin]" "worker s = WAsleep" "joinable s" by auto
  have "logger_exec a s = None" if "a \<noteq> WSpurious" for a
    using missed_close_exec [OF s(4,3,5) _ that] by (cases "logger_exec a s") auto
  with s(1-3) show ?thesis by blast
qed

text \<open>\<open>flush\<close> loads the counter a second time for \<open>processed.wait\<close>: if the worker counts and notifies
  between the test and that load, \<open>flush\<close> waits for a change of the final value. After this
  schedule everything is written and the client never returns, spurious wake-ups or not.\<close>

lemma flush_hung_exec: "flush_hung s \<Longrightarrow> logger_exec a s = Some s' \<Longrightarrow> flush_hung s'"
  by (cases a) (auto simp: flush_hung_def bbq_pop_def not_empty_pred_def less_Suc_eq split: if_splits)

lemma flush_hung_client: "flush_hung s \<Longrightarrow> clients s ! 0 \<noteq> LDone"
  by (auto simp: flush_hung_def)

lemma flush_hung_run: "flush_hung s \<Longrightarrow> run logger_exec as s = Some s' \<Longrightarrow> flush_hung s'"
  by (induction as arbitrary: s) (auto split: option.splits intro: flush_hung_exec)

theorem logger_flush_lost_wakeup:
  "\<exists>s. run logger_exec flush_hang_schedule (logger_new 1) = Some s \<and> map snd (written s) = accepted s \<and>
     (\<forall>as. case run logger_exec as s of None \<Rightarrow> True | Some s' \<Rightarrow> clients s' ! 0 \<noteq> LDone)"
proof -
  have "map_option (\<lambda>s. (clients s, processed s, worker s, m_deque (queue s), m_closed (queue s), map snd (written s) = accepted s))
      (run logger_exec flush_hang_schedule (logger_new 1)) = Some ([FBlocked 1 1], 1, WPop, [], False, True)"
    by code_simp
  then obtain s where s: "run logger_exec flush_hang_schedule (logger_new 1) = Some s"
    "flush_hung s" "map snd (written s) = accepted s" by (auto simp: flush_hung_def)
  then have "case run logger_exec as s of None \<Rightarrow> True | Some s' \<Rightarrow> clients s' ! 0 \<noteq> LDone" for as
    using flush_hung_run [OF s(2)] flush_hung_client by (auto split: option.splits)
  with s show ?thesis by blast
qed

end
