(* ===== verification/DynamicThreadPool.thy ===== *)
theory DynamicThreadPool
  imports BoundedBlockingQueue
begin

text \<open>
  \<^verbatim>\<open>include/miniruntime/task/dynamicthreadpool.h\<close> and \<^verbatim>\<open>src/task/dynamicthreadpool.cpp\<close>: the thread
  pool that grows under load and shrinks when idle.

  The pool is a template over the queue; the concept \<open>Queue\<close> is the record \<open>queue_ops\<close> of its
  operations, an argument of the definitions, and what the pool relies on is the locale
  \<open>queue_contract\<close>, interpreted on the bounded queue. Workers, clients in \<open>enqueue\<close> and the
  destructor interleave. A section under the mutex that cannot block is one step, enabled when the
  mutex is free; the worker's retirement, which joins the previous zombie with the mutex held, and
  the destructor's join are split there. Tasks are opaque values; a task that throws is caught and
  counts as completed, as in the source. The log calls are left out.

  Callers are assumed to keep to the rule that the destructor runs alone: it is called when no
  \<open>enqueue\<close> is in progress, and none is called afterwards.
\<close>

section \<open>The queue concept\<close>

record ('t, 'q) queue_ops =
  q_push :: "'t \<Rightarrow> 'q \<Rightarrow> (bool \<times> 'q) option"
  q_pop :: "'q \<Rightarrow> ('t option \<times> 'q) option"
  q_timeoutPop :: "'q \<Rightarrow> 't option \<times> 'q"
  q_close :: "'q \<Rightarrow> 'q"
  q_size :: "'q \<Rightarrow> u64"

definition bbq_ops :: "('t, 't bbq) queue_ops" where
  "bbq_ops = \<lparr>q_push = bbq_push, q_pop = bbq_pop, q_timeoutPop = bbq_timeoutPop, q_close = bbq_close,
     q_size = (\<lambda>q. of_nat (bbq_size q))\<rparr>"

section \<open>State and steps\<close>

datatype 't pworker_pc =
    WStopCheck        \<comment> \<open>\<open>while (!stopToken.stop_requested())\<close>\<close>
  | WTimeoutPop       \<comment> \<open>\<open>taskQueue.timeoutPop(idleTimeout)\<close>\<close>
  | WRun 't           \<comment> \<open>\<open>(*task)()\<close>\<close>
  | WTryLock          \<comment> \<open>\<open>lock.try_lock_for(lockTimeout)\<close>\<close>
  | WLocked           \<comment> \<open>floor test and search, mutex held\<close>
  | WZombie           \<comment> \<open>\<open>zombie = std::move(*it); threads.erase(it)\<close>, mutex held\<close>
  | WReturning
  | WExited

datatype 't pclient_pc =
    CIdle
  | CAdjust 't        \<comment> \<open>\<open>adjustSize()\<close>\<close>
  | CPush 't          \<comment> \<open>\<open>taskQueue.push\<close>\<close>

datatype destroyer_pc =
    DNone
  | DStop             \<comment> \<open>\<open>request_stop\<close> on every thread\<close>
  | DClose            \<comment> \<open>\<open>taskQueue.close()\<close>\<close>
  | DLock
  | DJoin             \<comment> \<open>join every thread, mutex held\<close>
  | DMembers          \<comment> \<open>destructor of the zombie\<close>
  | DDone

record ('t, 'q) pool =
  threads :: "tid list"
  taskQueue :: 'q
  zombie :: "tid option"
  pool_locked :: bool
  minPoolSize :: nat
  maxPoolSize :: nat
  wpcs :: "'t pworker_pc list"
  stops :: "bool list"
  cpcs :: "'t pclient_pc list"
  dpc :: destroyer_pc
  started :: "(tid \<times> 't) list"
  completed :: "'t list"

definition createNThreads :: "nat \<Rightarrow> ('t, 'q) pool \<Rightarrow> ('t, 'q) pool" where
  "createNThreads n s = s\<lparr>
     threads := threads s @ [length (wpcs s) ..< length (wpcs s) + n],
     wpcs := wpcs s @ replicate n WStopCheck, stops := stops s @ replicate n False\<rparr>"

definition pool_new :: "'q \<Rightarrow> nat \<Rightarrow> nat \<Rightarrow> nat \<Rightarrow> ('t, 'q) pool" where
  "pool_new q mn mx clients = createNThreads mn
     \<lparr>threads = [], taskQueue = q, zombie = None, pool_locked = False, minPoolSize = mn, maxPoolSize = mx,
      wpcs = [], stops = [], cpcs = replicate clients CIdle, dpc = DNone, started = [], completed = []\<rparr>"

definition adjustSize :: "('t, 'q) queue_ops \<Rightarrow> ('t, 'q) pool \<Rightarrow> ('t, 'q) pool" where
  "adjustSize ops s =
     (let threadCount = length (threads s); taskCount = q_size ops (taskQueue s) in
      if 2 * of_nat threadCount < taskCount \<and> threadCount < maxPoolSize s then createNThreads 1 s else s)"

definition wgoto :: "tid \<Rightarrow> 't pworker_pc \<Rightarrow> ('t, 'q) pool \<Rightarrow> ('t, 'q) pool" where
  "wgoto t p s = s\<lparr>wpcs := (wpcs s)[t := p]\<rparr>"

definition retire :: "tid \<Rightarrow> ('t, 'q) pool \<Rightarrow> ('t, 'q) pool" where
  "retire t s = wgoto t WReturning (s\<lparr>zombie := Some t, threads := remove1 t (threads s), pool_locked := False\<rparr>)"

fun pworker_step :: "('t, 'q) queue_ops \<Rightarrow> tid \<Rightarrow> 't pworker_pc \<Rightarrow> ('t, 'q) pool \<Rightarrow> ('t, 'q) pool option" where
  "pworker_step ops t WStopCheck s = Some (wgoto t (if stops s ! t then WReturning else WTimeoutPop) s)"
| "pworker_step ops t WTimeoutPop s =
     (case q_timeoutPop ops (taskQueue s) of
        (Some k, q) \<Rightarrow> Some (wgoto t (WRun k) (s\<lparr>taskQueue := q, started := started s @ [(t, k)]\<rparr>))
      | (None, q) \<Rightarrow> Some (wgoto t WTryLock (s\<lparr>taskQueue := q\<rparr>)))"
| "pworker_step ops t (WRun k) s = Some (wgoto t WStopCheck (s\<lparr>completed := completed s @ [k]\<rparr>))"
| "pworker_step ops t WTryLock s = guarded (\<not> pool_locked s) (wgoto t WLocked (s\<lparr>pool_locked := True\<rparr>))"
| "pworker_step ops t WLocked s =
     (if length (threads s) \<le> minPoolSize s \<or> t \<notin> set (threads s)
      then Some (wgoto t WStopCheck (s\<lparr>pool_locked := False\<rparr>))
      else Some (wgoto t WZombie s))"
| "pworker_step ops t WZombie s =
     (case zombie s of
        None \<Rightarrow> Some (retire t s)
      | Some z \<Rightarrow> guarded (wpcs s ! z = WExited) (retire t (s\<lparr>stops := (stops s)[z := True]\<rparr>)))"
| "pworker_step ops t WReturning s = Some (wgoto t WExited s)"
| "pworker_step ops t WExited s = None"

definition cgoto :: "nat \<Rightarrow> 't pclient_pc \<Rightarrow> ('t, 'q) pool \<Rightarrow> ('t, 'q) pool" where
  "cgoto c p s = s\<lparr>cpcs := (cpcs s)[c := p]\<rparr>"

fun pclient_step :: "('t, 'q) queue_ops \<Rightarrow> nat \<Rightarrow> 't pclient_pc \<Rightarrow> ('t, 'q) pool \<Rightarrow> ('t, 'q) pool option" where
  "pclient_step ops c CIdle s = None"
| "pclient_step ops c (CAdjust k) s = guarded (\<not> pool_locked s) (cgoto c (CPush k) (adjustSize ops s))"
| "pclient_step ops c (CPush k) s =
     (case q_push ops k (taskQueue s) of
        None \<Rightarrow> None
      | Some (pushed, q) \<Rightarrow> Some (cgoto c CIdle (s\<lparr>taskQueue := q\<rparr>)))"

text \<open>\<open>request_stop\<close> on every thread of the vector.\<close>

definition request_stops :: "('t, 'q) pool \<Rightarrow> ('t, 'q) pool" where
  "request_stops s = s\<lparr>stops := map (\<lambda>t. stops s ! t \<or> t \<in> set (threads s)) [0 ..< length (stops s)]\<rparr>"

fun destroyer_step :: "('t, 'q) queue_ops \<Rightarrow> destroyer_pc \<Rightarrow> ('t, 'q) pool \<Rightarrow> ('t, 'q) pool option" where
  "destroyer_step ops DNone s = None"
| "destroyer_step ops DStop s = guarded (\<not> pool_locked s) ((request_stops s)\<lparr>dpc := DClose\<rparr>)"
| "destroyer_step ops DClose s = Some (s\<lparr>taskQueue := q_close ops (taskQueue s), dpc := DLock\<rparr>)"
| "destroyer_step ops DLock s = guarded (\<not> pool_locked s) (s\<lparr>pool_locked := True, dpc := DJoin\<rparr>)"
| "destroyer_step ops DJoin s =
     guarded (list_all (\<lambda>t. wpcs s ! t = WExited) (threads s)) (s\<lparr>pool_locked := False, dpc := DMembers\<rparr>)"
| "destroyer_step ops DMembers s =
     guarded (case zombie s of None \<Rightarrow> True | Some z \<Rightarrow> wpcs s ! z = WExited) (s\<lparr>dpc := DDone\<rparr>)"
| "destroyer_step ops DDone s = None"

text \<open>Actions: \<open>PTimeout\<close> is the failure of \<open>try_lock_for\<close>.\<close>

datatype 't pool_act =
    PCall nat 't | PClient nat | PWorker tid | PTimeout tid | PDestroy | PDestroyer

fun pool_exec :: "('t, 'q) queue_ops \<Rightarrow> 't pool_act \<Rightarrow> ('t, 'q) pool \<Rightarrow> ('t, 'q) pool option" where
  "pool_exec ops (PCall c k) s =
     guarded (c < length (cpcs s) \<and> cpcs s ! c = CIdle \<and> dpc s = DNone) (cgoto c (CAdjust k) s)"
| "pool_exec ops (PClient c) s =
     (if c < length (cpcs s) then pclient_step ops c (cpcs s ! c) s else None)"
| "pool_exec ops (PWorker t) s =
     (if t < length (wpcs s) then pworker_step ops t (wpcs s ! t) s else None)"
| "pool_exec ops (PTimeout t) s =
     guarded (t < length (wpcs s) \<and> wpcs s ! t = WTryLock) (wgoto t WStopCheck s)"
| "pool_exec ops PDestroy s =
     guarded (dpc s = DNone \<and> list_all (\<lambda>p. p = CIdle) (cpcs s)) (s\<lparr>dpc := DStop\<rparr>)"
| "pool_exec ops PDestroyer s = destroyer_step ops (dpc s) s"

text \<open>The step at which the queue accepts a task.\<close>

fun pool_lin :: "('t, 'q) queue_ops \<Rightarrow> 't pool_act \<Rightarrow> ('t, 'q) pool \<Rightarrow> 't option" where
  "pool_lin ops (PClient c) s =
     (case cpcs s ! c of
        CPush k \<Rightarrow> (case q_push ops k (taskQueue s) of Some (True, q) \<Rightarrow> Some k | _ \<Rightarrow> None)
      | _ \<Rightarrow> None)"
| "pool_lin ops _ s = None"

section \<open>Invariant\<close>

fun holds_pool :: "'t pworker_pc \<Rightarrow> bool" where
  "holds_pool WLocked = True"
| "holds_pool WZombie = True"
| "holds_pool _ = False"

fun leaving :: "'t pworker_pc \<Rightarrow> bool" where
  "leaving WReturning = True"
| "leaving WExited = True"
| "leaving _ = False"

fun running :: "'t pworker_pc \<Rightarrow> 't list" where
  "running (WRun k) = [k]"
| "running _ = []"

text \<open>What holds of one worker: where its \<open>jthread\<close> is, and why it may leave its loop.\<close>

definition worker_ok :: "('t, 'q) pool \<Rightarrow> tid \<Rightarrow> 't pworker_pc \<Rightarrow> bool" where
  "worker_ok s t p \<longleftrightarrow>
     (t \<in> set (threads s) \<longrightarrow> zombie s \<noteq> Some t \<and> (leaving p \<longrightarrow> stops s ! t) \<and>
        (stops s ! t \<longrightarrow> dpc s \<noteq> DNone \<and> dpc s \<noteq> DStop) \<and> (dpc s \<in> {DMembers, DDone} \<longrightarrow> p = WExited)) \<and>
     (t \<notin> set (threads s) \<longrightarrow> p = WExited \<or> zombie s = Some t \<and> p = WReturning) \<and>
     (p = WZombie \<longrightarrow> minPoolSize s < length (threads s))"

definition pool_inv :: "('t, 'q) pool \<Rightarrow> bool" where
  "pool_inv s \<longleftrightarrow>
     length (stops s) = length (wpcs s) \<and>
     distinct (threads s) \<and> set (threads s) \<subseteq> {..< length (wpcs s)} \<and>
     minPoolSize s \<le> length (threads s) \<and> length (threads s) \<le> max (minPoolSize s) (maxPoolSize s) \<and>
     (\<forall>z. zombie s = Some z \<longrightarrow> z < length (wpcs s)) \<and>
     cnt holds_pool (wpcs s) + of_bool (dpc s = DJoin) = of_bool (pool_locked s) \<and>
     (dpc s \<noteq> DNone \<longrightarrow> list_all (\<lambda>p. p = CIdle) (cpcs s)) \<and>
     (dpc s = DDone \<longrightarrow> list_all (\<lambda>p. p = WExited) (wpcs s)) \<and>
     (\<forall>t < length (wpcs s). worker_ok s t (wpcs s ! t))"

definition in_progress :: "('t, 'q) pool \<Rightarrow> 't list" where
  "in_progress s = concat (map running (wpcs s))"

fun is_call :: "'t pool_act \<Rightarrow> bool" where
  "is_call (PCall c k) = True"
| "is_call _ = False"

fun worker_act :: "'t pool_act \<Rightarrow> bool" where
  "worker_act (PWorker t) = True"
| "worker_act (PTimeout t) = True"
| "worker_act _ = False"

definition pool_init :: "('t, 'q) pool \<Rightarrow> bool" where
  "pool_init s \<longleftrightarrow> (\<exists>q mn mx c. s = pool_new q mn mx c)"

definition live :: "'t pworker_pc \<Rightarrow> bool" where
  "live p \<longleftrightarrow> p \<noteq> WExited"

definition starved :: "(nat, nat bbq) pool \<Rightarrow> bool" where
  "starved s \<longleftrightarrow> wpcs s = [] \<and> started s = [] \<and> list_all (\<lambda>p. p = CIdle) (cpcs s)"

text \<open>Concrete schedules.\<close>

definition pool_schedule :: "nat pool_act list" where
  "pool_schedule = [PCall 0 7, PClient 0, PClient 0, PWorker 0, PWorker 0]"

definition drop_schedule :: "nat pool_act list" where
  "drop_schedule = [PCall 0 7, PClient 0, PClient 0, PDestroy, PDestroyer, PDestroyer, PDestroyer,
     PWorker 0, PWorker 0, PDestroyer, PDestroyer]"

section \<open>Lemmas\<close>

lemma wgoto_simps [simp]:
  "threads (wgoto t p s) = threads s" "taskQueue (wgoto t p s) = taskQueue s" "zombie (wgoto t p s) = zombie s"
  "pool_locked (wgoto t p s) = pool_locked s" "minPoolSize (wgoto t p s) = minPoolSize s"
  "maxPoolSize (wgoto t p s) = maxPoolSize s" "wpcs (wgoto t p s) = (wpcs s)[t := p]"
  "stops (wgoto t p s) = stops s" "cpcs (wgoto t p s) = cpcs s" "dpc (wgoto t p s) = dpc s"
  "started (wgoto t p s) = started s" "completed (wgoto t p s) = completed s"
  by (simp_all add: wgoto_def)

lemma cgoto_simps [simp]:
  "threads (cgoto t p s) = threads s" "taskQueue (cgoto t p s) = taskQueue s" "zombie (cgoto t p s) = zombie s"
  "pool_locked (cgoto t p s) = pool_locked s" "minPoolSize (cgoto t p s) = minPoolSize s"
  "maxPoolSize (cgoto t p s) = maxPoolSize s" "wpcs (cgoto t p s) = wpcs s" "cpcs (cgoto t p s) = (cpcs s)[t := p]"
  "stops (cgoto t p s) = stops s" "dpc (cgoto t p s) = dpc s"
  "started (cgoto t p s) = started s" "completed (cgoto t p s) = completed s"
  by (simp_all add: cgoto_def)

lemma createNThreads_simps [simp]:
  "taskQueue (createNThreads n s) = taskQueue s" "zombie (createNThreads n s) = zombie s"
  "pool_locked (createNThreads n s) = pool_locked s" "minPoolSize (createNThreads n s) = minPoolSize s"
  "maxPoolSize (createNThreads n s) = maxPoolSize s" "cpcs (createNThreads n s) = cpcs s"
  "dpc (createNThreads n s) = dpc s" "started (createNThreads n s) = started s"
  "completed (createNThreads n s) = completed s"
  "threads (createNThreads n s) = threads s @ [length (wpcs s) ..< length (wpcs s) + n]"
  "wpcs (createNThreads n s) = wpcs s @ replicate n WStopCheck"
  "stops (createNThreads n s) = stops s @ replicate n False"
  by (simp_all add: createNThreads_def)

lemma retire_simps [simp]:
  "threads (retire t s) = remove1 t (threads s)" "taskQueue (retire t s) = taskQueue s" "zombie (retire t s) = Some t"
  "pool_locked (retire t s) = False" "minPoolSize (retire t s) = minPoolSize s"
  "maxPoolSize (retire t s) = maxPoolSize s" "wpcs (retire t s) = (wpcs s)[t := WReturning]"
  "stops (retire t s) = stops s" "cpcs (retire t s) = cpcs s" "dpc (retire t s) = dpc s"
  "started (retire t s) = started s" "completed (retire t s) = completed s"
  by (simp_all add: retire_def)

lemma request_stops_simps [simp]:
  "threads (request_stops s) = threads s" "taskQueue (request_stops s) = taskQueue s"
  "zombie (request_stops s) = zombie s" "pool_locked (request_stops s) = pool_locked s"
  "minPoolSize (request_stops s) = minPoolSize s" "maxPoolSize (request_stops s) = maxPoolSize s"
  "wpcs (request_stops s) = wpcs s" "cpcs (request_stops s) = cpcs s" "dpc (request_stops s) = dpc s"
  "started (request_stops s) = started s" "completed (request_stops s) = completed s"
  "length (stops (request_stops s)) = length (stops s)"
  "t < length (stops s) \<Longrightarrow> stops (request_stops s) ! t = (stops s ! t \<or> t \<in> set (threads s))"
  by (simp_all add: request_stops_def)

text \<open>Moving worker \<open>t\<close> to \<open>p\<close> without touching the vector or the zombie.\<close>

lemma pool_inv_move:
  assumes inv: "pool_inv s" and t: "t < length (wpcs s)" and "wpcs s ! t \<noteq> WExited"
    and own: "worker_ok s t p"
    and "of_bool (holds_pool p) + of_bool (pool_locked s) = of_bool (holds_pool (wpcs s ! t)) + (of_bool (pool_locked s') :: nat)"
    and eq: "threads s' = threads s" "zombie s' = zombie s" "stops s' = stops s" "dpc s' = dpc s" "cpcs s' = cpcs s"
      "minPoolSize s' = minPoolSize s" "maxPoolSize s' = maxPoolSize s" "wpcs s' = (wpcs s)[t := p]"
  shows "pool_inv s'"
proof -
  have "worker_ok s' u (wpcs s' ! u)" if "u < length (wpcs s)" for u
    using inv own that by (cases "u = t") (simp_all add: pool_inv_def worker_ok_def eq)
  moreover have "cnt holds_pool (wpcs s') + of_bool (dpc s = DJoin) = of_bool (pool_locked s')"
    using inv assms(5) cnt_update_add [OF t, of holds_pool p]
    by (auto simp: pool_inv_def eq of_bool_def split: if_splits)
  moreover have "dpc s \<noteq> DDone" using assms(1-3) by (auto simp: pool_inv_def list_all_length)
  ultimately show ?thesis using inv by (simp add: pool_inv_def eq)
qed

lemma pool_inv_retire:
  assumes "pool_inv s" "t < length (wpcs s)" "wpcs s ! t = WZombie"
    and z: "case zombie s of None \<Rightarrow> st = stops s | Some z \<Rightarrow> wpcs s ! z = WExited \<and> st = (stops s)[z := True]"
  shows "pool_inv (retire t (s\<lparr>stops := st\<rparr>))"
proof -
  let ?s = "retire t (s\<lparr>stops := st\<rparr>)"
  have ok: "worker_ok s u (wpcs s ! u)" if "u < length (wpcs s)" for u
    using assms(1) that by (simp add: pool_inv_def)
  have mem: "t \<in> set (threads s)" "minPoolSize s < length (threads s)" "dpc s \<noteq> DDone" "dpc s \<noteq> DMembers"
    using ok [OF assms(2)] assms(3) by (auto simp: worker_ok_def)
  have d: "distinct (threads s)" using assms(1) by (simp add: pool_inv_def)
  have st: "st ! u = stops s ! u" if "u < length (wpcs s)" "u \<in> set (threads s)" for u
    using ok [OF that(1)] that z by (cases "zombie s") (auto simp: worker_ok_def nth_list_update)
  have c: "0 < cnt holds_pool (wpcs s)" using assms(2,3) by (auto simp: cnt_pos_iff)
  have cz: "cnt holds_pool (wpcs s) \<le> 1"
    using assms(1) by (auto simp: pool_inv_def of_bool_def split: if_splits)
  have "worker_ok ?s u (wpcs ?s ! u)" if u: "u < length (wpcs s)" for u
  proof (cases "u = t")
    case True
    with d mem(1) assms(2) show ?thesis by (simp add: worker_ok_def)
  next
    case False
    have "wpcs s ! u \<noteq> WZombie"
    proof
      assume "wpcs s ! u = WZombie"
      with cnt_ge_two [OF u assms(2) False, of holds_pool] assms(3) cz show False by simp
    qed
    with ok [OF u] False st [OF u] z show ?thesis
      by (cases "zombie s") (auto simp: worker_ok_def in_set_remove1)
  qed
  moreover have "cnt holds_pool (wpcs ?s) + of_bool (dpc s = DJoin) = 0"
    using assms(1-3) c cnt_update [OF assms(2), of holds_pool WReturning]
    by (auto simp: pool_inv_def of_bool_def split: if_splits)
  moreover have "length st = length (stops s)" using z by (auto split: option.splits)
  moreover have "set (remove1 t (threads s)) \<subseteq> {..< length (wpcs s)}"
    using assms(1) set_remove1_subset [of t "threads s"] by (auto simp: pool_inv_def)
  ultimately show ?thesis
    using assms(1,2) mem by (auto simp: pool_inv_def length_remove1)
qed

lemma pool_inv_create:
  assumes "pool_inv s" "dpc s = DNone" "length (threads s) < maxPoolSize s"
  shows "pool_inv (createNThreads 1 s)"
proof -
  let ?s = "createNThreads 1 s"
  have z: "zombie s \<noteq> Some (length (wpcs s))" using assms(1) by (auto simp: pool_inv_def)
  have "worker_ok ?s u (wpcs ?s ! u)" if "u < length (wpcs ?s)" for u
  proof (cases "u = length (wpcs s)")
    case True
    with z assms(1,2) show ?thesis by (auto simp: worker_ok_def pool_inv_def nth_append)
  next
    case False
    with that have u: "u < length (wpcs s)" by simp
    with assms(1) have "worker_ok s u (wpcs s ! u)" "length (stops s) = length (wpcs s)"
      by (auto simp: pool_inv_def)
    with u assms(2) show ?thesis by (auto simp: worker_ok_def nth_append)
  qed
  with assms show ?thesis by (auto simp: pool_inv_def cnt_append)
qed

lemma pool_inv_worker:
  assumes inv: "pool_inv s" and t: "t < length (wpcs s)" and step: "pworker_step ops t (wpcs s ! t) s = Some s'"
  shows "pool_inv s'"
proof -
  have ok: "worker_ok s t (wpcs s ! t)" using inv t by (simp add: pool_inv_def)
  have c: "0 < cnt holds_pool (wpcs s) \<Longrightarrow> pool_locked s"
    using inv by (auto simp: pool_inv_def of_bool_def split: if_splits)
  show ?thesis
  proof (cases "wpcs s ! t")
    case WStopCheck
    with ok step show ?thesis
      by (intro pool_inv_move [OF inv t, of "if stops s ! t then WReturning else WTimeoutPop"]) (auto simp: worker_ok_def)
  next
    case WTimeoutPop
    with ok step show ?thesis
      by (auto simp: worker_ok_def split: prod.splits option.splits intro!: pool_inv_move [OF inv t])
  next
    case (WRun k)
    with ok step show ?thesis by (intro pool_inv_move [OF inv t, of WStopCheck]) (auto simp: worker_ok_def)
  next
    case WTryLock
    with ok step show ?thesis by (intro pool_inv_move [OF inv t, of WLocked]) (auto simp: worker_ok_def)
  next
    case WLocked
    then have "pool_locked s" using t by (intro c) (auto simp: cnt_pos_iff)
    with WLocked ok step show ?thesis
      by (intro pool_inv_move [OF inv t, of "wpcs s' ! t"]) (auto simp: worker_ok_def t split: if_splits)
  next
    case WZombie
    show ?thesis
    proof (cases "zombie s")
      case None
      with WZombie step pool_inv_retire [OF inv t WZombie, of "stops s"] show ?thesis by simp
    next
      case (Some z)
      with WZombie step pool_inv_retire [OF inv t WZombie, of "(stops s)[z := True]"] show ?thesis by auto
    qed
  next
    case WReturning
    with ok step show ?thesis by (intro pool_inv_move [OF inv t, of WExited]) (auto simp: worker_ok_def)
  qed (use step in simp)
qed

lemma pool_inv_client:
  assumes inv: "pool_inv s" and c: "c < length (cpcs s)" and step: "pclient_step ops c (cpcs s ! c) s = Some s'"
  shows "pool_inv s'"
proof -
  have d: "dpc s = DNone" if "cpcs s ! c \<noteq> CIdle"
    using inv c that by (auto simp: pool_inv_def list_all_length)
  have goto: "pool_inv (cgoto c p u)" if "pool_inv u" "dpc u = DNone" for p and u :: "('a, 'b) pool"
    using that by (simp add: pool_inv_def worker_ok_def)
  show ?thesis
  proof (cases "cpcs s ! c")
    case (CAdjust k)
    with d inv have "pool_inv (adjustSize ops s) \<and> dpc (adjustSize ops s) = DNone"
      by (auto simp: adjustSize_def Let_def intro!: pool_inv_create [simplified])
    with CAdjust step goto show ?thesis by auto
  next
    case (CPush k)
    have "pool_inv (s\<lparr>taskQueue := q\<rparr>)" for q using inv by (simp add: pool_inv_def worker_ok_def)
    with CPush d step goto show ?thesis by (auto split: option.splits)
  qed (use step in simp)
qed

lemma pool_inv_destroyer:
  assumes inv: "pool_inv s" and step: "destroyer_step ops (dpc s) s = Some s'"
  shows "pool_inv s'"
proof (cases "dpc s")
  case DJoin
  then have "pool_locked s" using inv by (auto simp: pool_inv_def of_bool_def split: if_splits)
  with DJoin inv step show ?thesis by (auto simp: pool_inv_def worker_ok_def list_all_iff)
next
  case DMembers
  with inv step show ?thesis
    by (auto simp: pool_inv_def worker_ok_def list_all_length split: option.splits)
qed (use inv step in \<open>auto simp: pool_inv_def worker_ok_def\<close>)

lemma pool_inv_exec:
  assumes inv: "pool_inv s" and ex: "pool_exec ops a s = Some s'"
  shows "pool_inv s'"
proof (cases a)
  case (PCall c k)
  with inv ex show ?thesis by (auto simp: pool_inv_def worker_ok_def)
next
  case (PClient c)
  with inv ex show ?thesis by (auto split: if_splits intro: pool_inv_client)
next
  case (PWorker t)
  with inv ex show ?thesis by (auto split: if_splits intro: pool_inv_worker)
next
  case (PTimeout t)
  with ex have t: "t < length (wpcs s)" "wpcs s ! t = WTryLock" "s' = wgoto t WStopCheck s" by auto
  then have "worker_ok s t WStopCheck" using inv by (auto simp: pool_inv_def worker_ok_def)
  with t show ?thesis by (intro pool_inv_move [OF inv t(1), of WStopCheck]) auto
next
  case PDestroy
  with inv ex show ?thesis by (auto simp: pool_inv_def worker_ok_def)
next
  case PDestroyer
  with inv ex show ?thesis by (auto intro: pool_inv_destroyer)
qed

lemma pool_new_inv: "pool_inv (pool_new q mn mx c)"
  by (auto simp: pool_inv_def pool_new_def worker_ok_def cnt_def)

lemma live_bound:
  assumes "pool_inv s"
  shows "cnt live (wpcs s) \<le> length (threads s) + 1"
proof -
  have "{t. t < length (wpcs s) \<and> live (wpcs s ! t)} \<subseteq> set (threads s) \<union> set_option (zombie s)"
    using assms by (auto simp: pool_inv_def worker_ok_def live_def)
  then have "card {t. t < length (wpcs s) \<and> live (wpcs s ! t)} \<le> card (set (threads s) \<union> set_option (zombie s))"
    by (rule card_mono [rotated]) simp
  also have "\<dots> \<le> card (set (threads s)) + card (set_option (zombie s))" by (rule card_Un_le)
  also have "\<dots> \<le> length (threads s) + 1" by (cases "zombie s") (auto intro: card_length le_SucI)
  finally show ?thesis by (simp add: cnt_def length_filter_conv_card)
qed

lemma accounting_exec:
  assumes "pool_exec ops a s = Some s'" "mset (map snd (started s)) = mset (completed s) + mset (in_progress s)"
  shows "mset (map snd (started s')) = mset (completed s') + mset (in_progress s')"
proof (cases a)
  case (PClient c)
  with assms show ?thesis
    by (cases "cpcs s ! c") (auto simp: in_progress_def adjustSize_def Let_def split: if_splits option.splits)
next
  case (PWorker t)
  with assms(1) have t: "t < length (wpcs s)" "pworker_step ops t (wpcs s ! t) s = Some s'"
    by (auto split: if_splits)
  show ?thesis
  proof (cases "wpcs s ! t")
    case (WRun k)
    with t assms(2) mset_concat_update [OF t(1), of running WStopCheck] show ?thesis
      by (auto simp: in_progress_def)
  qed (use t assms(2) mset_concat_update [OF t(1), of running "wpcs s' ! t"]
      in \<open>auto simp: in_progress_def split: if_splits option.splits prod.splits\<close>)
next
  case (PTimeout t)
  then have "t < length (wpcs s)" "wpcs s ! t = WTryLock" "s' = wgoto t WStopCheck s" using assms(1) by auto
  with assms(2) mset_concat_update [of t "wpcs s" running WStopCheck] show ?thesis by (auto simp: in_progress_def)
next
  case PDestroyer
  with assms show ?thesis by (cases "dpc s") (auto simp: in_progress_def)
qed (use assms in \<open>auto simp: in_progress_def\<close>)

interpretation pl: invariant_system pool_init "pool_exec ops" pool_inv for ops
  by unfold_locales (auto simp: pool_init_def pool_new_inv intro: pool_inv_exec)

lemma pool_sizes_exec:
  "pool_exec ops a s = Some s' \<Longrightarrow> minPoolSize s' = minPoolSize s \<and> maxPoolSize s' = maxPoolSize s"
proof (cases a)
  case (PClient c)
  moreover assume "pool_exec ops a s = Some s'"
  ultimately show ?thesis
    by (cases "cpcs s ! c") (auto simp: adjustSize_def Let_def split: if_splits option.splits)
next
  case (PWorker t)
  moreover assume "pool_exec ops a s = Some s'"
  ultimately show ?thesis
    by (cases "wpcs s ! t") (auto split: if_splits option.splits prod.splits)
next
  case PDestroyer
  moreover assume "pool_exec ops a s = Some s'"
  ultimately show ?thesis by (cases "dpc s") auto
qed auto

lemma pool_sizes_run:
  "run (pool_exec ops) as s = Some s' \<Longrightarrow> minPoolSize s' = minPoolSize s \<and> maxPoolSize s' = maxPoolSize s"
proof (induction as arbitrary: s)
  case (Cons a as)
  then obtain u where u: "pool_exec ops a s = Some u" "run (pool_exec ops) as u = Some s'"
    by (auto split: option.splits)
  with Cons.IH [OF u(2)] pool_sizes_exec [OF u(1)] show ?case by simp
qed simp

lemma accounting_run:
  "run (pool_exec ops) as s = Some s' \<Longrightarrow> mset (map snd (started s)) = mset (completed s) + mset (in_progress s) \<Longrightarrow>
     mset (map snd (started s')) = mset (completed s') + mset (in_progress s')"
proof (induction as arbitrary: s)
  case (Cons a as)
  then obtain u where u: "pool_exec ops a s = Some u" "run (pool_exec ops) as u = Some s'"
    by (auto split: option.splits)
  from Cons.IH [OF u(2) accounting_exec [OF u(1) Cons.prems(2)]] show ?case .
qed simp

lemma in_progress_new [simp]: "in_progress (pool_new q mn mx c) = []"
  by (simp add: in_progress_def pool_new_def)

section \<open>The pool over any queue\<close>

text \<open>What the pool relies on: the queue is a list to which \<open>push\<close> appends, when it reports success,
  and from whose front the pops take.\<close>

locale queue_contract =
  fixes ops :: "('t, 'q) queue_ops" and content :: "'q \<Rightarrow> 't list"
  assumes push_law: "q_push ops v q = Some (b, q') \<Longrightarrow> content q' = content q @ (if b then [v] else [])"
    and pop_law: "q_pop ops q = Some (r, q') \<Longrightarrow> content q = (case r of None \<Rightarrow> [] | Some v \<Rightarrow> [v]) @ content q'"
    and timeoutPop_law: "q_timeoutPop ops q = (r, q') \<Longrightarrow>
      content q = (case r of None \<Rightarrow> [] | Some v \<Rightarrow> [v]) @ content q' \<and> (r = None \<longrightarrow> content q = [])"
    and close_law: "content (q_close ops q) = content q"
    and size_law: "q_size ops q = of_nat (length (content q))"
begin

lemma tasks_exec:
  assumes "pool_exec ops a s = Some s'"
  shows "map snd (started s') @ content (taskQueue s') =
     map snd (started s) @ content (taskQueue s) @ (case pool_lin ops a s of None \<Rightarrow> [] | Some k \<Rightarrow> [k])"
proof (cases a)
  case (PClient c)
  with assms show ?thesis
    by (cases "cpcs s ! c")
      (auto simp: adjustSize_def Let_def dest!: push_law split: if_splits option.splits bool.splits)
next
  case (PWorker t)
  with assms show ?thesis
    by (cases "wpcs s ! t") (auto split: if_splits option.splits prod.splits dest!: timeoutPop_law)
next
  case PDestroyer
  with assms show ?thesis by (cases "dpc s") (auto simp: close_law)
qed (use assms in auto)

lemma tasks_run:
  "run (pool_exec ops) as s = Some s' \<Longrightarrow> map snd (started s') @ content (taskQueue s') =
     map snd (started s) @ content (taskQueue s) @ events (pool_exec ops) (pool_lin ops) as s"
proof (induction as arbitrary: s)
  case (Cons a as)
  then obtain u where u: "pool_exec ops a s = Some u" "run (pool_exec ops) as u = Some s'"
    by (auto split: option.splits)
  with Cons.IH [OF u(2)] tasks_exec [OF u(1)] show ?case by (simp split: option.splits)
qed simp

lemma zombie_releases:
  assumes inv: "pool_inv s" and t: "t < length (wpcs s)" "wpcs s ! t = WZombie"
  obtains as s' where "run (pool_exec ops) as s = Some s'" "list_all worker_act as" "\<not> pool_locked s'"
    "taskQueue s' = taskQueue s" "started s' = started s" "dpc s' = dpc s"
proof (cases "zombie s")
  case None
  with t have "run (pool_exec ops) [PWorker t] s = Some (retire t s)" by simp
  with that show thesis by fastforce
next
  case (Some z)
  with inv have z: "z < length (wpcs s)" "worker_ok s z (wpcs s ! z)" by (auto simp: pool_inv_def)
  then consider "wpcs s ! z = WExited" | "wpcs s ! z = WReturning"
    using Some by (auto simp: worker_ok_def)
  then show thesis
  proof cases
    case 1
    with Some t have "run (pool_exec ops) [PWorker t] s = Some (retire t (s\<lparr>stops := (stops s)[z := True]\<rparr>))" by simp
    with that show thesis by fastforce
  next
    case 2
    with t have "z \<noteq> t" by auto
    with 2 Some t z have "run (pool_exec ops) [PWorker z, PWorker t] s =
        Some (retire t ((wgoto z WExited s)\<lparr>stops := (stops s)[z := True]\<rparr>))" by simp
    with that show thesis by fastforce
  qed
qed

lemma holder_releases:
  assumes inv: "pool_inv s" and "pool_locked s" "dpc s \<noteq> DJoin"
  obtains as s' where "run (pool_exec ops) as s = Some s'" "list_all worker_act as" "\<not> pool_locked s'"
    "taskQueue s' = taskQueue s" "started s' = started s" "dpc s' = dpc s"
proof -
  have "0 < cnt holds_pool (wpcs s)" using assms by (auto simp: pool_inv_def)
  then obtain t where t: "t < length (wpcs s)" "holds_pool (wpcs s ! t)" by (auto simp: cnt_pos_iff)
  show thesis
  proof (cases "wpcs s ! t")
    case WZombie
    with zombie_releases [OF inv t(1)] that show thesis by metis
  next
    case WLocked
    show thesis
    proof (cases "length (threads s) \<le> minPoolSize s \<or> t \<notin> set (threads s)")
      case True
      with WLocked t have "run (pool_exec ops) [PWorker t] s = Some (wgoto t WStopCheck (s\<lparr>pool_locked := False\<rparr>))" by simp
      with that show thesis by fastforce
    next
      case False
      with WLocked t have 1: "pool_exec ops (PWorker t) s = Some (wgoto t WZombie s)" by simp
      then have "pool_inv (wgoto t WZombie s)" by (rule pool_inv_exec [OF inv])
      from zombie_releases [OF this, of t] t(1)
      obtain as s' where "run (pool_exec ops) as (wgoto t WZombie s) = Some s'" "list_all worker_act as" "\<not> pool_locked s'"
        "taskQueue s' = taskQueue s" "started s' = started s" "dpc s' = dpc s" by auto
      with 1 that [of "PWorker t # as" s'] show thesis by simp
    qed
  qed (use t in auto)
qed

lemma free_worker_starts:
  assumes inv: "pool_inv s" and "0 < minPoolSize s" "dpc s = DNone" "\<not> pool_locked s" "content (taskQueue s) = k # ks"
  obtains as s' t where "run (pool_exec ops) as s = Some s'" "list_all worker_act as" "started s' = started s @ [(t, k)]"
proof -
  have "threads s \<noteq> []" using inv assms(2) by (auto simp: pool_inv_def)
  then obtain t where th: "t \<in> set (threads s)" by (cases "threads s") auto
  with inv have t: "t < length (wpcs s)" "worker_ok s t (wpcs s ! t)" by (auto simp: pool_inv_def)
  with th assms(3) have st: "\<not> stops s ! t" "\<not> leaving (wpcs s ! t)" by (auto simp: worker_ok_def)
  have "cnt holds_pool (wpcs s) = 0" using inv assms(4) by (auto simp: pool_inv_def)
  then have nh: "\<not> holds_pool (wpcs s ! t)" using t(1) by (auto simp: cnt_zero_iff)
  obtain q where q: "q_timeoutPop ops (taskQueue s) = (Some k, q)"
    using timeoutPop_law [of "taskQueue s"] assms(5)
    by (cases "q_timeoutPop ops (taskQueue s)") (auto split: option.splits)
  show thesis
  proof (cases "wpcs s ! t")
    case WStopCheck
    with t st q that [of "[PWorker t, PWorker t]"] show thesis by simp
  next
    case WTimeoutPop
    with t st q that [of "[PWorker t]"] show thesis by simp
  next
    case (WRun k')
    with t st q that [of "[PWorker t, PWorker t, PWorker t]"] show thesis by simp
  next
    case WTryLock
    with t st q that [of "[PTimeout t, PWorker t, PWorker t]"] show thesis by simp
  qed (use st nh in auto)
qed

lemma head_task_starts:
  assumes inv: "pool_inv s" and "0 < minPoolSize s" "dpc s = DNone" "content (taskQueue s) = k # ks"
  obtains as s' t where "run (pool_exec ops) as s = Some s'" "list_all worker_act as" "started s' = started s @ [(t, k)]"
proof (cases "pool_locked s")
  case False
  with free_worker_starts [OF assms(1-3) _ assms(4)] that show thesis by metis
next
  case True
  obtain as u where u: "run (pool_exec ops) as s = Some u" "list_all worker_act as" "\<not> pool_locked u"
    "taskQueue u = taskQueue s" "started u = started s" "dpc u = dpc s"
    using holder_releases [OF inv True] assms(3) by (metis destroyer_pc.distinct(7))
  have "pool_inv u" "minPoolSize u = minPoolSize s"
    using pl.run_inv [OF inv u(1)] pool_sizes_run [OF u(1)] by simp_all
  with free_worker_starts [of u k ks] u assms obtain bs s' t
    where "run (pool_exec ops) bs u = Some s'" "list_all worker_act bs" "started s' = started s @ [(t, k)]" by auto
  with u that [of "as @ bs" s' t] show thesis by (simp add: run_append)
qed

end

text \<open>The bounded queue keeps the contract.\<close>

interpretation bp: queue_contract bbq_ops m_deque
  by unfold_locales
    (auto simp: bbq_ops_def bbq_push_def bbq_emplace_def bbq_pop_def bbq_timeoutPop_def bbq_close_def bbq_size_def
      not_full_pred_def not_empty_pred_def split: if_splits list.splits)

lemma pool_new_sizes [simp]: "started (pool_new q mn mx c) = []" "completed (pool_new q mn mx c) = []"
    "taskQueue (pool_new q mn mx c) = q"
  by (simp_all add: pool_new_def)

lemma starved_exec:
  assumes "starved s" "pool_exec ops a s = Some s'" "\<forall>c k. a \<noteq> PCall c k"
  shows "starved s'"
proof (cases a)
  case PDestroyer
  with assms show ?thesis by (cases "dpc s") (auto simp: starved_def)
qed (use assms in \<open>auto simp: starved_def list_all_length split: if_splits\<close>)

lemma starved_run:
  "starved s \<Longrightarrow> run (pool_exec ops) as s = Some s' \<Longrightarrow> \<forall>c k. PCall c k \<notin> set as \<Longrightarrow> starved s'"
proof (induction as arbitrary: s)
  case (Cons a as)
  then obtain u where u: "pool_exec ops a s = Some u" "run (pool_exec ops) as u = Some s'"
    by (auto split: option.splits)
  have "starved u" using Cons.prems(1) u(1) by (rule starved_exec) (use Cons.prems(3) in auto)
  with Cons.IH u(2) Cons.prems(3) show ?case by auto
qed simp

section \<open>Properties\<close>

text \<open>C9. In every run of the pool over the bounded queue, with any number of clients and workers, the
  tasks started, followed by those in the queue, are the accepted tasks in the order of
  acceptance: each task is started at most once and none is lost before it is started. Every
  started task is completed or held by exactly one worker.\<close>

theorem pool_runs_each_task_once:
  assumes "run (pool_exec bbq_ops) as (pool_new (bbq_new cap) mn mx c) = Some s"
  shows "map snd (started s) @ m_deque (taskQueue s) =
       events (pool_exec bbq_ops) (pool_lin bbq_ops) as (pool_new (bbq_new cap) mn mx c) \<and>
     mset (map snd (started s)) = mset (completed s) + mset (in_progress s)"
  using bp.tasks_run [OF assms] accounting_run [OF assms] by (simp add: bbq_new_def)

theorem pool_runs_each_task_once_witness:
  "\<exists>s. run (pool_exec bbq_ops) pool_schedule (pool_new (bbq_new 10) 1 2 1) = Some s \<and> in_progress s = [7] \<and>
     map snd (started s) @ m_deque (taskQueue s) = [7] \<and>
     mset (map snd (started s)) = mset (completed s) + mset (in_progress s)"
proof -
  have "map_option in_progress (run (pool_exec bbq_ops) pool_schedule (pool_new (bbq_new 10) 1 2 1)) = Some [7]"
    by code_simp
  then obtain s where s: "run (pool_exec bbq_ops) pool_schedule (pool_new (bbq_new 10) 1 2 1) = Some s"
    "in_progress s = [7]" by auto
  have "events (pool_exec bbq_ops) (pool_lin bbq_ops) pool_schedule (pool_new (bbq_new 10) 1 2 1) = [7]"
    by code_simp
  with pool_runs_each_task_once [OF s(1)] s show ?thesis by simp
qed

text \<open>C39. Size: the vector of threads never has fewer than \<open>minPoolSize\<close> elements nor more than the larger
  of the two limits, and at most one more thread, the one in the zombie slot, is alive.\<close>

theorem pool_size_bounds:
  assumes "reachable pool_init (pool_exec ops) s"
  shows "minPoolSize s \<le> length (threads s) \<and> length (threads s) \<le> max (minPoolSize s) (maxPoolSize s) \<and>
     cnt live (wpcs s) \<le> max (minPoolSize s) (maxPoolSize s) + 1"
proof -
  have "pool_inv s" using assms by (rule pl.reachable_inv)
  with live_bound [OF this] show ?thesis by (auto simp: pool_inv_def)
qed

theorem pool_size_bounds_witness:
  "\<exists>s. run (pool_exec bbq_ops) pool_schedule (pool_new (bbq_new 10) 1 2 1) = Some s \<and>
     minPoolSize s \<le> length (threads s) \<and> length (threads s) \<le> max (minPoolSize s) (maxPoolSize s)"
proof -
  have "run (pool_exec bbq_ops) pool_schedule (pool_new (bbq_new 10) 1 2 1) \<noteq> None" by code_simp
  then obtain s where s: "run (pool_exec bbq_ops) pool_schedule (pool_new (bbq_new 10) 1 2 1) = Some s" by blast
  have "reachable pool_init (pool_exec bbq_ops) s"
    by (rule run_reachable [OF reachable.start s]) (auto simp: pool_init_def)
  from pool_size_bounds [OF this] s show ?thesis by blast
qed

text \<open>C26. No task is stuck while the pool has a floor of at least one worker: in every reachable state
  with a queued task, before the destructor is called, the workers alone can proceed until one of
  them starts the task at the head of the queue, whoever holds the mutex and whichever worker is
  retiring.\<close>

theorem pool_head_task_starts:
  assumes "reachable pool_init (pool_exec bbq_ops) s" "0 < minPoolSize s" "dpc s = DNone"
    "m_deque (taskQueue s) = k # ks"
  shows "\<exists>as s' t. run (pool_exec bbq_ops) as s = Some s' \<and> list_all worker_act as \<and> started s' = started s @ [(t, k)]"
proof -
  have "pool_inv s" using assms(1) by (rule pl.reachable_inv)
  from bp.head_task_starts [OF this assms(2-4)] show ?thesis by metis
qed

theorem pool_head_task_starts_witness:
  "\<exists>s as s' t. run (pool_exec bbq_ops) (take 3 pool_schedule) (pool_new (bbq_new 10) 1 2 1) = Some s \<and>
     run (pool_exec bbq_ops) as s = Some s' \<and> list_all worker_act as \<and> started s' = [(t, 7)]"
proof -
  have "map_option (\<lambda>s. (minPoolSize s, dpc s, m_deque (taskQueue s), started s))
      (run (pool_exec bbq_ops) (take 3 pool_schedule) (pool_new (bbq_new 10) 1 2 1)) = Some (1, DNone, [7], [])"
    by code_simp
  then obtain s where s: "run (pool_exec bbq_ops) (take 3 pool_schedule) (pool_new (bbq_new 10) 1 2 1) = Some s"
    "minPoolSize s = 1" "dpc s = DNone" "m_deque (taskQueue s) = [7]" "started s = []" by auto
  have "reachable pool_init (pool_exec bbq_ops) s"
    by (rule run_reachable [OF reachable.start s(1)]) (auto simp: pool_init_def)
  from pool_head_task_starts [OF this _ s(3,4)] s show ?thesis by auto
qed

text \<open>When the destructor has finished, every thread the pool ever created has exited, and nothing
  more can happen in the pool.\<close>

theorem pool_destroyed_quiet:
  assumes "reachable pool_init (pool_exec ops) s" "dpc s = DDone"
  shows "list_all (\<lambda>p. p = WExited) (wpcs s) \<and> pool_exec ops a s = None"
proof -
  have "pool_inv s" using assms(1) by (rule pl.reachable_inv)
  with assms(2) have "list_all (\<lambda>p. p = WExited) (wpcs s)" "list_all (\<lambda>p. p = CIdle) (cpcs s)"
    by (auto simp: pool_inv_def)
  with assms(2) show ?thesis by (cases a) (auto simp: list_all_length)
qed

theorem pool_destroyed_quiet_witness:
  "\<exists>s. run (pool_exec bbq_ops) drop_schedule (pool_new (bbq_new 10) 1 2 1) = Some s \<and>
     list_all (\<lambda>p. p = WExited) (wpcs s) \<and> pool_exec bbq_ops (PCall 0 8) s = None"
proof -
  have "map_option dpc (run (pool_exec bbq_ops) drop_schedule (pool_new (bbq_new 10) 1 2 1)) = Some DDone"
    by code_simp
  then obtain s where s: "run (pool_exec bbq_ops) drop_schedule (pool_new (bbq_new 10) 1 2 1) = Some s"
    "dpc s = DDone" by auto
  have "reachable pool_init (pool_exec bbq_ops) s"
    by (rule run_reachable [OF reachable.start s(1)]) (auto simp: pool_init_def)
  from pool_destroyed_quiet [OF this s(2), of "PCall 0 8"] s(1) show ?thesis by blast
qed

text \<open>The destructor does not run the queued tasks: after this schedule the pool is destroyed and the
  accepted task was never started.\<close>

theorem pool_destructor_drops_tasks:
  "\<exists>s. run (pool_exec bbq_ops) drop_schedule (pool_new (bbq_new 10) 1 2 1) = Some s \<and> dpc s = DDone \<and>
     events (pool_exec bbq_ops) (pool_lin bbq_ops) drop_schedule (pool_new (bbq_new 10) 1 2 1) = [7] \<and> started s = []"
proof -
  have "map_option (\<lambda>s. (dpc s, started s)) (run (pool_exec bbq_ops) drop_schedule (pool_new (bbq_new 10) 1 2 1)) =
      Some (DDone, [])"
    by code_simp
  moreover have "events (pool_exec bbq_ops) (pool_lin bbq_ops) drop_schedule (pool_new (bbq_new 10) 1 2 1) = [7]"
    by code_simp
  ultimately show ?thesis by auto
qed

text \<open>A pool with \<open>minPoolSize\<close> 0 does not run a task enqueued alone: \<open>adjustSize\<close> looks at the queue before
  the task is pushed, so that no worker is created, and until another \<open>enqueue\<close> nothing starts it.\<close>

theorem pool_min_zero_starves:
  "\<exists>s. run (pool_exec bbq_ops) (take 3 pool_schedule) (pool_new (bbq_new 10) 0 2 1) = Some s \<and>
     m_deque (taskQueue s) = [7] \<and> cpcs s = [CIdle] \<and>
     (\<forall>as. case run (pool_exec bbq_ops) (filter (\<lambda>a. \<not> is_call a) as) s of None \<Rightarrow> True | Some s' \<Rightarrow> started s' = [])"
proof -
  have "map_option (\<lambda>s. (wpcs s, m_deque (taskQueue s), cpcs s, started s))
      (run (pool_exec bbq_ops) (take 3 pool_schedule) (pool_new (bbq_new 10) 0 2 1)) = Some ([], [7], [CIdle], [])"
    by code_simp
  then obtain s where s: "run (pool_exec bbq_ops) (take 3 pool_schedule) (pool_new (bbq_new 10) 0 2 1) = Some s"
    "m_deque (taskQueue s) = [7]" "cpcs s = [CIdle]" "starved s" by (auto simp: starved_def)
  have "case run (pool_exec bbq_ops) (filter (\<lambda>a. \<not> is_call a) as) s of None \<Rightarrow> True | Some s' \<Rightarrow> started s' = []" for as
    using starved_run [OF s(4), of bbq_ops "filter (\<lambda>a. \<not> is_call a) as"] by (auto simp: starved_def split: option.splits)
  with s show ?thesis by blast
qed

end
