(* ===== verification/PoolOverQueue.thy ===== *)
theory PoolOverQueue
  imports DynamicThreadPool
begin

text \<open>
  \<^verbatim>\<open>src/task/dynamicthreadpool.cpp\<close> and \<^verbatim>\<open>include/miniruntime/task/boundedblockingqueue.h\<close> composed: the pool with the
  methods of its queue executed statement by statement. \<open>DynamicThreadPool\<close> runs \<open>push\<close>, \<open>timeoutPop\<close> and \<open>close\<close> of
  the queue as single steps; here a worker, a client or the destructor calls the method, its statements
  interleave with everything else (mutex, condition variables, spurious wake-ups, timeouts), and then it
  returns. \<open>adjustSize\<close> stays one step, enabled when the mutex of the pool and that of the queue are free:
  \<open>size\<close> only reads the length under the lock of the queue.

  What the pool relies on is the contract \<open>atomic_object\<close>, interpreted on the bounded queue: an operation takes effect at one
  step between call and return, and returns the result of that moment. Proved: every run of the composition is a run
  of the pool over the atomic queue, so that what is proved there holds here.
\<close>

section \<open>State and steps\<close>

text \<open>
  The queue's threads are the clients, the destructor and the workers, in this order; \<open>in_call\<close> says whether a
  thread is between the call of a method of the queue and its return.
\<close>

record 't fine_pool =
  fpool :: "('t, 't bbq_sys) pool"
  in_call :: "bool list"

definition destroyer_thread :: "('t, 'q) pool \<Rightarrow> tid" where
  "destroyer_thread p = length (cpcs p)"

definition worker_thread :: "('t, 'q) pool \<Rightarrow> tid \<Rightarrow> tid" where
  "worker_thread p t = Suc (length (cpcs p)) + t"

text \<open>\<open>createQueue\<close> looks at how the queue can be constructed: from a size, or by default. The bounded queue is constructed
  from its size; it is used by the \<open>clients\<close>, the destructor and \<open>w\<close> workers.\<close>

datatype 'q queue_constructor = FromSize "nat \<Rightarrow> 'q" | ByDefault 'q

fun createQueue :: "'q queue_constructor \<Rightarrow> nat \<Rightarrow> 'q" where
  "createQueue (FromSize new) taskQueueSize = new taskQueueSize"
| "createQueue (ByDefault q) taskQueueSize = q"

definition fine_new :: "nat \<Rightarrow> nat \<Rightarrow> nat \<Rightarrow> nat \<Rightarrow> nat \<Rightarrow> 't fine_pool" where
  "fine_new w taskQueueSize mn mx clients =
     \<lparr>fpool = pool_new (createQueue (FromSize (bbq_sys_new (Suc clients + w))) taskQueueSize) mn mx clients,
      in_call = replicate (Suc clients + w) False\<rparr>"

text \<open>The method of the queue at which a thread is.\<close>

fun push_wanted :: "'t pclient_pc \<Rightarrow> 't bbq_op option" where
  "push_wanted (CPush k) = Some (OpPush k)"
| "push_wanted _ = None"

fun pop_wanted :: "'t pworker_pc \<Rightarrow> 't bbq_op option" where
  "pop_wanted WTimeoutPop = Some OpTimeoutPop"
| "pop_wanted _ = None"

fun close_wanted :: "destroyer_pc \<Rightarrow> 't bbq_op option" where
  "close_wanted DClose = Some OpClose"
| "close_wanted _ = None"

definition wanted :: "('t, 'q) pool \<Rightarrow> tid \<Rightarrow> 't bbq_op option" where
  "wanted p th =
     (if th < length (cpcs p) then push_wanted (cpcs p ! th)
      else if th = destroyer_thread p then close_wanted (dpc p)
      else let t = th - Suc (length (cpcs p)) in if t < length (wpcs p) then pop_wanted (wpcs p ! t) else None)"

text \<open>Where a thread goes on when the method has returned.\<close>

fun after_pop :: "'t bbq_res \<Rightarrow> 't pworker_pc" where
  "after_pop (ROpt (Some k)) = WRun k"
| "after_pop _ = WTryLock"

definition queue_return :: "tid \<Rightarrow> 't bbq_res \<Rightarrow> ('t, 'q) pool \<Rightarrow> ('t, 'q) pool" where
  "queue_return th r p =
     (if th < length (cpcs p) then cgoto th CIdle p
      else if th = destroyer_thread p then p\<lparr>dpc := DLock\<rparr>
      else wgoto (th - Suc (length (cpcs p))) (after_pop r) p)"

text \<open>The worker that takes a task, when the queue gives it one.\<close>

fun taken :: "nat \<Rightarrow> 't bbq_event option \<Rightarrow> (tid \<times> 't) list" where
  "taken clients (Some (th, OpTimeoutPop, ROpt (Some k))) = [(th - Suc clients, k)]"
| "taken clients _ = []"

text \<open>The steps of the pool proper; of the queue they only use \<open>size\<close>.\<close>

definition size_ops :: "('t, 't bbq_sys) queue_ops" where
  "size_ops = \<lparr>q_push = (\<lambda>v q. None), q_pop = (\<lambda>q. None), q_timeoutPop = (\<lambda>q. (None, q)), q_close = (\<lambda>q. q),
     q_size = (\<lambda>q. of_nat (length (m_deque q)))\<rparr>"

fun pool_proper :: "'t pool_act \<Rightarrow> ('t, 't bbq_sys) pool \<Rightarrow> bool" where
  "pool_proper (PWorker t) p = (wpcs p ! t \<noteq> WTimeoutPop)"
| "pool_proper (PClient c) p = ((case cpcs p ! c of CPush k \<Rightarrow> False | _ \<Rightarrow> True) \<and> m_mutex (taskQueue p) = None)"
| "pool_proper PDestroyer p = (dpc p \<noteq> DClose)"
| "pool_proper _ p = True"

datatype 't fine_act =
    FPool "'t pool_act"            \<comment> \<open>a step outside the queue\<close>
  | FCall tid                      \<comment> \<open>call of the method\<close>
  | FQueue tid "'t bbq_act"        \<comment> \<open>a statement of the method\<close>
  | FReturn tid

fun fine_exec :: "'t fine_act \<Rightarrow> 't fine_pool \<Rightarrow> 't fine_pool option" where
  "fine_exec (FPool a) s =
     (if pool_proper a (fpool s) then map_option (\<lambda>p. s\<lparr>fpool := p\<rparr>) (pool_exec size_ops a (fpool s)) else None)"
| "fine_exec (FCall th) s =
     (case wanted (fpool s) th of
        Some oper \<Rightarrow>
          if th < length (in_call s) \<and> \<not> in_call s ! th
          then map_option (\<lambda>q. s\<lparr>fpool := (fpool s)\<lparr>taskQueue := q\<rparr>, in_call := (in_call s)[th := True]\<rparr>)
                 (bbq_exec (th, Call oper) (taskQueue (fpool s)))
          else None
      | None \<Rightarrow> None)"
| "fine_exec (FQueue th a) s =
     (if th < length (in_call s) \<and> in_call s ! th \<and> (case a of Call oper \<Rightarrow> False | _ \<Rightarrow> True)
      then map_option (\<lambda>q. s\<lparr>fpool := (fpool s)\<lparr>taskQueue := q, started := started (fpool s) @
               taken (length (cpcs (fpool s))) (bbq_lin (th, a) (taskQueue (fpool s)))\<rparr>\<rparr>)
             (bbq_exec (th, a) (taskQueue (fpool s)))
      else None)"
| "fine_exec (FReturn th) s =
     (if th < length (in_call s) \<and> in_call s ! th then
        (case pcs (taskQueue (fpool s)) ! th of
           Done r \<Rightarrow> Some (s\<lparr>fpool := queue_return th r (fpool s), in_call := (in_call s)[th := False]\<rparr>)
         | _ \<Rightarrow> None)
      else None)"

definition fine_init :: "'t fine_pool \<Rightarrow> bool" where
  "fine_init s \<longleftrightarrow> (\<exists>w cap mn mx c. s = fine_new w cap mn mx c)"

section \<open>Abstraction and invariant\<close>

text \<open>The result a call in progress is bound to return.\<close>

definition bound :: "'t fine_pool \<Rightarrow> tid \<Rightarrow> 't bbq_res option" where
  "bound s th = (if th < length (in_call s) \<and> in_call s ! th then bbq_committed (taskQueue (fpool s)) th else None)"

fun worker_seen :: "'t bbq_res option \<Rightarrow> 't pworker_pc \<Rightarrow> 't pworker_pc" where
  "worker_seen (Some r) WTimeoutPop = after_pop r"
| "worker_seen _ p = p"

fun client_seen :: "'t bbq_res option \<Rightarrow> 't pclient_pc \<Rightarrow> 't pclient_pc" where
  "client_seen (Some r) (CPush k) = CIdle"
| "client_seen _ p = p"

fun destroyer_seen :: "'t bbq_res option \<Rightarrow> destroyer_pc \<Rightarrow> destroyer_pc" where
  "destroyer_seen (Some r) DClose = DLock"
| "destroyer_seen _ p = p"

definition imap :: "(nat \<Rightarrow> 'x \<Rightarrow> 'y) \<Rightarrow> 'x list \<Rightarrow> 'y list" where
  "imap f xs = map (\<lambda>i. f i (xs ! i)) [0 ..< length xs]"

text \<open>The pool over the atomic queue that a state stands for: a call that has taken effect counts as returned.\<close>

definition pool_seen :: "(tid \<Rightarrow> 't bbq_res option) \<Rightarrow> 't bbq \<Rightarrow> ('t, 't bbq_sys) pool \<Rightarrow> ('t, 't bbq) pool" where
  "pool_seen b q p =
     \<lparr>threads = threads p, taskQueue = q, zombie = zombie p, pool_locked = pool_locked p, minPoolSize = minPoolSize p,
      maxPoolSize = maxPoolSize p, wpcs = imap (\<lambda>t. worker_seen (b (worker_thread p t))) (wpcs p), stops = stops p,
      cpcs = imap (\<lambda>c. client_seen (b c)) (cpcs p), dpc = destroyer_seen (b (destroyer_thread p)) (dpc p),
      started = started p, completed = completed p\<rparr>"

definition fine_abs :: "'t fine_pool \<Rightarrow> ('t, 't bbq) pool" where
  "fine_abs s = pool_seen (bound s) (bbq_abs (taskQueue (fpool s))) (fpool s)"

text \<open>The step of that pool at which an action takes effect.\<close>

definition actor :: "('t, 'q) pool \<Rightarrow> tid \<Rightarrow> 't pool_act" where
  "actor p th = (if th < length (cpcs p) then PClient th else if th = destroyer_thread p then PDestroyer
     else PWorker (th - Suc (length (cpcs p))))"

fun fine_lin :: "'t fine_act \<Rightarrow> 't fine_pool \<Rightarrow> 't pool_act option" where
  "fine_lin (FPool a) s = Some a"
| "fine_lin (FQueue th a) s =
     (case bbq_lin (th, a) (taskQueue (fpool s)) of None \<Rightarrow> None | Some e \<Rightarrow> Some (actor (fpool s) th))"
| "fine_lin _ s = None"

text \<open>A call in progress is a call of the method at which its thread is.\<close>

definition call_ok :: "'t fine_pool \<Rightarrow> tid \<Rightarrow> bool" where
  "call_ok s th \<longleftrightarrow> (in_call s ! th \<longrightarrow>
     wanted (fpool s) th \<noteq> None \<and> bbq_requested (taskQueue (fpool s)) th \<in> {None, wanted (fpool s) th})"

definition fine_inv :: "'t fine_pool \<Rightarrow> bool" where
  "fine_inv s \<longleftrightarrow> pool_inv (fine_abs s) \<and> bbq_inv (taskQueue (fpool s)) \<and> length (in_call s) = length (pcs (taskQueue (fpool s))) \<and>
     (\<forall>th < length (in_call s). call_ok s th)"

text \<open>Only threads at a method of the queue are bound to a result.\<close>

definition only_wanted :: "(tid \<Rightarrow> 't bbq_res option) \<Rightarrow> ('t, 't bbq_sys) pool \<Rightarrow> bool" where
  "only_wanted b p \<longleftrightarrow> (\<forall>th. b th \<noteq> None \<longrightarrow> wanted p th \<noteq> None)"

text \<open>The tasks the queue accepts.\<close>

fun fine_accepted :: "'t fine_act \<Rightarrow> 't fine_pool \<Rightarrow> 't option" where
  "fine_accepted (FQueue th a) s =
     (case bbq_lin (th, a) (taskQueue (fpool s)) of Some (u, OpPush k, RBool True) \<Rightarrow> Some k | _ \<Rightarrow> None)"
| "fine_accepted _ s = None"

text \<open>A worker waits in \<open>timeoutPop\<close>, the client pushes a task and wakes it, the worker runs the task.\<close>

definition fine_schedule :: "nat fine_act list" where
  "fine_schedule = [FPool (PCall 0 7), FPool (PClient 0), FPool (PWorker 0), FCall 2, FQueue 2 Step, FQueue 2 Step, FQueue 2 Step,
     FCall 0, FQueue 0 Step, FQueue 0 Step, FQueue 0 Step, FQueue 0 Step, FQueue 0 Step, FQueue 0 (Wake 2), FReturn 0,
     FQueue 2 Step, FQueue 2 Step, FQueue 2 Step, FQueue 2 Step, FQueue 2 Step, FQueue 2 Step, FReturn 2, FPool (PWorker 0)]"

section \<open>Lemmas\<close>

lemma length_imap [simp]: "length (imap f xs) = length xs"
  by (simp add: imap_def)

lemma nth_imap [simp]: "i < length xs \<Longrightarrow> imap f xs ! i = f i (xs ! i)"
  by (simp add: imap_def)

lemma imap_update: "imap f (xs[t := x]) = (imap f xs)[t := f t x]"
proof (rule nth_equalityI)
  show "imap f (xs[t := x]) ! i = (imap f xs)[t := f t x] ! i" if "i < length (imap f (xs[t := x]))" for i
    using that by (cases "i = t") simp_all
qed simp

lemma imap_append: "imap f (xs @ ys) = imap f xs @ imap (\<lambda>i. f (length xs + i)) ys"
  by (rule nth_equalityI) (auto simp: nth_append)

lemma imap_cong: "(\<And>i. i < length xs \<Longrightarrow> f i (xs ! i) = g i (xs ! i)) \<Longrightarrow> imap f xs = imap g xs"
  by (rule nth_equalityI) auto

lemma imap_replicate: "(\<And>i. i < n \<Longrightarrow> f i x = y) \<Longrightarrow> imap f (replicate n x) = replicate n y"
  by (rule nth_equalityI) auto

lemma imap_id: "(\<And>i x. f i x = x) \<Longrightarrow> imap f xs = xs"
  by (rule nth_equalityI) auto

text \<open>The view of the pool and its steps.\<close>

lemma pool_seen_simps [simp]:
  "threads (pool_seen b q p) = threads p" "taskQueue (pool_seen b q p) = q" "zombie (pool_seen b q p) = zombie p"
  "pool_locked (pool_seen b q p) = pool_locked p" "minPoolSize (pool_seen b q p) = minPoolSize p"
  "maxPoolSize (pool_seen b q p) = maxPoolSize p" "stops (pool_seen b q p) = stops p" "started (pool_seen b q p) = started p"
  "completed (pool_seen b q p) = completed p" "length (wpcs (pool_seen b q p)) = length (wpcs p)"
  "length (cpcs (pool_seen b q p)) = length (cpcs p)"
  "t < length (wpcs p) \<Longrightarrow> wpcs (pool_seen b q p) ! t = worker_seen (b (worker_thread p t)) (wpcs p ! t)"
  "c < length (cpcs p) \<Longrightarrow> cpcs (pool_seen b q p) ! c = client_seen (b c) (cpcs p ! c)"
  "dpc (pool_seen b q p) = destroyer_seen (b (destroyer_thread p)) (dpc p)"
  by (simp_all add: pool_seen_def)

lemma seen_wgoto: "pool_seen b q (wgoto t x p) = wgoto t (worker_seen (b (worker_thread p t)) x) (pool_seen b q p)"
  by (simp add: pool_seen_def wgoto_def imap_update worker_thread_def destroyer_thread_def)

lemma seen_cgoto: "pool_seen b q (cgoto c x p) = cgoto c (client_seen (b c) x) (pool_seen b q p)"
  by (simp add: pool_seen_def cgoto_def imap_update worker_thread_def destroyer_thread_def)

lemma seen_create: "pool_seen b q (createNThreads n p) = createNThreads n (pool_seen b q p)"
  by (simp add: pool_seen_def createNThreads_def worker_thread_def destroyer_thread_def imap_append imap_replicate)

lemma seen_frames:
  "pool_seen b q (p\<lparr>pool_locked := l\<rparr>) = (pool_seen b q p)\<lparr>pool_locked := l\<rparr>"
  "pool_seen b q (p\<lparr>completed := ks\<rparr>) = (pool_seen b q p)\<lparr>completed := ks\<rparr>"
  "pool_seen b q (p\<lparr>stops := st\<rparr>) = (pool_seen b q p)\<lparr>stops := st\<rparr>"
  "pool_seen b q (p\<lparr>dpc := d\<rparr>) = (pool_seen b q p)\<lparr>dpc := destroyer_seen (b (destroyer_thread p)) d\<rparr>"
  "pool_seen b q (retire t p) = retire t (pool_seen b q p)"
  "pool_seen b q (request_stops p) = request_stops (pool_seen b q p)"
  by (simp_all add: pool_seen_def worker_thread_def destroyer_thread_def retire_def wgoto_def request_stops_def imap_update)

lemmas seen_steps = seen_wgoto seen_cgoto seen_create seen_frames

text \<open>Threads that are not at a method of the queue look as they are.\<close>

lemma wanted_thread [simp]:
  "t < length (wpcs p) \<Longrightarrow> wanted p (worker_thread p t) = pop_wanted (wpcs p ! t)"
  "wanted p (destroyer_thread p) = close_wanted (dpc p)"
  "c < length (cpcs p) \<Longrightarrow> wanted p c = push_wanted (cpcs p ! c)"
  by (simp_all add: wanted_def worker_thread_def destroyer_thread_def)

lemma only_wantedD:
  assumes "only_wanted b p"
  shows "t < length (wpcs p) \<Longrightarrow> wpcs p ! t \<noteq> WTimeoutPop \<Longrightarrow> b (worker_thread p t) = None"
    and "c < length (cpcs p) \<Longrightarrow> \<forall>k. cpcs p ! c \<noteq> CPush k \<Longrightarrow> b c = None"
    and "dpc p \<noteq> DClose \<Longrightarrow> b (destroyer_thread p) = None"
proof -
  have n: "wanted p th = None \<Longrightarrow> b th = None" for th using assms by (auto simp: only_wanted_def)
  show "t < length (wpcs p) \<Longrightarrow> wpcs p ! t \<noteq> WTimeoutPop \<Longrightarrow> b (worker_thread p t) = None"
    by (rule n, cases "wpcs p ! t") simp_all
  show "c < length (cpcs p) \<Longrightarrow> \<forall>k. cpcs p ! c \<noteq> CPush k \<Longrightarrow> b c = None"
    by (rule n, cases "cpcs p ! c") simp_all
  show "dpc p \<noteq> DClose \<Longrightarrow> b (destroyer_thread p) = None"
    by (rule n, cases "dpc p") simp_all
qed

lemma worker_seen_same [simp]: "p \<noteq> WTimeoutPop \<Longrightarrow> worker_seen b p = p" "worker_seen None p = p"
  by (cases b; cases p; simp)+

lemma client_seen_same [simp]: "\<forall>k. p \<noteq> CPush k \<Longrightarrow> client_seen b p = p" "client_seen None p = p"
  by (cases b; cases p; simp)+

lemma destroyer_seen_same [simp]: "p \<noteq> DClose \<Longrightarrow> destroyer_seen b p = p" "destroyer_seen None p = p"
  by (cases b; cases p; simp)+

lemma worker_seen_exited [simp]: "worker_seen b p = WExited \<longleftrightarrow> p = WExited"
  by (cases "(b, p)" rule: worker_seen.cases) (auto elim: after_pop.elims)

lemma adjust_seen:
  assumes "m_mutex (taskQueue p) = None"
  shows "adjustSize bbq_ops (pool_seen b (bbq_abs (taskQueue p)) p) = pool_seen b (bbq_abs (taskQueue p)) (adjustSize size_ops p)"
  using assms by (simp add: adjustSize_def Let_def bbq_ops_def size_ops_def bbq_size_def bbq_abs_def pending_def seen_create)

text \<open>A step outside the queue is a step of the pool over the atomic queue, and moves no thread that is at a method.\<close>

lemma wanted_wgoto:
  assumes "t < length (wpcs p)" "wpcs p ! t \<noteq> WTimeoutPop" "wanted p th \<noteq> None"
  shows "wanted (wgoto t x p) th = wanted p th"
proof -
  have "pop_wanted (wpcs p ! t) = None" using assms(2) by (cases "wpcs p ! t") simp_all
  with assms(1,3) show ?thesis by (auto simp: wanted_def destroyer_thread_def Let_def nth_list_update split: if_splits)
qed

lemma wanted_cgoto:
  assumes "c < length (cpcs p)" "\<forall>k. cpcs p ! c \<noteq> CPush k" "wanted p th \<noteq> None"
  shows "wanted (cgoto c x p) th = wanted p th"
proof -
  have "push_wanted (cpcs p ! c) = None" using assms(2) by (cases "cpcs p ! c") simp_all
  with assms(1,3) show ?thesis by (auto simp: wanted_def destroyer_thread_def Let_def nth_list_update split: if_splits)
qed

lemma wanted_dpc:
  assumes "dpc p \<noteq> DClose" "wanted p th \<noteq> None"
  shows "wanted (p\<lparr>dpc := d\<rparr>) th = wanted p th"
  using assms by (cases "dpc p") (auto simp: wanted_def destroyer_thread_def Let_def split: if_splits)

lemma wanted_create: "wanted p th \<noteq> None \<Longrightarrow> wanted (createNThreads n p) th = wanted p th"
  by (auto simp: wanted_def destroyer_thread_def Let_def nth_append split: if_splits)

lemma wanted_frames [simp]:
  "wanted (p\<lparr>pool_locked := l\<rparr>) th = wanted p th" "wanted (p\<lparr>completed := ks\<rparr>) th = wanted p th"
  "wanted (p\<lparr>stops := st\<rparr>) th = wanted p th" "wanted (request_stops p) th = wanted p th"
  "wanted (p\<lparr>taskQueue := q\<rparr>) th = wanted p th" "wanted (p\<lparr>taskQueue := q, started := js\<rparr>) th = wanted p th"
  by (simp_all add: wanted_def destroyer_thread_def Let_def)

lemma wanted_retire:
  assumes "t < length (wpcs p)" "wpcs p ! t \<noteq> WTimeoutPop" "wanted p th \<noteq> None"
  shows "wanted (retire t p) th = wanted p th"
proof -
  have "wanted (retire t p) th = wanted (wgoto t WReturning p) th" by (simp add: wanted_def destroyer_thread_def Let_def)
  with wanted_wgoto [OF assms] show ?thesis by simp
qed

lemma worker_proper:
  assumes "t < length (wpcs p)" "wpcs p ! t \<noteq> WTimeoutPop" "pworker_step size_ops t (wpcs p ! t) p = Some p'"
    and "only_wanted b p" "\<forall>z. zombie p = Some z \<longrightarrow> z < length (wpcs p)"
  shows "pworker_step ops t (wpcs p ! t) (pool_seen b q p) = Some (pool_seen b q p') \<and>
    taskQueue p' = taskQueue p \<and> cpcs p' = cpcs p \<and> (wanted p th \<noteq> None \<longrightarrow> wanted p' th = wanted p th)"
proof -
  note w = only_wantedD(1) [OF assms(4,1,2)]
  show ?thesis
  proof (cases "wpcs p ! t")
    case WLocked
    with assms w show ?thesis by (auto simp: seen_steps wanted_wgoto simp del: not_None_eq split: if_splits)
  next
    case WZombie
    with assms w show ?thesis by (auto simp: seen_steps wanted_retire simp del: not_None_eq split: option.splits)
  qed (use assms w in \<open>auto simp: seen_steps wanted_wgoto simp del: not_None_eq\<close>)
qed

lemma adjust_wanted: "wanted p th \<noteq> None \<Longrightarrow> wanted (adjustSize ops p) th = wanted p th"
  by (simp add: adjustSize_def Let_def wanted_create del: not_None_eq)

lemma adjustSize_frame [simp]: "taskQueue (adjustSize ops p) = taskQueue p" "cpcs (adjustSize ops p) = cpcs p"
  by (simp_all add: adjustSize_def Let_def)

lemma client_proper:
  assumes "c < length (cpcs p)" "\<forall>k. cpcs p ! c \<noteq> CPush k" "pclient_step size_ops c (cpcs p ! c) p = Some p'"
    and "only_wanted b p" "m_mutex (taskQueue p) = None"
  shows "pclient_step bbq_ops c (cpcs p ! c) (pool_seen b (bbq_abs (taskQueue p)) p) = Some (pool_seen b (bbq_abs (taskQueue p)) p') \<and>
    taskQueue p' = taskQueue p \<and> length (cpcs p') = length (cpcs p) \<and> (wanted p th \<noteq> None \<longrightarrow> wanted p' th = wanted p th)"
proof -
  note w = only_wantedD(2) [OF assms(4,1,2)]
  show ?thesis
  proof (cases "cpcs p ! c")
    case (CAdjust k)
    with assms w show ?thesis
      by (auto simp: seen_cgoto adjust_seen adjust_wanted wanted_cgoto simp del: not_None_eq)
  qed (use assms in auto)
qed

lemma destroyer_proper:
  assumes "dpc p \<noteq> DClose" "destroyer_step size_ops (dpc p) p = Some p'" "only_wanted b p"
    and "\<forall>z. zombie p = Some z \<longrightarrow> z < length (wpcs p)" "set (threads p) \<subseteq> {..< length (wpcs p)}"
  shows "destroyer_step ops (dpc p) (pool_seen b q p) = Some (pool_seen b q p') \<and>
    taskQueue p' = taskQueue p \<and> cpcs p' = cpcs p \<and> (wanted p th \<noteq> None \<longrightarrow> wanted p' th = wanted p th)"
proof -
  note w = only_wantedD(3) [OF assms(3,1)]
  have j: "list_all (\<lambda>t. wpcs (pool_seen b q p) ! t = WExited) (threads p)" if "list_all (\<lambda>t. wpcs p ! t = WExited) (threads p)"
    using that assms(5) by (auto simp: list_all_iff)
  show ?thesis
  proof (cases "dpc p")
    case DMembers
    with assms w show ?thesis by (auto simp: seen_steps wanted_dpc simp del: not_None_eq split: option.splits)
  next
    case DStop
    with assms w show ?thesis
      by (auto simp: seen_steps wanted_dpc destroyer_thread_def simp del: not_None_eq)
  qed (use assms w j in \<open>auto simp: seen_steps wanted_dpc simp del: not_None_eq\<close>)
qed

lemma proper_step:
  assumes "pool_proper a p" "pool_exec size_ops a p = Some p'" "only_wanted b p" "pool_inv (pool_seen b (bbq_abs (taskQueue p)) p)"
  shows "pool_exec bbq_ops a (pool_seen b (bbq_abs (taskQueue p)) p) = Some (pool_seen b (bbq_abs (taskQueue p)) p') \<and>
    taskQueue p' = taskQueue p \<and> length (cpcs p') = length (cpcs p) \<and> (wanted p th \<noteq> None \<longrightarrow> wanted p' th = wanted p th)"
proof -
  have r: "\<forall>z. zombie p = Some z \<longrightarrow> z < length (wpcs p)" "set (threads p) \<subseteq> {..< length (wpcs p)}"
    using assms(4) by (simp_all add: pool_inv_def)
  show ?thesis
  proof (cases a)
    case (PCall c k)
    with assms(2) have c: "c < length (cpcs p)" "cpcs p ! c = CIdle" "dpc p = DNone" "p' = cgoto c (CAdjust k) p" by auto
    with only_wantedD(2) [OF assms(3) c(1)] PCall show ?thesis
      by (auto simp: seen_cgoto wanted_cgoto simp del: not_None_eq)
  next
    case (PClient c)
    with assms(1,2) have c: "c < length (cpcs p)" "\<forall>k. cpcs p ! c \<noteq> CPush k" "pclient_step size_ops c (cpcs p ! c) p = Some p'"
      "m_mutex (taskQueue p) = None" by (auto split: if_splits)
    with client_proper [OF c(1-3) assms(3) c(4)] PClient show ?thesis by simp
  next
    case (PWorker t)
    with assms(1,2) have t: "t < length (wpcs p)" "wpcs p ! t \<noteq> WTimeoutPop" "pworker_step size_ops t (wpcs p ! t) p = Some p'"
      by (auto split: if_splits)
    with worker_proper [OF t assms(3) r(1)] PWorker show ?thesis by simp
  next
    case (PTimeout t)
    with assms(2) have t: "t < length (wpcs p)" "wpcs p ! t = WTryLock" "p' = wgoto t WStopCheck p" by auto
    with PTimeout show ?thesis by (auto simp: seen_wgoto wanted_wgoto simp del: not_None_eq)
  next
    case PDestroy
    with assms(2) have "dpc p = DNone" "list_all (\<lambda>c. c = CIdle) (cpcs p)" "p' = p\<lparr>dpc := DStop\<rparr>" by auto
    with PDestroy show ?thesis by (auto simp: seen_frames list_all_length wanted_dpc simp del: not_None_eq)
  next
    case PDestroyer
    with assms(1,2) have d: "dpc p \<noteq> DClose" "destroyer_step size_ops (dpc p) p = Some p'" by auto
    with destroyer_proper [OF d assms(3) r] PDestroyer show ?thesis by simp
  qed
qed

text \<open>A call that takes effect is the step of its thread in the pool over the atomic queue.\<close>

lemma imap_change:
  assumes "\<And>j. j < length xs \<Longrightarrow> j \<noteq> i \<Longrightarrow> f j (xs ! j) = g j (xs ! j)"
  shows "imap f xs = (imap g xs)[i := f i (xs ! i)]"
proof (rule nth_equalityI)
  show "imap f xs ! j = (imap g xs)[i := f i (xs ! i)] ! j" if "j < length (imap f xs)" for j
    using that assms by (cases "j = i") simp_all
qed simp

lemma seen_queue [simp]:
  "pool_seen b q (p\<lparr>taskQueue := x\<rparr>) = pool_seen b q p"
  "pool_seen b q (p\<lparr>taskQueue := x, started := js\<rparr>) = (pool_seen b q p)\<lparr>started := js\<rparr>"
  by (simp_all add: pool_seen_def worker_thread_def destroyer_thread_def)

lemma seen_bind_client:
  assumes "c < length (cpcs p)"
  shows "pool_seen (b(c := x)) q p = cgoto c (client_seen x (cpcs p ! c)) (pool_seen b q p)"
proof -
  have "imap (\<lambda>i. client_seen ((b(c := x)) i)) (cpcs p) =
      (imap (\<lambda>i. client_seen (b i)) (cpcs p))[c := client_seen x (cpcs p ! c)]"
    by (subst imap_change [where i = c and g = "\<lambda>i. client_seen (b i)"]) simp_all
  moreover have "worker_thread p t \<noteq> c" "destroyer_thread p \<noteq> c" for t
    using assms by (simp_all add: worker_thread_def destroyer_thread_def)
  ultimately show ?thesis by (simp add: pool_seen_def cgoto_def)
qed

lemma seen_bind_destroyer:
  "pool_seen (b(destroyer_thread p := x)) q p = (pool_seen b q p)\<lparr>dpc := destroyer_seen x (dpc p)\<rparr>"
proof -
  have "imap (\<lambda>i. client_seen ((b(destroyer_thread p := x)) i)) (cpcs p) = imap (\<lambda>i. client_seen (b i)) (cpcs p)"
    by (rule imap_cong) (simp add: destroyer_thread_def)
  moreover have "worker_thread p t \<noteq> destroyer_thread p" for t
    by (simp add: worker_thread_def destroyer_thread_def)
  ultimately show ?thesis by (simp add: pool_seen_def)
qed

lemma seen_bind_worker:
  "pool_seen (b(worker_thread p t := x)) q p = wgoto t (worker_seen x (wpcs p ! t)) (pool_seen b q p)"
proof -
  have "imap (\<lambda>i. worker_seen ((b(worker_thread p t := x)) (worker_thread p i))) (wpcs p) =
      (imap (\<lambda>i. worker_seen (b (worker_thread p i))) (wpcs p))[t := worker_seen x (wpcs p ! t)]"
    by (subst imap_change [where i = t and g = "\<lambda>i. worker_seen (b (worker_thread p i))"]) (simp_all add: worker_thread_def)
  moreover have "imap (\<lambda>i. client_seen ((b(worker_thread p t := x)) i)) (cpcs p) = imap (\<lambda>i. client_seen (b i)) (cpcs p)"
    by (rule imap_cong) (simp add: worker_thread_def)
  moreover have "destroyer_thread p \<noteq> worker_thread p t"
    by (simp add: worker_thread_def destroyer_thread_def)
  ultimately show ?thesis by (simp add: pool_seen_def wgoto_def)
qed

lemmas seen_bind = seen_bind_client seen_bind_destroyer seen_bind_worker

lemma thread_cases:
  assumes "wanted p th = Some oper"
  obtains (client) k where "th < length (cpcs p)" "cpcs p ! th = CPush k" "oper = OpPush k"
  | (destroyer) "th = destroyer_thread p" "dpc p = DClose" "oper = OpClose"
  | (worker) t where "th = worker_thread p t" "t < length (wpcs p)" "wpcs p ! t = WTimeoutPop" "oper = OpTimeoutPop"
proof (cases "th < length (cpcs p)")
  case True
  with assms client show thesis by (cases "cpcs p ! th") simp_all
next
  case False
  show thesis
  proof (cases "th = destroyer_thread p")
    case True
    with assms destroyer show thesis by (cases "dpc p") auto
  next
    case False
    let ?t = "th - Suc (length (cpcs p))"
    from False \<open>\<not> th < length (cpcs p)\<close> have "th = worker_thread p ?t" by (simp add: worker_thread_def destroyer_thread_def)
    moreover from this assms False have "?t < length (wpcs p)" "pop_wanted (wpcs p ! ?t) = Some oper"
      by (auto simp: wanted_def worker_thread_def destroyer_thread_def Let_def split: if_splits)
    ultimately show thesis using worker [of ?t] by (cases "wpcs p ! ?t") simp_all
  qed
qed

lemma actor_simps [simp]:
  "c < length (cpcs p) \<Longrightarrow> actor p c = PClient c" "actor p (destroyer_thread p) = PDestroyer" "actor p (worker_thread p t) = PWorker t"
  by (simp_all add: actor_def worker_thread_def destroyer_thread_def)

lemma worker_of_thread [simp]: "worker_thread p t - Suc (length (cpcs p)) = t"
  by (simp add: worker_thread_def)

lemma at_queue: "pool_seen b q' p = (pool_seen b q p)\<lparr>taskQueue := q'\<rparr>"
  by (simp add: pool_seen_def)

lemma same_started: "(pool_seen b q p)\<lparr>taskQueue := q', started := started p\<rparr> = (pool_seen b q p)\<lparr>taskQueue := q'\<rparr>"
  by (simp add: pool_seen_def)

lemma effect_step:
  assumes "wanted p th = Some oper" "b th = None" "bbq_spec (th, oper, r) q = Some q'"
  shows "pool_exec bbq_ops (actor p th) (pool_seen b q p) =
    Some ((pool_seen (b(th := Some r)) q' p)\<lparr>started := started p @ taken (length (cpcs p)) (Some (th, oper, r))\<rparr>)"
  using assms(1)
proof (cases rule: thread_cases)
  case (client k)
  let ?P = "pool_seen b q p"
  have "pool_exec bbq_ops (actor p th) ?P = Some (cgoto th CIdle (?P\<lparr>taskQueue := q'\<rparr>))"
    using client assms(2,3) by (auto simp: bbq_ops_def split: option.splits)
  also have "cgoto th CIdle (?P\<lparr>taskQueue := q'\<rparr>) = pool_seen (b(th := Some r)) q' p"
    using client by (simp add: seen_bind at_queue [of b q' p q] cgoto_def)
  finally show ?thesis using client by (simp add: pool_seen_def)
next
  case destroyer
  let ?P = "pool_seen b q p"
  have "pool_exec bbq_ops (actor p th) ?P = Some (?P\<lparr>taskQueue := q', dpc := DLock\<rparr>)"
    using destroyer assms(2,3) by (auto simp: bbq_ops_def)
  also have "?P\<lparr>taskQueue := q', dpc := DLock\<rparr> = pool_seen (b(th := Some r)) q' p"
    using destroyer by (simp add: seen_bind at_queue [of b q' p q])
  finally show ?thesis using destroyer by (simp add: pool_seen_def)
next
  case (worker t)
  let ?P = "pool_seen b q p"
  from worker assms(3) obtain x where x: "bbq_timeoutPop q = (x, q')" "r = ROpt x"
    by (cases "bbq_timeoutPop q") auto
  have s: "pool_seen (b(th := Some r)) q' p = wgoto t (after_pop r) (?P\<lparr>taskQueue := q'\<rparr>)"
    using worker by (simp add: seen_bind at_queue [of b q' p q])
  have "pool_exec bbq_ops (actor p th) ?P =
      Some (wgoto t (after_pop r) (?P\<lparr>taskQueue := q', started := started p @ taken (length (cpcs p)) (Some (th, oper, r))\<rparr>))"
    using worker assms(2) x by (cases x) (simp_all add: bbq_ops_def same_started)
  also have "wgoto t (after_pop r) (?P\<lparr>taskQueue := q', started := started p @ taken (length (cpcs p)) (Some (th, oper, r))\<rparr>) =
      (pool_seen (b(th := Some r)) q' p)\<lparr>started := started p @ taken (length (cpcs p)) (Some (th, oper, r))\<rparr>"
    by (simp only: s) (simp add: wgoto_def)
  finally show ?thesis .
qed

text \<open>The return of a call is not visible: the call counts as returned when it has taken effect.\<close>

lemma goto_twice [simp]: "cgoto c x (cgoto c y p) = cgoto c x p" "wgoto t u (wgoto t v p) = wgoto t u p"
  by (simp_all add: cgoto_def wgoto_def)

lemma return_step:
  assumes "wanted p th \<noteq> None" "b th = Some r"
  shows "pool_seen (b(th := None)) q (queue_return th r p) = pool_seen b q p"
proof -
  from assms(1) obtain oper where "wanted p th = Some oper" by blast
  then show ?thesis
  proof (cases rule: thread_cases)
    case (client k)
    then have "queue_return th r p = cgoto th CIdle p" by (simp add: queue_return_def)
    with client assms(2) have "pool_seen (b(th := None)) q (queue_return th r p) = cgoto th CIdle (pool_seen b q p)"
      by (simp add: seen_cgoto seen_bind_client)
    with client assms(2) show ?thesis by (simp add: cgoto_def pool_seen_def list_update_same_conv)
  next
    case destroyer
    then have "queue_return th r p = p\<lparr>dpc := DLock\<rparr>" by (simp add: queue_return_def destroyer_thread_def)
    with destroyer assms(2) show ?thesis by (simp add: seen_steps seen_bind)
  next
    case (worker t)
    then have "queue_return th r p = wgoto t (after_pop r) p"
      by (simp add: queue_return_def worker_thread_def destroyer_thread_def)
    with worker assms(2) have "pool_seen (b(th := None)) q (queue_return th r p) = wgoto t (after_pop r) (pool_seen b q p)"
      by (simp add: seen_wgoto seen_bind_worker)
    with worker assms(2) show ?thesis by (simp add: wgoto_def pool_seen_def list_update_same_conv)
  qed
qed

lemma return_frame [simp]:
  "taskQueue (queue_return th r p) = taskQueue p" "length (cpcs (queue_return th r p)) = length (cpcs p)"
  by (simp_all add: queue_return_def)

lemma return_wanted: "u \<noteq> th \<Longrightarrow> wanted (queue_return th r p) u = wanted p u"
  by (auto simp: queue_return_def wanted_def destroyer_thread_def Let_def nth_list_update)

lemma requested_not_committed: "bbq_requested q t \<noteq> None \<Longrightarrow> bbq_committed q t = None"
  by (auto simp: bbq_requested_def bbq_committed_def elim!: requested.elims
      split: if_splits emplace_pc.splits pop_pc.splits size_pc.splits)

section \<open>Refinement\<close>

definition refines_step :: "'t fine_act \<Rightarrow> 't fine_pool \<Rightarrow> 't fine_pool \<Rightarrow> bool" where
  "refines_step a s s' \<longleftrightarrow>
     (case fine_lin a s of None \<Rightarrow> fine_abs s' = fine_abs s | Some e \<Rightarrow> pool_exec bbq_ops e (fine_abs s) = Some (fine_abs s')) \<and>
     bbq_inv (taskQueue (fpool s')) \<and> length (in_call s') = length (in_call s) \<and>
     length (pcs (taskQueue (fpool s'))) = length (pcs (taskQueue (fpool s))) \<and> (\<forall>th < length (in_call s). call_ok s' th)"

lemma fine_invD:
  assumes "fine_inv s"
  shows "only_wanted (bound s) (fpool s)" "pool_inv (fine_abs s)" "bbq_inv (taskQueue (fpool s))"
    "length (in_call s) = length (pcs (taskQueue (fpool s)))" "th < length (in_call s) \<Longrightarrow> call_ok s th"
  using assms by (auto simp: fine_inv_def only_wanted_def bound_def call_ok_def split: if_splits)

lemma refines_pool:
  assumes inv: "fine_inv s" and e: "fine_exec (FPool a) s = Some s'"
  shows "refines_step (FPool a) s s'"
proof -
  from e obtain p' where p': "pool_proper a (fpool s)" "pool_exec size_ops a (fpool s) = Some p'" "s' = s\<lparr>fpool := p'\<rparr>"
    by (auto split: if_splits)
  have pi: "pool_inv (pool_seen (bound s) (bbq_abs (taskQueue (fpool s))) (fpool s))"
    using fine_invD(2) [OF inv] by (simp add: fine_abs_def)
  note st = proper_step [OF p'(1,2) fine_invD(1) [OF inv] pi]
  have b: "bound s' = bound s" using st p'(3) by (simp add: bound_def fun_eq_iff)
  have "call_ok s' th" if "th < length (in_call s)" for th
    using fine_invD(5) [OF inv that] st [of th] p'(3) by (auto simp: call_ok_def)
  with st b p'(3) fine_invD(3) [OF inv] show ?thesis by (simp add: refines_step_def fine_abs_def)
qed

lemma refines_call:
  assumes inv: "fine_inv s" and e: "fine_exec (FCall th) s = Some s'"
  shows "refines_step (FCall th) s s'"
proof -
  let ?q = "taskQueue (fpool s)"
  from e obtain oper q where q: "wanted (fpool s) th = Some oper" "th < length (in_call s)" "\<not> in_call s ! th"
    "bbq_exec (th, Call oper) ?q = Some q" "s' = s\<lparr>fpool := (fpool s)\<lparr>taskQueue := q\<rparr>, in_call := (in_call s)[th := True]\<rparr>"
    by (auto split: option.splits if_splits)
  note c = bo.call_observed [OF fine_invD(3) [OF inv] q(4)] and o = bo.other_law [OF q(4)]
  have b: "bound s' = bound s" using q c o by (auto simp: bound_def fun_eq_iff nth_list_update)
  have "call_ok s' u" if "u < length (in_call s)" for u
    using fine_invD(5) [OF inv that] q c o [of u] by (cases "u = th") (auto simp: call_ok_def)
  with b q c other_calls [OF q(4)] show ?thesis by (simp add: refines_step_def fine_abs_def)
qed

lemma call_at_effect:
  assumes "fine_inv s" "th < length (in_call s)" "in_call s ! th" "bbq_requested (taskQueue (fpool s)) th = Some oper"
  shows "wanted (fpool s) th = Some oper" "bound s th = None"
  using fine_invD(5) [OF assms(1,2)] assms(3,4) requested_not_committed [of "taskQueue (fpool s)" th]
  by (simp_all add: call_ok_def bound_def)

lemma refines_queue:
  assumes inv: "fine_inv s" and e: "fine_exec (FQueue th a) s = Some s'"
  shows "refines_step (FQueue th a) s s'"
proof -
  let ?p = "fpool s"
  let ?q = "taskQueue ?p"
  from e obtain q where q: "th < length (in_call s)" "in_call s ! th" "a \<notin> range Call" "bbq_exec (th, a) ?q = Some q"
    "s' = s\<lparr>fpool := ?p\<lparr>taskQueue := q, started := started ?p @ taken (length (cpcs ?p)) (bbq_lin (th, a) ?q)\<rparr>\<rparr>"
    by (auto simp del: bbq_exec.simps bbq_lin.simps split: if_splits bbq_act.splits)
  have iq: "bbq_inv ?q" using inv by (rule fine_invD)
  have others: "bbq_requested q u = bbq_requested ?q u \<and> bbq_committed q u = bbq_committed ?q u" if "u \<noteq> th" for u
    using bo.other_law [OF q(4) that] .
  have w: "wanted ?p th \<noteq> None" "bbq_requested ?q th \<in> {None, wanted ?p th}"
    using fine_invD(5) [OF inv q(1)] q(2) by (auto simp: call_ok_def)
  have q': "bbq_inv q" "length (pcs q) = length (pcs ?q)"
    using bq.inv_exec [OF iq q(4)] other_calls [OF q(4)] by simp_all
  show ?thesis
    using iq q(4,3)
  proof (cases rule: bo.step_observed)
    case quiet
    have "bound s' u = bound s u" for u
      using q(5) others [of u] quiet by (cases "u = th") (simp_all add: bound_def del: bbq_lin.simps)
    then have b: "bound s' = bound s" ..
    have "call_ok s' u" if "u < length (in_call s)" for u
      using fine_invD(5) [OF inv that] q(5) others [of u] quiet
      by (cases "u = th") (auto simp: call_ok_def simp del: bbq_lin.simps)
    moreover have "fine_abs s' = fine_abs s"
      using quiet b q(5) by (simp add: fine_abs_def del: bbq_lin.simps)
    ultimately show ?thesis using q' q(5) quiet by (simp add: refines_step_def del: bbq_lin.simps)
  next
    case (effect oper r)
    note wo = call_at_effect [OF inv q(1,2) effect(3)]
    have "bound s' u = ((bound s)(th := Some r)) u" for u
      using q(1,2,5) others [of u] effect by (cases "u = th") (simp_all add: bound_def del: bbq_lin.simps)
    then have b: "bound s' = (bound s)(th := Some r)" ..
    have "call_ok s' u" if "u < length (in_call s)" for u
      using fine_invD(5) [OF inv that] q(5) others [of u] effect w
      by (cases "u = th") (auto simp: call_ok_def simp del: bbq_lin.simps)
    moreover have "pool_exec bbq_ops (actor ?p th) (fine_abs s) = Some (fine_abs s')"
      using effect_step [of ?p th oper "bound s", OF wo effect(2)] b q(5) effect(1) by (simp add: fine_abs_def del: bbq_lin.simps bbq_spec.simps)
    ultimately show ?thesis using q' q(5) effect(1) by (simp add: refines_step_def del: bbq_lin.simps)
  qed
qed

lemma refines_return:
  assumes inv: "fine_inv s" and e: "fine_exec (FReturn th) s = Some s'"
  shows "refines_step (FReturn th) s s'"
proof -
  let ?p = "fpool s"
  let ?q = "taskQueue ?p"
  from e obtain r where r: "th < length (in_call s)" "in_call s ! th" "pcs ?q ! th = Done r"
    "s' = s\<lparr>fpool := queue_return th r ?p, in_call := (in_call s)[th := False]\<rparr>"
    by (auto split: if_splits bbq_pc.splits)
  have w: "wanted ?p th \<noteq> None" using fine_invD(5) [OF inv r(1)] r(2) by (auto simp: call_ok_def)
  have b: "bound s th = Some r" using r fine_invD(4) [OF inv] by (simp add: bound_def bbq_committed_def)
  have "bound s' = (bound s)(th := None)" using r by (auto simp: bound_def fun_eq_iff nth_list_update)
  then have "fine_abs s' = fine_abs s" using return_step [of ?p th "bound s" r, OF w b] r(4) by (simp add: fine_abs_def)
  moreover have "call_ok s' u" if "u < length (in_call s)" for u
    using fine_invD(5) [OF inv that] r by (cases "u = th") (auto simp: call_ok_def return_wanted)
  ultimately show ?thesis using r(4) fine_invD(3) [OF inv] by (simp add: refines_step_def)
qed

lemma fine_refines:
  assumes "fine_inv s" "fine_exec a s = Some s'"
  shows "refines_step a s s'"
  using assms by (cases a) (auto intro: refines_pool refines_call refines_queue refines_return simp del: fine_exec.simps)

lemma fine_init_new: "fine_init (fine_new w cap mn mx c)"
  unfolding fine_init_def by blast

lemma bound_new: "bound (fine_new w cap mn mx c) = (\<lambda>th. None)"
  by (auto simp: bound_def fine_new_def fun_eq_iff simp del: replicate_Suc)

lemma fine_abs_new: "fine_abs (fine_new w cap mn mx c) = pool_new (bbq_new cap) mn mx c"
  unfolding fine_abs_def bound_new
  by (simp add: fine_new_def pool_new_def seen_create)
    (simp add: pool_seen_def bbq_sys_new_def bbq_abs_def pending_def bbq_new_def imap_id)

interpretation fp: linearization fine_init fine_exec fine_inv fine_abs fine_lin "pool_exec bbq_ops"
proof (unfold_locales, goal_cases)
  case (1 s)
  then obtain w cap mn mx c where s: "s = fine_new w cap mn mx c" by (auto simp: fine_init_def)
  have "pool_inv (fine_abs s)" unfolding s fine_abs_new by (rule pl.inv_init) (auto simp: pool_init_def)
  moreover have "taskQueue (fpool s) = bbq_sys_new (Suc c + w) cap" "in_call s = replicate (Suc c + w) False"
    by (simp_all add: s fine_new_def)
  moreover have "bbq_inv (bbq_sys_new (Suc c + w) cap)" by (rule bq.inv_init) (auto simp: bbq_init_def)
  ultimately show ?case by (simp add: fine_inv_def call_ok_def bbq_sys_new_def del: replicate_Suc)
next
  case (2 s a s')
  from fine_refines [OF 2] have r: "refines_step a s s'" .
  then have "pool_inv (fine_abs s')"
    using pool_inv_exec [OF fine_invD(2) [OF 2(1)]] fine_invD(2) [OF 2(1)]
    by (auto simp: refines_step_def split: option.splits)
  with r fine_invD(4) [OF 2(1)] show ?case by (auto simp: refines_step_def fine_inv_def)
next
  case (3 s a s')
  from fine_refines [OF 3(1,2)] 3(3) show ?case by (simp add: refines_step_def)
next
  case (4 s a s' e)
  from fine_refines [OF 4(1,2)] 4(3) show ?case by (simp add: refines_step_def)
qed

text \<open>The acceptance of a task, as the pool over the atomic queue observes it.\<close>

lemma accepted_observed:
  assumes inv: "fine_inv s" and e: "fine_exec a s = Some s'"
  shows "(case fine_lin a s of None \<Rightarrow> None | Some x \<Rightarrow> pool_lin bbq_ops x (fine_abs s)) = fine_accepted a s"
proof (cases a)
  case (FPool x)
  show ?thesis
  proof (cases x)
    case (PClient c)
    with FPool e have "c < length (cpcs (fpool s))" "\<forall>k. cpcs (fpool s) ! c \<noteq> CPush k" by (auto split: if_splits)
    with FPool PClient show ?thesis by (cases "cpcs (fpool s) ! c") (simp_all add: fine_abs_def)
  qed (simp_all add: FPool)
next
  case (FQueue th x)
  let ?p = "fpool s"
  let ?q = "taskQueue ?p"
  from FQueue e obtain q where q: "th < length (in_call s)" "in_call s ! th" "x \<notin> range Call" "bbq_exec (th, x) ?q = Some q"
    by (auto simp del: bbq_exec.simps bbq_lin.simps split: if_splits bbq_act.splits)
  have iq: "bbq_inv ?q" using inv by (rule fine_invD)
  show ?thesis
    using iq q(4,3)
  proof (cases rule: bo.step_observed)
    case quiet
    with FQueue show ?thesis by (simp del: bbq_lin.simps)
  next
    case (effect oper r)
    from call_at_effect [OF inv q(1,2) effect(3)] have "pool_lin bbq_ops (actor ?p th) (fine_abs s) = (case (oper, r) of (OpPush k, RBool True) \<Rightarrow> Some k | _ \<Rightarrow> None)"
      using effect(2)
      by (cases rule: thread_cases) (auto simp: fine_abs_def bbq_ops_def split: option.splits bool.splits)
    with FQueue effect(1) show ?thesis by (simp del: bbq_lin.simps)
  qed
qed simp_all

section \<open>Properties\<close>

text \<open>C8. The pool over the bounded queue executed statement by statement refines the pool over the atomic queue: the steps
  of any run, each call of the queue at its one step of effect, are a run of the pool over the atomic queue that
  reaches the pool this state stands for; where no call is in progress every thread is there at the same place.\<close>

theorem pool_over_queue_refines:
  assumes "run fine_exec as (fine_new w taskQueueSize mn mx c) = Some s"
  shows "run (pool_exec bbq_ops) (events fine_exec fine_lin as (fine_new w taskQueueSize mn mx c))
       (pool_new (bbq_new taskQueueSize) mn mx c) = Some (fine_abs s) \<and>
     (True \<notin> set (in_call s) \<longrightarrow>
       wpcs (fine_abs s) = wpcs (fpool s) \<and> cpcs (fine_abs s) = cpcs (fpool s) \<and> dpc (fine_abs s) = dpc (fpool s))"
proof -
  from fp.history_refines [OF fine_init_new assms] have "run (pool_exec bbq_ops) (events fine_exec fine_lin as (fine_new w taskQueueSize mn mx c))
       (pool_new (bbq_new taskQueueSize) mn mx c) = Some (fine_abs s)" by (simp add: fine_abs_new)
  moreover have "bound s = (\<lambda>th. None)" if "True \<notin> set (in_call s)"
    using that by (auto simp: bound_def fun_eq_iff in_set_conv_nth)
  ultimately show ?thesis by (simp add: fine_abs_def pool_seen_def imap_id)
qed

theorem pool_over_queue_refines_witness:
  "\<exists>s. run fine_exec fine_schedule (fine_new 1 10 1 2 1) = Some s \<and> wpcs (fine_abs s) = [WStopCheck] \<and>
     run (pool_exec bbq_ops) [PCall 0 7, PClient 0, PWorker 0, PClient 0, PWorker 0, PWorker 0] (pool_new (bbq_new 10) 1 2 1)
       = Some (fine_abs s)"
proof -
  have "map_option (\<lambda>s. (wpcs (fpool s), in_call s)) (run fine_exec fine_schedule (fine_new 1 10 1 2 1)) =
      Some ([WStopCheck], [False, False, False])"
    by code_simp
  then obtain s where s: "run fine_exec fine_schedule (fine_new 1 10 1 2 1) = Some s" "wpcs (fpool s) = [WStopCheck]"
    "in_call s = [False, False, False]" by auto
  have "events fine_exec fine_lin fine_schedule (fine_new 1 10 1 2 1) =
      [PCall 0 7, PClient 0, PWorker 0, PClient 0, PWorker 0, PWorker 0]"
    by code_simp
  with pool_over_queue_refines [OF s(1)] s show ?thesis by simp
qed

text \<open>C10. In every run of that composition, with any interleaving of the statements of the queue, each task the queue
  accepts is started at most once and none is lost before it is started: the tasks started, followed by those in
  the queue, are the accepted ones in the order of acceptance. Every started task is completed or held by exactly
  one worker.\<close>

theorem pool_over_queue_tasks_once:
  assumes "run fine_exec as (fine_new w taskQueueSize mn mx c) = Some s"
  shows "map snd (started (fpool s)) @ m_deque (bbq_abs (taskQueue (fpool s))) =
       events fine_exec fine_accepted as (fine_new w taskQueueSize mn mx c) \<and>
     mset (map snd (started (fpool s))) = mset (completed (fpool s)) + mset (in_progress (fine_abs s))"
proof -
  let ?s0 = "fine_new w taskQueueSize mn mx c :: 'a fine_pool"
  let ?p0 = "pool_new (bbq_new taskQueueSize) mn mx c :: ('a, 'a bbq) pool"
  let ?h = "events fine_exec fine_lin as ?s0"
  have i: "fine_init ?s0" by (rule fine_init_new)
  have r: "run (pool_exec bbq_ops) ?h ?p0 = Some (fine_abs s)"
    using fp.history_refines [OF i assms] by (simp add: fine_abs_new)
  have "events (pool_exec bbq_ops) (pool_lin bbq_ops) ?h ?p0 = events fine_exec fine_accepted as ?s0"
    using fp.events_observed [OF fp.inv_init [OF i] assms, of "pool_lin bbq_ops"]
      fp.events_cong [OF accepted_observed fp.inv_init [OF i] assms] by (simp add: fine_abs_new)
  with bp.tasks_run [OF r] accounting_run [OF r] show ?thesis by (simp add: fine_abs_def bbq_new_def)
qed

theorem pool_over_queue_tasks_once_witness:
  "\<exists>s. run fine_exec (take 20 fine_schedule) (fine_new 1 10 1 2 1) = Some s \<and> in_call s = [False, False, True] \<and>
     map snd (started (fpool s)) @ m_deque (bbq_abs (taskQueue (fpool s))) = [7] \<and>
     mset (map snd (started (fpool s))) = mset (completed (fpool s)) + mset (in_progress (fine_abs s))"
proof -
  have "map_option in_call (run fine_exec (take 20 fine_schedule) (fine_new 1 10 1 2 1)) = Some [False, False, True]"
    by code_simp
  then obtain s where s: "run fine_exec (take 20 fine_schedule) (fine_new 1 10 1 2 1) = Some s" "in_call s = [False, False, True]"
    by auto
  have "events fine_exec fine_accepted (take 20 fine_schedule) (fine_new 1 10 1 2 1) = [7]" by code_simp
  with pool_over_queue_tasks_once [OF s(1)] s show ?thesis by simp
qed

end
