(* ===== verification/HazardPointers.thy ===== *)
theory HazardPointers
  imports Prelude
begin

text \<open>
  \<^verbatim>\<open>include/miniruntime/task/hazardpointers.h\<close>: the reclaimer of the lock-free queue.

  Addresses are numbers and \<open>nullptr\<close> is \<open>None\<close>. The record of a thread is named by the thread; the
  linked list of published records is the list \<open>records\<close>, newest first: a record's \<open>next\<close> is written
  before it is published and never again, so that a reader that loaded the head walks the list as
  it was then.

  Sequential layer: each operation as one function on the state (\<open>hp_protect\<close>, \<open>hp_unprotect\<close>,
  \<open>hp_retire\<close>, \<open>hp_scan\<close>, \<open>hp_drain\<close>, \<open>hp_allocate\<close>, \<open>hp_deallocate\<close>, \<open>hp_threadExit\<close>). Concurrent
  layer (\<open>hp_exec\<close>): publication of a record with its CAS loop, one step for each slot that
  \<open>protect\<close> tries and for each slot that \<open>isProtected\<close> reads, and the lock of the orphaned list. The
  pool lock is held for the push or pop of one element only; such a section is one step. A weak
  CAS may fail spuriously (\<open>HSpurious\<close>).

  Proved: a node that is protected while it is not yet retired is neither pooled nor handed out
  again until its slot is cleared, whatever scans run meanwhile; no node is lost or freed twice;
  the sequential scan and protect are exact. Further, \<open>protect\<close> can throw with all slots free, when
  the weak CAS fails spuriously, and \<open>drain\<close> pools a protected node.
\<close>

section \<open>State and sequential layer\<close>

type_synonym addr = nat

definition slotsCount :: nat where
  "slotsCount = 4"

definition retireThreshold :: nat where
  "retireThreshold = 1024"

record hp =
  records :: "tid list"
  slots :: "addr option list list"
  retired :: "addr list list"
  orphaned :: "addr list"
  pool :: "addr list"

definition hp_new :: "nat \<Rightarrow> hp" where
  "hp_new n = \<lparr>records = [], slots = replicate n (replicate slotsCount None), retired = replicate n [],
     orphaned = [], pool = []\<rparr>"

definition hp_initRecord :: "tid \<Rightarrow> ('m) hp_scheme \<Rightarrow> 'm hp_scheme" where
  "hp_initRecord t s = (if t \<in> set (records s) then s else s\<lparr>records := t # records s\<rparr>)"

definition set_slot :: "tid \<Rightarrow> nat \<Rightarrow> addr option \<Rightarrow> 'm hp_scheme \<Rightarrow> 'm hp_scheme" where
  "set_slot t i v s = s\<lparr>slots := (slots s)[t := (slots s ! t)[i := v]]\<rparr>"

text \<open>\<open>protect\<close>: the first free slot, or \<open>Inl\<close> for the \<open>runtime_error\<close>.\<close>

fun first_free :: "nat \<Rightarrow> addr option list \<Rightarrow> nat option" where
  "first_free i [] = None"
| "first_free i (x # xs) = (if x = None then Some i else first_free (Suc i) xs)"

definition hp_protect :: "tid \<Rightarrow> addr \<Rightarrow> 'm hp_scheme \<Rightarrow> (string + nat) \<times> 'm hp_scheme" where
  "hp_protect t p s =
     (let s1 = hp_initRecord t s in
      case first_free 0 (slots s1 ! t) of
        Some i \<Rightarrow> (Inr i, set_slot t i (Some p) s1)
      | None \<Rightarrow> (Inl ''Stored pointers overflow'', s1))"

text \<open>
  The same with a weak CAS: in the attempts on the slots \<open>fails\<close> it fails spuriously although the slot is free.
  The loop tries every slot once, so that \<open>protect\<close> may skip free slots and may throw.
\<close>

fun weak_free :: "nat list \<Rightarrow> nat \<Rightarrow> addr option list \<Rightarrow> nat option" where
  "weak_free fails i [] = None"
| "weak_free fails i (x # xs) = (if x = None \<and> i \<notin> set fails then Some i else weak_free fails (Suc i) xs)"

definition hp_protect_weak :: "nat list \<Rightarrow> tid \<Rightarrow> addr \<Rightarrow> 'm hp_scheme \<Rightarrow> (string + nat) \<times> 'm hp_scheme" where
  "hp_protect_weak fails t p s =
     (let s1 = hp_initRecord t s in
      case weak_free fails 0 (slots s1 ! t) of
        Some i \<Rightarrow> (Inr i, set_slot t i (Some p) s1)
      | None \<Rightarrow> (Inl ''Stored pointers overflow'', s1))"

definition hp_unprotect :: "tid \<Rightarrow> nat \<Rightarrow> 'm hp_scheme \<Rightarrow> 'm hp_scheme" where
  "hp_unprotect t i s = set_slot t i None s"

definition hp_isProtected :: "addr \<Rightarrow> 'm hp_scheme \<Rightarrow> bool" where
  "hp_isProtected p s \<longleftrightarrow> list_ex (\<lambda>t. list_ex (\<lambda>x. x = Some p) (slots s ! t)) (records s)"

definition hp_deallocate :: "addr \<Rightarrow> 'm hp_scheme \<Rightarrow> 'm hp_scheme" where
  "hp_deallocate p s = s\<lparr>pool := pool s @ [p]\<rparr>"

definition hp_allocate :: "'m hp_scheme \<Rightarrow> addr option \<times> 'm hp_scheme" where
  "hp_allocate s = (if pool s = [] then (None, s) else (Some (last (pool s)), s\<lparr>pool := butlast (pool s)\<rparr>))"

text \<open>The loop shared by \<open>scan\<close> and \<open>scanOrphaned\<close>: the survivors, and the state with the others pooled.\<close>

fun scan_list :: "addr list \<Rightarrow> 'm hp_scheme \<Rightarrow> addr list \<times> 'm hp_scheme" where
  "scan_list [] s = ([], s)"
| "scan_list (p # ps) s =
     (if hp_isProtected p s then (case scan_list ps s of (survivors, s') \<Rightarrow> (p # survivors, s'))
      else scan_list ps (hp_deallocate p s))"

definition hp_scanOrphaned :: "'m hp_scheme \<Rightarrow> 'm hp_scheme" where
  "hp_scanOrphaned s = (case scan_list (orphaned s) s of (survivors, s') \<Rightarrow> s'\<lparr>orphaned := survivors\<rparr>)"

definition hp_scan :: "tid \<Rightarrow> 'm hp_scheme \<Rightarrow> 'm hp_scheme" where
  "hp_scan t s =
     (case scan_list (retired s ! t) s of
        (survivors, s') \<Rightarrow> hp_scanOrphaned (s'\<lparr>retired := (retired s')[t := survivors]\<rparr>))"

definition hp_retire :: "tid \<Rightarrow> addr \<Rightarrow> 'm hp_scheme \<Rightarrow> 'm hp_scheme" where
  "hp_retire t p s =
     (let s1 = s\<lparr>retired := (retired s)[t := retired s ! t @ [p]]\<rparr> in
      if retireThreshold < length (retired s1 ! t) then hp_scan t s1 else s1)"

definition hp_drain :: "tid \<Rightarrow> 'm hp_scheme \<Rightarrow> 'm hp_scheme" where
  "hp_drain t s = hp_scanOrphaned (s\<lparr>pool := pool s @ retired s ! t, retired := (retired s)[t := []]\<rparr>)"

definition hp_threadExit :: "tid \<Rightarrow> 'm hp_scheme \<Rightarrow> 'm hp_scheme" where
  "hp_threadExit t s = s\<lparr>orphaned := orphaned s @ retired s ! t, retired := (retired s)[t := []]\<rparr>"

definition hp_drainPool :: "'m hp_scheme \<Rightarrow> 'm hp_scheme" where
  "hp_drainPool s = s\<lparr>pool := []\<rparr>"

section \<open>Concurrent layer\<close>

text \<open>Whose list a scan walks: the thread's own or the orphaned one.\<close>

datatype scan_src = Own | Orphans

datatype hp_res = HUnit | HSlot nat | HThrow string | HNode "addr option"

datatype hp_op =
    OpProtect addr | OpUnprotect nat | OpRetire addr | OpScan | OpDrain | OpAllocate | OpDeallocate addr | OpExit

datatype hp_pc =
    HDone hp_res
  | PInit addr                  \<comment> \<open>\<open>initRecord\<close>: \<open>s_threadRecord == nullptr\<close>, load of \<open>s_head\<close>\<close>
  | PPublish addr "tid option"  \<comment> \<open>CAS on \<open>s_head\<close> with the expected head\<close>
  | PSlot addr nat              \<comment> \<open>CAS on the slot\<close>
  | USlot nat                   \<comment> \<open>\<open>unprotect\<close>\<close>
  | RPush addr                  \<comment> \<open>\<open>retire\<close>: \<open>push_back\<close> and size test\<close>
  | SLoop scan_src "addr list" "addr list"    \<comment> \<open>loop head: rest of the list, survivors\<close>
  | SHead scan_src addr "addr list" "addr list"   \<comment> \<open>\<open>isProtected\<close>: load of \<open>s_head\<close>\<close>
  | SCheck scan_src addr "tid list" nat "addr list" "addr list"   \<comment> \<open>read slot of the first record\<close>
  | SFree scan_src addr "addr list" "addr list"   \<comment> \<open>\<open>deallocate\<close>\<close>
  | OLock                       \<comment> \<open>\<open>lockOrphaned\<close>\<close>
  | DLoop "addr list"           \<comment> \<open>\<open>drain\<close>: loop over the own list\<close>
  | APop                        \<comment> \<open>\<open>allocate\<close>\<close>
  | APush addr                  \<comment> \<open>\<open>deallocate\<close> called directly\<close>
  | XLock                       \<comment> \<open>thread exit: destructor of \<open>ThreadRetiredList\<close>\<close>

record hp_sys = hp +
  orphanedLock :: "tid option"
  hpcs :: "hp_pc list"

definition hp_sys_new :: "nat \<Rightarrow> hp_sys" where
  "hp_sys_new n = \<lparr>records = [], slots = replicate n (replicate slotsCount None), retired = replicate n [],
     orphaned = [], pool = [], orphanedLock = None, hpcs = replicate n (HDone HUnit)\<rparr>"

definition hgoto :: "tid \<Rightarrow> hp_pc \<Rightarrow> hp_sys \<Rightarrow> hp_sys" where
  "hgoto t p s = s\<lparr>hpcs := (hpcs s)[t := p]\<rparr>"

definition head_of :: "tid list \<Rightarrow> tid option" where
  "head_of rs = (case rs of [] \<Rightarrow> None | r # _ \<Rightarrow> Some r)"

fun hp_call :: "hp_op \<Rightarrow> hp_sys \<Rightarrow> tid \<Rightarrow> hp_pc" where
  "hp_call (OpProtect p) s t = PInit p"
| "hp_call (OpUnprotect i) s t = USlot i"
| "hp_call (OpRetire p) s t = RPush p"
| "hp_call OpScan s t = SLoop Own (retired s ! t) []"
| "hp_call OpDrain s t = DLoop (retired s ! t)"
| "hp_call OpAllocate s t = APop"
| "hp_call (OpDeallocate p) s t = APush p"
| "hp_call OpExit s t = XLock"

text \<open>End of a loop over a list: store the survivors; the own list is followed by the orphaned one.\<close>

definition scan_end :: "scan_src \<Rightarrow> tid \<Rightarrow> addr list \<Rightarrow> hp_sys \<Rightarrow> hp_sys" where
  "scan_end src t survivors s = (case src of
     Own \<Rightarrow> hgoto t OLock (s\<lparr>retired := (retired s)[t := survivors]\<rparr>)
   | Orphans \<Rightarrow> hgoto t (HDone HUnit) (s\<lparr>orphaned := survivors, orphanedLock := None\<rparr>))"

fun hp_step :: "tid \<Rightarrow> hp_pc \<Rightarrow> hp_sys \<Rightarrow> hp_sys option" where
  "hp_step t (HDone r) s = None"
| "hp_step t (PInit p) s =
     Some (hgoto t (if t \<in> set (records s) then PSlot p 0 else PPublish p (head_of (records s))) s)"
| "hp_step t (PPublish p expected) s =
     (if head_of (records s) = expected then Some (hgoto t (PSlot p 0) (s\<lparr>records := t # records s\<rparr>))
      else Some (hgoto t (PPublish p (head_of (records s))) s))"
| "hp_step t (PSlot p i) s =
     (if slotsCount \<le> i then Some (hgoto t (HDone (HThrow ''Stored pointers overflow'')) s)
      else if slots s ! t ! i = None then Some (hgoto t (HDone (HSlot i)) (set_slot t i (Some p) s))
      else Some (hgoto t (PSlot p (Suc i)) s))"
| "hp_step t (USlot i) s = Some (hgoto t (HDone HUnit) (set_slot t i None s))"
| "hp_step t (RPush p) s =
     (let s1 = s\<lparr>retired := (retired s)[t := retired s ! t @ [p]]\<rparr> in
      if retireThreshold < length (retired s1 ! t) then Some (hgoto t (SLoop Own (retired s1 ! t) []) s1)
      else Some (hgoto t (HDone HUnit) s1))"
| "hp_step t (SLoop src [] survivors) s = Some (scan_end src t survivors s)"
| "hp_step t (SLoop src (p # ps) survivors) s = Some (hgoto t (SHead src p ps survivors) s)"
| "hp_step t (SHead src p ps survivors) s = Some (hgoto t (SCheck src p (records s) 0 ps survivors) s)"
| "hp_step t (SCheck src p [] i ps survivors) s = Some (hgoto t (SFree src p ps survivors) s)"
| "hp_step t (SCheck src p (r # rs) i ps survivors) s =
     (if slotsCount \<le> i then Some (hgoto t (SCheck src p rs 0 ps survivors) s)
      else if slots s ! r ! i = Some p then Some (hgoto t (SLoop src ps (survivors @ [p])) s)
      else Some (hgoto t (SCheck src p (r # rs) (Suc i) ps survivors) s))"
| "hp_step t (SFree src p ps survivors) s = Some (hgoto t (SLoop src ps survivors) (hp_deallocate p s))"
| "hp_step t OLock s =
     guarded (orphanedLock s = None) (hgoto t (SLoop Orphans (orphaned s) []) (s\<lparr>orphanedLock := Some t\<rparr>))"
| "hp_step t (DLoop []) s = Some (hgoto t OLock (s\<lparr>retired := (retired s)[t := []]\<rparr>))"
| "hp_step t (DLoop (p # ps)) s = Some (hgoto t (DLoop ps) (hp_deallocate p s))"
| "hp_step t APop s = (case hp_allocate s of (r, s') \<Rightarrow> Some (hgoto t (HDone (HNode r)) s'))"
| "hp_step t (APush p) s = Some (hgoto t (HDone HUnit) (hp_deallocate p s))"
| "hp_step t XLock s =
     (if retired s ! t = [] then Some (hgoto t (HDone HUnit) s)
      else guarded (orphanedLock s = None) (hgoto t (HDone HUnit) (hp_threadExit t s)))"

datatype hp_act = HCall hp_op | HStep | HSpurious

fun hp_exec :: "tid \<times> hp_act \<Rightarrow> hp_sys \<Rightarrow> hp_sys option" where
  "hp_exec (t, a) s =
     (if t < length (hpcs s) then
        (case a of
           HCall oper \<Rightarrow> (case hpcs s ! t of HDone r \<Rightarrow> Some (hgoto t (hp_call oper s t) s) | _ \<Rightarrow> None)
         | HStep \<Rightarrow> hp_step t (hpcs s ! t) s
         | HSpurious \<Rightarrow>
             (case hpcs s ! t of
                PSlot p i \<Rightarrow> guarded (i < slotsCount) (hgoto t (PSlot p (Suc i)) s)
              | PPublish p expected \<Rightarrow> Some (hgoto t (PPublish p (head_of (records s))) s)
              | _ \<Rightarrow> None))
      else None)"

definition hp_init :: "hp_sys \<Rightarrow> bool" where
  "hp_init s \<longleftrightarrow> (\<exists>n. s = hp_sys_new n)"

text \<open>What a thread holds of its own list, and of the orphaned one, while it walks it.\<close>

fun in_scan :: "hp_pc \<Rightarrow> (scan_src \<times> addr list) option" where
  "in_scan (SLoop src ps sv) = Some (src, sv @ ps)"
| "in_scan (SHead src p ps sv) = Some (src, sv @ p # ps)"
| "in_scan (SCheck src p rs i ps sv) = Some (src, sv @ p # ps)"
| "in_scan (SFree src p ps sv) = Some (src, sv @ p # ps)"
| "in_scan (DLoop ps) = Some (Own, ps)"
| "in_scan _ = None"

definition own_hand :: "hp_pc \<Rightarrow> addr list \<Rightarrow> addr list" where
  "own_hand p r = (case in_scan p of Some (Own, l) \<Rightarrow> l | _ \<Rightarrow> r)"

definition orphan_hand :: "hp_pc \<Rightarrow> addr list" where
  "orphan_hand p = (case in_scan p of Some (Orphans, l) \<Rightarrow> l | _ \<Rightarrow> [])"

definition walks_orphans :: "hp_pc \<Rightarrow> bool" where
  "walks_orphans p \<longleftrightarrow> (case in_scan p of Some (Orphans, l) \<Rightarrow> True | _ \<Rightarrow> False)"

definition opt_mset :: "'a option \<Rightarrow> 'a multiset" where
  "opt_mset r = (case r of None \<Rightarrow> {#} | Some x \<Rightarrow> {#x#})"

text \<open>All nodes the reclaimer has: waiting in a list or in the hands of a scan, or pooled.\<close>

definition waiting :: "hp_sys \<Rightarrow> addr multiset" where
  "waiting s = (\<Sum>t < length (hpcs s). mset (own_hand (hpcs s ! t) (retired s ! t))) +
     mset (case orphanedLock s of None \<Rightarrow> orphaned s | Some t \<Rightarrow> orphan_hand (hpcs s ! t))"

definition garbage :: "hp_sys \<Rightarrow> addr multiset" where
  "garbage s = waiting s + mset (pool s)"

text \<open>The node a step gives to the reclaimer, and the one it takes out of the pool.\<close>

fun hp_gave :: "tid \<times> hp_act \<Rightarrow> hp_sys \<Rightarrow> addr option" where
  "hp_gave (t, a) s = (if a = HStep then
     (case hpcs s ! t of RPush p \<Rightarrow> Some p | APush p \<Rightarrow> Some p | _ \<Rightarrow> None) else None)"

fun hp_took :: "tid \<times> hp_act \<Rightarrow> hp_sys \<Rightarrow> addr option" where
  "hp_took (t, a) s = (if a = HStep then
     (case hpcs s ! t of APop \<Rightarrow> fst (hp_allocate s) | _ \<Rightarrow> None) else None)"

definition hp_inv :: "hp_sys \<Rightarrow> bool" where
  "hp_inv s \<longleftrightarrow> length (slots s) = length (hpcs s) \<and> length (retired s) = length (hpcs s) \<and>
     (\<forall>t < length (hpcs s). length (slots s ! t) = slotsCount) \<and>
     (\<forall>t < length (hpcs s). walks_orphans (hpcs s ! t) \<longleftrightarrow> orphanedLock s = Some t) \<and>
     (\<forall>t. orphanedLock s = Some t \<longrightarrow> t < length (hpcs s))"

definition orphan_part :: "hp_sys \<Rightarrow> addr list" where
  "orphan_part s = (case orphanedLock s of None \<Rightarrow> orphaned s | Some t \<Rightarrow> orphan_hand (hpcs s ! t))"

text \<open>Thread \<open>t\<close> protects \<open>p\<close> in slot \<open>i\<close>: no scan has passed that slot while looking for \<open>p\<close>, and no node
  in the hands of a \<open>drain\<close> is \<open>p\<close>.\<close>

fun scan_sees :: "tid \<Rightarrow> nat \<Rightarrow> addr \<Rightarrow> hp_pc \<Rightarrow> bool" where
  "scan_sees t i p (SCheck src q rs j ps sv) =
     (q = p \<longrightarrow> t \<in> set (tl rs) \<or> rs \<noteq> [] \<and> hd rs = t \<and> j \<le> i)"
| "scan_sees t i p (SFree src q ps sv) = (q \<noteq> p)"
| "scan_sees t i p (DLoop ps) = (p \<notin> set ps)"
| "scan_sees t i p (APush q) = (q \<noteq> p)"
| "scan_sees t i p _ = True"

definition guards :: "tid \<Rightarrow> nat \<Rightarrow> addr \<Rightarrow> hp_sys \<Rightarrow> bool" where
  "guards t i p s \<longleftrightarrow> t < length (hpcs s) \<and> t < length (slots s) \<and> i < slotsCount \<and> slots s ! t ! i = Some p \<and> t \<in> set (records s) \<and> p \<notin> set (pool s) \<and>
     hpcs s ! t \<noteq> USlot i \<and> list_all (scan_sees t i p) (hpcs s)"

text \<open>What the protecting thread and the others must not do: clear the slot, drain, pool the node
  directly.\<close>

fun keeps_guard :: "tid \<Rightarrow> nat \<Rightarrow> addr \<Rightarrow> tid \<times> hp_act \<Rightarrow> bool" where
  "keeps_guard t i p (u, HCall (OpUnprotect j)) = (u \<noteq> t \<or> j \<noteq> i)"
| "keeps_guard t i p (u, HCall OpDrain) = False"
| "keeps_guard t i p (u, HCall (OpDeallocate q)) = (q \<noteq> p)"
| "keeps_guard t i p _ = True"

text \<open>Concrete schedules.\<close>

definition guard_schedule :: "(tid \<times> hp_act) list" where
  "guard_schedule = [(1, HCall (OpProtect 5)), (1, HStep), (1, HStep), (1, HStep)]"

definition retire_scan_schedule :: "(tid \<times> hp_act) list" where
  "retire_scan_schedule = [(0, HCall (OpRetire 5)), (0, HStep), (0, HCall (OpRetire 6)), (0, HStep), (0, HCall OpScan)] @
     replicate 15 (0, HStep) @ [(2, HCall OpAllocate), (2, HStep)]"

definition spurious_schedule :: "(tid \<times> hp_act) list" where
  "spurious_schedule = [(0, HCall (OpProtect 5)), (0, HStep), (0, HStep), (0, HSpurious), (0, HSpurious), (0, HSpurious),
     (0, HSpurious), (0, HStep)]"

definition drain_schedule :: "(tid \<times> hp_act) list" where
  "drain_schedule = [(0, HCall (OpRetire 5)), (0, HStep), (0, HCall OpDrain), (0, HStep)]"

section \<open>Lemmas\<close>

lemma hgoto_simps [simp]:
  "records (hgoto t p s) = records s" "slots (hgoto t p s) = slots s" "retired (hgoto t p s) = retired s"
  "orphaned (hgoto t p s) = orphaned s" "pool (hgoto t p s) = pool s" "orphanedLock (hgoto t p s) = orphanedLock s"
  "hpcs (hgoto t p s) = (hpcs s)[t := p]"
  by (simp_all add: hgoto_def)

lemma set_slot_simps [simp]:
  "records (set_slot t i v s) = records s" "slots (set_slot t i v s) = (slots s)[t := (slots s ! t)[i := v]]"
  "retired (set_slot t i v s) = retired s" "orphaned (set_slot t i v s) = orphaned s" "pool (set_slot t i v s) = pool s"
  by (simp_all add: set_slot_def)

lemma set_slot_sys [simp]:
  "orphanedLock (set_slot t i v s) = orphanedLock s" "hpcs (set_slot t i v s) = hpcs s"
  by (simp_all add: set_slot_def)

lemma deallocate_simps [simp]:
  "records (hp_deallocate p s) = records s" "slots (hp_deallocate p s) = slots s" "retired (hp_deallocate p s) = retired s"
  "orphaned (hp_deallocate p s) = orphaned s" "pool (hp_deallocate p s) = pool s @ [p]"
  by (simp_all add: hp_deallocate_def)

lemma deallocate_sys [simp]:
  "orphanedLock (hp_deallocate p s) = orphanedLock s" "hpcs (hp_deallocate p s) = hpcs s"
  by (simp_all add: hp_deallocate_def)

lemma sum_change:
  fixes f g :: "nat \<Rightarrow> 'a::comm_monoid_add"
  assumes "t < n" "\<And>u. u < n \<Longrightarrow> u \<noteq> t \<Longrightarrow> g u = f u"
  shows "(\<Sum>u<n. g u) + f t = (\<Sum>u<n. f u) + g t"
proof -
  have "(\<Sum>u<n. f u) = f t + (\<Sum>u\<in>{..<n} - {t}. f u)" "(\<Sum>u<n. g u) = g t + (\<Sum>u\<in>{..<n} - {t}. g u)"
    using assms(1) by (auto intro: sum.remove)
  moreover have "(\<Sum>u\<in>{..<n} - {t}. g u) = (\<Sum>u\<in>{..<n} - {t}. f u)"
    using assms(2) by (intro sum.cong) auto
  ultimately show ?thesis by (simp add: ac_simps)
qed

lemmas hp_step_defs = Let_def hp_threadExit_def hp_allocate_def scan_end_def

lemma length_slot_update [simp]: "length (xs[t := (xs ! t)[i := v]] ! u) = length (xs ! u)"
  by (cases "u = t"; cases "t < length xs") (simp_all add: list_update_beyond)

lemma hp_step_frame:
  assumes "hp_step t (hpcs s ! t) s = Some s'" "t < length (hpcs s)"
  shows "length (hpcs s') = length (hpcs s) \<and> length (slots s') = length (slots s) \<and>
    length (retired s') = length (retired s) \<and> length (slots s' ! v) = length (slots s ! v) \<and>
    (u \<noteq> t \<longrightarrow> hpcs s' ! u = hpcs s ! u \<and> retired s' ! u = retired s ! u \<and> slots s' ! u = slots s ! u)"
  using assms
  by (cases "(t, hpcs s ! t, s)" rule: hp_step.cases)
    (auto simp: hp_step_defs split: if_splits scan_src.splits)

lemma hp_inv_lock:
  assumes "hp_inv s" "t < length (hpcs s)" "hp_step t (hpcs s ! t) s = Some s'"
  shows "(walks_orphans (hpcs s' ! t) \<longleftrightarrow> orphanedLock s' = Some t) \<and>
    (orphanedLock s' = orphanedLock s \<or> orphanedLock s = None \<and> orphanedLock s' = Some t \<or>
     orphanedLock s = Some t \<and> orphanedLock s' = None)"
proof -
  have "walks_orphans (hpcs s ! t) \<longleftrightarrow> orphanedLock s = Some t" using assms(1,2) by (simp add: hp_inv_def)
  with assms(2,3) show ?thesis
  by (cases "(t, hpcs s ! t, s)" rule: hp_step.cases)
    (auto simp: hp_step_defs walks_orphans_def split: if_splits scan_src.splits)
qed

lemma hp_inv_exec:
  assumes inv: "hp_inv s" and ex: "hp_exec a s = Some s'"
  shows "hp_inv s'"
proof -
  obtain t x where a: "a = (t, x)" by (cases a)
  with ex have t: "t < length (hpcs s)" by (auto split: if_splits)
  have frame: "hp_inv s'" if "length (hpcs s') = length (hpcs s)" "slots s' = slots s" "retired s' = retired s"
      "orphanedLock s' = orphanedLock s" "\<And>u. u \<noteq> t \<Longrightarrow> hpcs s' ! u = hpcs s ! u"
      "\<not> walks_orphans (hpcs s' ! t)" "\<not> walks_orphans (hpcs s ! t)"
    using inv that unfolding hp_inv_def by metis
  show ?thesis
  proof (cases x)
    case HStep
    with a ex t have st: "hp_step t (hpcs s ! t) s = Some s'" by simp
    note fr = hp_step_frame [OF st t]
    have "walks_orphans (hpcs s' ! u) \<longleftrightarrow> orphanedLock s' = Some u" if "u < length (hpcs s)" for u
      using hp_inv_lock [OF inv t st] fr [of _ u] inv that
      by (cases "u = t") (auto simp: hp_inv_def)
    with fr hp_inv_lock [OF inv t st] inv t show ?thesis
      unfolding hp_inv_def by (metis option.distinct(1) option.inject)
  next
    case (HCall oper)
    have "\<not> walks_orphans (hp_call oper s t)" by (cases oper) (auto simp: walks_orphans_def)
    with HCall a ex t show ?thesis
      by (intro frame) (auto simp: walks_orphans_def split: hp_pc.splits)
  next
    case HSpurious
    with a ex t show ?thesis
      by (intro frame) (auto simp: walks_orphans_def split: hp_pc.splits)
  qed
qed

interpretation hpi: invariant_system hp_init hp_exec hp_inv
proof unfold_locales
  show "hp_init s \<Longrightarrow> hp_inv s" for s by (auto simp: hp_init_def hp_sys_new_def hp_inv_def walks_orphans_def)
qed (rule hp_inv_exec)


subsection \<open>No node is lost or freed twice\<close>

lemma own_hand_none [simp]: "in_scan p = None \<Longrightarrow> own_hand p r = r"
  by (simp add: own_hand_def)

lemma mset_last: "xs \<noteq> [] \<Longrightarrow> add_mset (last xs) (mset (butlast xs)) = mset xs"
  by (metis append_butlast_last_id mset_append mset.simps add_mset_add_single)

lemma garbage_local_other:
  assumes st: "hp_step t p s = Some s'" and p: "hpcs s ! t = p" and t: "t < length (hpcs s)" "t < length (retired s)"
    and lk: "orphanedLock s = Some x" "x \<noteq> t" "\<not> walks_orphans p"
  shows "mset (own_hand (hpcs s' ! t) (retired s' ! t)) + mset (orphan_part s') + mset (pool s') + opt_mset (hp_took (t, HStep) s) =
      mset (own_hand p (retired s ! t)) + mset (orphan_part s) + mset (pool s) + opt_mset (hp_gave (t, HStep) s)"
  using assms
  by (cases "(t, p, s)" rule: hp_step.cases)
    (auto simp: hp_step_defs own_hand_def walks_orphans_def orphan_part_def opt_mset_def mset_last
        split: if_splits scan_src.splits)

lemma garbage_local_none:
  assumes st: "hp_step t p s = Some s'" and p: "hpcs s ! t = p" and t: "t < length (hpcs s)" "t < length (retired s)"
    and lk: "orphanedLock s = None" "\<not> walks_orphans p"
  shows "mset (own_hand (hpcs s' ! t) (retired s' ! t)) + mset (orphan_part s') + mset (pool s') + opt_mset (hp_took (t, HStep) s) =
      mset (own_hand p (retired s ! t)) + mset (orphan_part s) + mset (pool s) + opt_mset (hp_gave (t, HStep) s)"
  using assms
  by (cases "(t, p, s)" rule: hp_step.cases)
    (auto simp: hp_step_defs own_hand_def orphan_hand_def walks_orphans_def orphan_part_def opt_mset_def mset_last
        split: if_splits scan_src.splits)

lemma garbage_local_own:
  assumes st: "hp_step t p s = Some s'" and p: "hpcs s ! t = p" and t: "t < length (hpcs s)" "t < length (retired s)"
    and lk: "orphanedLock s = Some t" "walks_orphans p"
  shows "mset (own_hand (hpcs s' ! t) (retired s' ! t)) + mset (orphan_part s') + mset (pool s') + opt_mset (hp_took (t, HStep) s) =
      mset (own_hand p (retired s ! t)) + mset (orphan_part s) + mset (pool s) + opt_mset (hp_gave (t, HStep) s)"
  using assms
  by (cases "(t, p, s)" rule: hp_step.cases)
    (auto simp: hp_step_defs own_hand_def orphan_hand_def walks_orphans_def orphan_part_def opt_mset_def
        split: if_splits scan_src.splits)

lemma rebalance:
  fixes f :: "'a multiset"
  assumes "A' + f = A + f'" "f' + o' + p' + k = f + o1 + p + g"
  shows "A' + o' + p' + k = A + o1 + p + g"
proof -
  have "f + (A' + o' + p' + k) = (A' + f) + (o' + p' + k)" by (simp add: ac_simps)
  also have "\<dots> = (A + f') + (o' + p' + k)" by (simp only: assms(1))
  also have "\<dots> = A + (f' + o' + p' + k)" by (simp add: ac_simps)
  also have "\<dots> = A + (f + o1 + p + g)" by (simp only: assms(2))
  also have "\<dots> = f + (A + o1 + p + g)" by (simp add: ac_simps)
  finally show ?thesis by simp
qed

lemma garbage_step:
  assumes inv: "hp_inv s" and t: "t < length (hpcs s)" and st: "hp_step t (hpcs s ! t) s = Some s'"
  shows "garbage s' + opt_mset (hp_took (t, HStep) s) = garbage s + opt_mset (hp_gave (t, HStep) s)"
proof -
  let ?f = "\<lambda>s u. mset (own_hand (hpcs s ! u) (retired s ! u))"
  note fr = hp_step_frame [OF st t]
  have sum: "(\<Sum>u<length (hpcs s'). ?f s' u) + ?f s t = (\<Sum>u<length (hpcs s). ?f s u) + ?f s' t"
    using fr t by (subst sum_change [of t _ "?f s'" "?f s"]) auto
  have len: "t < length (retired s)" and lk: "walks_orphans (hpcs s ! t) \<longleftrightarrow> orphanedLock s = Some t"
    using inv t by (simp_all add: hp_inv_def)
  have loc: "?f s' t + mset (orphan_part s') + mset (pool s') + opt_mset (hp_took (t, HStep) s) =
      ?f s t + mset (orphan_part s) + mset (pool s) + opt_mset (hp_gave (t, HStep) s)"
    using garbage_local_other [OF st refl t len] garbage_local_none [OF st refl t len]
      garbage_local_own [OF st refl t len] lk by (metis not_None_eq)
  from rebalance [OF sum loc] show ?thesis
    unfolding garbage_def waiting_def orphan_part_def [symmetric] by simp
qed

lemma own_hand_call: "hpcs s ! t = HDone r \<Longrightarrow> own_hand (hp_call oper s t) (retired s ! t) = retired s ! t"
  by (cases oper) (simp_all add: own_hand_def)

lemma garbage_move:
  assumes "t < length (hpcs s)" "own_hand p (retired s ! t) = own_hand (hpcs s ! t) (retired s ! t)"
    "\<not> walks_orphans (hpcs s ! t)" "hp_inv s"
  shows "garbage (hgoto t p s) = garbage s"
proof -
  have "orphanedLock s \<noteq> Some t" using assms(1,3,4) by (auto simp: hp_inv_def)
  moreover have "own_hand ((hpcs s)[t := p] ! u) (retired s ! u) = own_hand (hpcs s ! u) (retired s ! u)" for u
    using assms(1,2) by (cases "u = t") simp_all
  ultimately show ?thesis by (auto simp: garbage_def waiting_def split: option.splits)
qed

lemma garbage_exec:
  assumes inv: "hp_inv s" and ex: "hp_exec a s = Some s'"
  shows "garbage s' + opt_mset (hp_took a s) = garbage s + opt_mset (hp_gave a s)"
proof -
  obtain t x where a: "a = (t, x)" by (cases a)
  with ex have t: "t < length (hpcs s)" by (auto split: if_splits)
  show ?thesis
  proof (cases x)
    case HStep
    with a ex t garbage_step [OF inv t] show ?thesis by simp
  next
    case (HCall oper)
    with a ex t obtain r where r: "hpcs s ! t = HDone r" "s' = hgoto t (hp_call oper s t) s"
      by (auto split: hp_pc.splits)
    with own_hand_call [OF r(1), of oper] garbage_move [OF t _ _ inv, of "hp_call oper s t"] a HCall show ?thesis
      by (simp add: walks_orphans_def opt_mset_def)
  next
    case HSpurious
    with a ex t inv show ?thesis
      by (cases "hpcs s ! t") (auto simp: walks_orphans_def opt_mset_def intro!: garbage_move)
  qed
qed

lemma garbage_run:
  "hp_inv s \<Longrightarrow> run hp_exec as s = Some s' \<Longrightarrow>
     garbage s' + mset (events hp_exec hp_took as s) = garbage s + mset (events hp_exec hp_gave as s)"
proof (induction as arbitrary: s)
  case (Cons a as)
  then obtain u where u: "hp_exec a s = Some u" "run hp_exec as u = Some s'"
    by (auto simp del: hp_exec.simps split: option.splits)
  have "hp_inv u" using Cons.prems(1) u(1) by (rule hpi.inv_exec)
  from Cons.IH [OF this u(2)] garbage_exec [OF Cons.prems(1) u(1)] u(1) show ?case
    by (auto simp: opt_mset_def simp del: hp_exec.simps hp_took.simps hp_gave.simps split: option.splits)
qed simp

subsection \<open>Protection\<close>

lemma slot_update_other: "u \<noteq> t \<or> j \<noteq> i \<Longrightarrow> xs[u := (xs ! u)[j := v]] ! t ! i = xs ! t ! i"
  by (cases "u = t"; cases "u < length xs") (auto simp: list_update_beyond)

lemma in_hd_tl: "x \<in> set xs \<Longrightarrow> x \<notin> set (tl xs) \<Longrightarrow> xs \<noteq> [] \<and> hd xs = x"
  by (cases xs) auto

lemma guards_slot_step:
  assumes "guards t i p s" "u < length (hpcs s)" "hp_step u (hpcs s ! u) s = Some s'"
  shows "slots s' ! t ! i = Some p \<and> t \<in> set (records s')"
proof (cases "(u, hpcs s ! u, s)" rule: hp_step.cases)
  case (4 v q j s2)
  with assms have "u \<noteq> t \<or> j \<noteq> i" if "j < slotsCount" "slots s ! u ! j = None"
    using that by (auto simp: guards_def)
  with 4 assms show ?thesis by (auto simp: guards_def slot_update_other split: if_splits)
next
  case (5 v j s2)
  with assms have "u \<noteq> t \<or> j \<noteq> i" by (auto simp: guards_def)
  with 5 assms show ?thesis by (auto simp: guards_def slot_update_other)
qed (use assms in \<open>auto simp: guards_def hp_step_defs split: if_splits scan_src.splits\<close>)

lemma guards_step:
  assumes g: "guards t i p s" and u: "u < length (hpcs s)" and st: "hp_step u (hpcs s ! u) s = Some s'"
  shows "p \<notin> set (pool s') \<and> scan_sees t i p (hpcs s' ! u) \<and> (u = t \<longrightarrow> hpcs s' ! u \<noteq> USlot i)"
proof -
  have "scan_sees t i p (hpcs s ! u)" using g u by (auto simp: guards_def list_all_length)
  with g u st show ?thesis
    by (cases "(u, hpcs s ! u, s)" rule: hp_step.cases)
      (auto simp: guards_def hp_step_defs Suc_le_eq le_less dest: in_set_butlastD in_hd_tl split: if_splits scan_src.splits)
qed

lemma guards_exec:
  assumes g: "guards t i p s" and ex: "hp_exec a s = Some s'" and k: "keeps_guard t i p a"
  shows "guards t i p s'"
proof -
  obtain u x where a: "a = (u, x)" by (cases a)
  with ex have u: "u < length (hpcs s)" by (auto split: if_splits)
  show ?thesis
  proof (cases x)
    case HStep
    with a ex u have st: "hp_step u (hpcs s ! u) s = Some s'" by simp
    have "scan_sees t i p (hpcs s' ! v)" if "v < length (hpcs s)" for v
      using guards_step [OF g u st] hp_step_frame [OF st u, of _ v] g that
      by (cases "v = u") (auto simp: guards_def list_all_length)
    moreover have "hpcs s' ! t \<noteq> USlot i"
      using guards_step [OF g u st] hp_step_frame [OF st u, of _ t] g by (cases "t = u") (auto simp: guards_def)
    ultimately show ?thesis
      using guards_slot_step [OF g u st] guards_step [OF g u st] hp_step_frame [OF st u, of t t] g
      by (auto simp: guards_def list_all_length)
  next
    case (HCall oper)
    have "scan_sees t i p (hp_call oper s u)" "u = t \<longrightarrow> hp_call oper s u \<noteq> USlot i"
      using k HCall a by (cases oper; auto)+
    with HCall a ex g u show ?thesis
      by (auto simp: guards_def list_all_length nth_list_update split: hp_pc.splits if_splits)
  next
    case HSpurious
    with a ex g u show ?thesis
      by (auto simp: guards_def list_all_length nth_list_update split: hp_pc.splits if_splits)
  qed
qed

lemma guards_run:
  "guards t i p s \<Longrightarrow> run hp_exec as s = Some s' \<Longrightarrow> list_all (keeps_guard t i p) as \<Longrightarrow>
     guards t i p s' \<and> p \<notin> set (events hp_exec hp_took as s)"
proof (induction as arbitrary: s)
  case (Cons a as)
  then obtain u where u: "hp_exec a s = Some u" "run hp_exec as u = Some s'"
    by (auto simp del: hp_exec.simps split: option.splits)
  have "guards t i p u" using guards_exec [OF Cons.prems(1) u(1)] Cons.prems(3) by simp
  moreover have "hp_took a s \<noteq> Some p"
    using Cons.prems(1) by (cases a) (auto simp: guards_def hp_allocate_def split: hp_pc.splits if_splits)
  ultimately show ?case using Cons.IH [OF _ u(2)] Cons.prems(3) u(1)
    by (auto simp del: hp_exec.simps hp_took.simps split: option.splits)
qed simp

text \<open>A node the reclaimer does not have is in no scan's hands.\<close>

lemma not_garbage_guards:
  assumes inv: "hp_inv s" and t: "t < length (hpcs s)" "i < slotsCount" "slots s ! t ! i = Some p" "t \<in> set (records s)"
    and "p \<notin># garbage s" "hpcs s ! t \<noteq> USlot i" "list_all (\<lambda>q. q \<noteq> APush p) (hpcs s)"
  shows "guards t i p s"
proof -
  have "scan_sees t i p (hpcs s ! u)" if u: "u < length (hpcs s)" for u
  proof -
    have w: "p \<notin># waiting s" "p \<notin> set (pool s)" using assms(6) by (auto simp: garbage_def)
    have own: "p \<notin> set (own_hand (hpcs s ! u) (retired s ! u))"
      using w(1) u sum.remove [of "{..<length (hpcs s)}" u "\<lambda>t. mset (own_hand (hpcs s ! t) (retired s ! t))"]
      by (auto simp: waiting_def)
    have orp: "p \<notin> set (orphan_hand (hpcs s ! u))"
    proof (cases "walks_orphans (hpcs s ! u)")
      case True
      with inv u have "orphanedLock s = Some u" by (simp add: hp_inv_def)
      with w(1) show ?thesis by (simp add: waiting_def)
    next
      case False
      then show ?thesis by (auto simp: walks_orphans_def orphan_hand_def split: option.splits prod.splits scan_src.splits)
    qed
    show ?thesis using own orp assms(8) u
      by (cases "hpcs s ! u") (auto simp: own_hand_def orphan_hand_def list_all_length split: scan_src.splits)
  qed
  with assms show ?thesis by (auto simp: guards_def garbage_def hp_inv_def list_all_length)
qed

subsection \<open>Sequential operations\<close>

lemma scan_list_eq:
  "scan_list ps s = (filter (\<lambda>p. hp_isProtected p s) ps, s\<lparr>pool := pool s @ filter (\<lambda>p. \<not> hp_isProtected p s) ps\<rparr>)"
proof (induction ps arbitrary: s)
  case (Cons p ps)
  have "hp_isProtected q (hp_deallocate p s) = hp_isProtected q s" for q by (simp add: hp_isProtected_def)
  with Cons show ?case by (simp add: hp_deallocate_def)
qed simp

lemma free_index: "None \<in> set xs \<Longrightarrow> length (takeWhile (\<lambda>x. x \<noteq> None) xs) < length xs"
  by (induction xs) auto

lemma weak_free_Some:
  "weak_free fails k xs = Some i \<Longrightarrow> k \<le> i \<and> i < k + length xs \<and> xs ! (i - k) = None \<and> i \<notin> set fails"
  by (induction xs arbitrary: k) (fastforce simp: nth_Cons' split: if_splits)+

lemma weak_free_None: "weak_free [] k xs = None \<longleftrightarrow> None \<notin> set xs"
  by (induction xs arbitrary: k) auto

lemma hp_protect_strong: "hp_protect_weak [] t p s = hp_protect t p s"
proof -
  have "weak_free [] k xs = first_free k xs" for k xs by (induction xs arbitrary: k) auto
  then show ?thesis by (simp add: hp_protect_weak_def hp_protect_def)
qed

lemma first_free_spec:
  "first_free k xs = (if None \<in> set xs then Some (k + length (takeWhile (\<lambda>x. x \<noteq> None) xs)) else None)"
  by (induction xs arbitrary: k) auto


section \<open>Properties\<close>

text \<open>C6. Safety of reclamation. Suppose slot \<open>i\<close> of thread \<open>t\<close> holds \<open>p\<close> at a moment at which \<open>p\<close> has not
  been handed to the reclaimer (what a client establishes when it reloads the pointer after
  \<open>protect\<close>). Then, whatever the threads do afterwards, retirement of \<open>p\<close> and concurrent scans
  included, \<open>p\<close> is not pooled and not handed out by \<open>allocate\<close> as long as \<open>t\<close> does not clear the slot
  and nobody drains or deallocates \<open>p\<close> by hand.\<close>

theorem hp_protected_not_reclaimed:
  assumes "reachable hp_init hp_exec s" "t < length (hpcs s)" "i < slotsCount" "slots s ! t ! i = Some p"
    "t \<in> set (records s)" "p \<notin># garbage s" "hpcs s ! t \<noteq> USlot i" "list_all (\<lambda>q. q \<noteq> APush p) (hpcs s)"
    "run hp_exec as s = Some s'" "list_all (keeps_guard t i p) as"
  shows "p \<notin> set (pool s') \<and> p \<notin> set (events hp_exec hp_took as s) \<and> slots s' ! t ! i = Some p"
proof -
  have "hp_inv s" using assms(1) by (rule hpi.reachable_inv)
  then have "guards t i p s" using assms(2-8) by (rule not_garbage_guards)
  from guards_run [OF this assms(9,10)] show ?thesis by (auto simp: guards_def)
qed

lemma waiting_code: "waiting s = sum_list (map (\<lambda>t. mset (own_hand (hpcs s ! t) (retired s ! t))) [0 ..< length (hpcs s)]) +
     mset (case orphanedLock s of None \<Rightarrow> orphaned s | Some t \<Rightarrow> orphan_hand (hpcs s ! t))"
  by (simp add: waiting_def lessThan_atLeast0 sum_list_distinct_conv_sum_set)

theorem hp_protected_not_reclaimed_witness:
  "\<exists>s s'. run hp_exec guard_schedule (hp_sys_new 3) = Some s \<and> run hp_exec retire_scan_schedule s = Some s' \<and>
     events hp_exec hp_took retire_scan_schedule s = [6] \<and> retired s' = [[5], [], []] \<and>
     5 \<notin> set (pool s') \<and> slots s' ! 1 ! 0 = Some 5"
proof -
  have "map_option (\<lambda>s. (slots s, records s, hpcs s, retired s, orphaned s, pool s, orphanedLock s,
        map_option retired (run hp_exec retire_scan_schedule s), events hp_exec hp_took retire_scan_schedule s))
      (run hp_exec guard_schedule (hp_sys_new 3)) =
    Some ([[None, None, None, None], [Some 5, None, None, None], [None, None, None, None]], [1],
        [HDone HUnit, HDone (HSlot 0), HDone HUnit], [[], [], []], [], [], None, Some [[5], [], []], [6])"
    by code_simp
  then obtain s s' where s: "run hp_exec guard_schedule (hp_sys_new 3) = Some s"
    "slots s = [[None, None, None, None], [Some 5, None, None, None], [None, None, None, None]]" "records s = [1]"
    "hpcs s = [HDone HUnit, HDone (HSlot 0), HDone HUnit]" "retired s = [[], [], []]" "orphaned s = []" "pool s = []"
    "orphanedLock s = None" "run hp_exec retire_scan_schedule s = Some s'" "retired s' = [[5], [], []]"
    "events hp_exec hp_took retire_scan_schedule s = [6]"
    by auto
  have "reachable hp_init hp_exec s"
    by (rule run_reachable [OF reachable.start s(1)]) (auto simp: hp_init_def)
  moreover have "list_all (keeps_guard 1 0 5) retire_scan_schedule" by code_simp
  ultimately have "5 \<notin> set (pool s') \<and> slots s' ! 1 ! 0 = Some 5"
    using hp_protected_not_reclaimed [of s 1 0 5 retire_scan_schedule s'] s(2-9)
    by (simp add: slotsCount_def garbage_def waiting_code own_hand_def)
  with s show ?thesis by blast
qed

text \<open>C22. No node is lost or freed twice: in every run of any number of threads, scans, drains and thread
  exits included, the nodes in the retired lists, in the orphaned list, in the hands of a scan and
  in the pool, together with those handed out by \<open>allocate\<close>, are as a multiset exactly the nodes that
  were retired or deallocated.\<close>

theorem hp_conserves_nodes:
  assumes "run hp_exec as (hp_sys_new n) = Some s"
  shows "garbage s + mset (events hp_exec hp_took as (hp_sys_new n)) = mset (events hp_exec hp_gave as (hp_sys_new n))"
proof -
  have i: "hp_inv (hp_sys_new n)" by (rule hpi.inv_init) (auto simp: hp_init_def)
  have "garbage (hp_sys_new n) = {#}"
    by (simp add: garbage_def waiting_def hp_sys_new_def own_hand_def)
  with garbage_run [OF i assms] show ?thesis by simp
qed

theorem hp_conserves_nodes_witness:
  "\<exists>s. run hp_exec (guard_schedule @ retire_scan_schedule) (hp_sys_new 3) = Some s \<and> garbage s + {#6#} = {#5, 6#}"
proof -
  let ?as = "guard_schedule @ retire_scan_schedule"
  have ev: "events hp_exec hp_took ?as (hp_sys_new 3) = [6]" "events hp_exec hp_gave ?as (hp_sys_new 3) = [5, 6]"
    by code_simp+
  have "run hp_exec ?as (hp_sys_new 3) \<noteq> None" by code_simp
  then obtain s where s: "run hp_exec ?as (hp_sys_new 3) = Some s" by blast
  from hp_conserves_nodes [OF s] s show ?thesis unfolding ev by auto
qed

text \<open>A scan that runs alone is exact: of its own and the orphaned list it keeps the protected nodes, in
  order, and pools all the others.\<close>

theorem hp_scan_exact:
  assumes "t < length (retired s)"
  shows "retired (hp_scan t s) = (retired s)[t := filter (\<lambda>p. hp_isProtected p s) (retired s ! t)] \<and>
     orphaned (hp_scan t s) = filter (\<lambda>p. hp_isProtected p s) (orphaned s) \<and>
     pool (hp_scan t s) = pool s @ filter (\<lambda>p. \<not> hp_isProtected p s) (retired s ! t @ orphaned s) \<and>
     slots (hp_scan t s) = slots s \<and> records (hp_scan t s) = records s"
  by (simp add: hp_scan_def hp_scanOrphaned_def scan_list_eq hp_isProtected_def)

theorem hp_scan_exact_witness:
  "pool (hp_scan 0 ((hp_new 2)\<lparr>records := [1], slots := [[None], [Some 5]], retired := [[4, 5], []], orphaned := [6]\<rparr>)) = [4, 6]"
  using hp_scan_exact [of 0 "(hp_new 2)\<lparr>records := [1], slots := [[None], [Some 5]], retired := [[4, 5], []], orphaned := [6]\<rparr>"]
  by (simp add: hp_new_def hp_isProtected_def)

text \<open>\<open>protect\<close> alone: it fails exactly when all slots of the thread are taken; otherwise it takes the
  first free one, after which the address is protected, and \<open>unprotect\<close> of the returned slot
  restores the slots.\<close>

theorem hp_protect_spec:
  assumes "t < length (slots s)"
  shows "case hp_protect t p s of
       (Inl e, s') \<Rightarrow> None \<notin> set (slots s ! t) \<and> slots s' = slots s
     | (Inr i, s') \<Rightarrow> i < length (slots s ! t) \<and> slots s ! t ! i = None \<and> hp_isProtected p s' \<and>
         slots (hp_unprotect t i s') = slots s"
proof -
  let ?xs = "slots s ! t" and ?i = "length (takeWhile (\<lambda>x. x \<noteq> None) (slots s ! t))"
  have i: "?i < length ?xs \<and> ?xs ! ?i = None" if "None \<in> set ?xs"
    using free_index [OF that] nth_length_takeWhile [of "\<lambda>x. x \<noteq> None" ?xs] by auto
  have restore: "(?xs[?i := Some p])[?i := None] = ?xs" if "None \<in> set ?xs" using i [OF that] by (metis list_update_id list_update_overwrite)
  show ?thesis using assms i restore
    by (auto simp: hp_protect_def hp_initRecord_def hp_unprotect_def hp_isProtected_def first_free_spec Let_def
        list_ex_iff set_update_memI intro!: bexI [of _ t])
qed

theorem hp_protect_spec_witness:
  "case hp_protect 0 7 (hp_new 1) of
     (Inl e, s') \<Rightarrow> False
   | (Inr i, s') \<Rightarrow> i = 0 \<and> hp_isProtected 7 s' \<and> slots (hp_unprotect 0 i s') = slots (hp_new 1)"
  using hp_protect_spec [of 0 "hp_new 1" 7] by (simp add: hp_protect_def hp_new_def hp_initRecord_def slotsCount_def numeral_eq_Suc)

text \<open>\<open>protect\<close> tries each slot once with a weak CAS: if it fails spuriously four times, \<open>protect\<close> throws
  although every slot of the thread is free.\<close>

theorem hp_protect_spurious_throw:
  "\<exists>s. run hp_exec spurious_schedule (hp_sys_new 1) = Some s \<and> slots s ! 0 = replicate slotsCount None \<and>
     hpcs s = [HDone (HThrow ''Stored pointers overflow'')]"
proof -
  have "map_option (\<lambda>s. (slots s ! 0 = replicate slotsCount None, hpcs s)) (run hp_exec spurious_schedule (hp_sys_new 1)) =
      Some (True, [HDone (HThrow ''Stored pointers overflow'')])"
    by code_simp
  then show ?thesis by auto
qed

text \<open>\<open>drain\<close> ignores protection: a node that another thread protects is in the pool, ready to be handed
  out again. The reclaimer is shared by all queues of a type, so the destructor of one queue does
  this to the users of another.\<close>

theorem hp_drain_pools_protected:
  "\<exists>s. run hp_exec (guard_schedule @ drain_schedule) (hp_sys_new 2) = Some s \<and> pool s = [5] \<and> hp_isProtected 5 s"
proof -
  have "map_option (\<lambda>s. (pool s, hp_isProtected 5 s)) (run hp_exec (guard_schedule @ drain_schedule) (hp_sys_new 2)) =
      Some ([5], True)"
    by code_simp
  then show ?thesis by auto
qed

end
