(* ===== verification/MichaelScottQueue.thy ===== *)
theory MichaelScottQueue
  imports HazardPointers
begin

text \<open>
  \<^verbatim>\<open>include/miniruntime/task/michaelscottqueue.h\<close>: the unbounded lock-free queue.

  The heap maps addresses to nodes and \<open>new Node\<close> takes the next unused address; the reclaimer of
  \<open>HazardPointers\<close> is part of the state, each of its operations one step here (a thread's slots are
  written by that thread only). Methods run access by access for any number of threads; a weak CAS
  may fail spuriously (\<open>MSpurious\<close>; \<open>MWeak\<close> for those of \<open>protect\<close>, which then may throw), \<open>timeoutPop\<close> may find its deadline passed (\<open>MExpire\<close>), and the
  destructor of another queue of the type may drain the shared reclaimer (\<open>OpDrainOther\<close>).

  Proved: as long as no node is recycled (at most \<open>retireThreshold\<close> retirements, no drain), every
  interleaving refines a FIFO list, no pop finds an empty optional, and no exception is thrown but that of \<open>protect\<close>.
  With recycling the tail can be swung to a recycled node (\<open>emplace\<close> gives up its protection before
  the last CAS) and an element is lost; \<open>pop\<close> can report a closed queue as drained when it is not;
  \<open>size\<close> can wrap below zero.
\<close>

section \<open>State and steps\<close>

record 'a node =
  nvalue :: "'a option"
  nnext :: "addr option"

datatype pop_mode = ForPop | ForTimeoutPop

datatype 'a try_state = Retry | Empty | Popped 'a

datatype 'a msq_res = MUnit | MBool bool | MOpt "'a option" | MSize u64 | MThrow string

datatype 'a msq_pc =
    MDone "'a msq_res"
  | EClosed 'a                      \<comment> \<open>\<open>emplace\<close>: \<open>m_closed.load()\<close>\<close>
  | EAlloc 'a                       \<comment> \<open>\<open>s_hazardPointers.allocate()\<close>, else \<open>new Node\<close>\<close>
  | EInit addr 'a                   \<comment> \<open>reset of a pooled node\<close>
  | ELoad addr                      \<comment> \<open>\<open>t = m_tail.load()\<close>\<close>
  | EProtect addr addr
  | ECheck addr addr nat            \<comment> \<open>\<open>m_tail.load() != t\<close>\<close>
  | ENext addr addr nat             \<comment> \<open>\<open>next = t->next.load()\<close>\<close>
  | EHelp addr addr addr nat        \<comment> \<open>CAS of the tail to \<open>next\<close>\<close>
  | ECas addr addr nat              \<comment> \<open>CAS of \<open>t->next\<close>\<close>
  | EUnprotect addr nat             \<comment> \<open>\<open>unprotect(slot)\<close>, next iteration\<close>
  | ELinked addr addr nat           \<comment> \<open>\<open>unprotect(slot)\<close> after linking\<close>
  | ESwing addr addr                \<comment> \<open>CAS of the tail from \<open>t\<close> to the new node\<close>
  | ECount                          \<comment> \<open>\<open>m_size.fetch_add(1)\<close>\<close>
  | QDeadline                       \<comment> \<open>\<open>timeoutPop\<close>: \<open>now() >= deadline\<close>\<close>
  | QLoad pop_mode                  \<comment> \<open>\<open>tryPop\<close>: \<open>h = m_head.load()\<close>\<close>
  | QProtect pop_mode addr
  | QCheck pop_mode addr nat
  | QNext pop_mode addr nat
  | QProtectN pop_mode addr nat addr
  | QCheckN pop_mode addr nat addr nat
  | QTail pop_mode addr nat addr nat
  | QHelp pop_mode addr nat addr nat
  | QCas pop_mode addr nat addr nat
  | QTake pop_mode addr nat addr nat         \<comment> \<open>\<open>result = move(headNext->value.value())\<close>\<close>
  | QCount pop_mode addr nat nat 'a          \<comment> \<open>\<open>m_size.fetch_sub(1)\<close>\<close>
  | QRelease pop_mode addr nat "nat option" "'a try_state"   \<comment> \<open>\<open>unprotect(hSlot)\<close>\<close>
  | QReleaseN pop_mode addr nat "'a try_state"               \<comment> \<open>\<open>unprotect(nSlot)\<close>\<close>
  | QRetire pop_mode addr 'a                 \<comment> \<open>\<open>retire(h)\<close>\<close>
  | QClosed pop_mode                         \<comment> \<open>\<open>Empty && m_closed.load()\<close>\<close>
  | MClose
  | MSizeLoad
  | MDrain                                   \<comment> \<open>\<open>drain\<close> in the destructor of another queue\<close>

record 'a msq = hp +
  m_head :: addr
  m_tail :: addr
  m_size :: u64
  msq_closed :: bool
  heap :: "addr \<Rightarrow> 'a node"
  brk :: nat
  mpcs :: "'a msq_pc list"

definition empty_node :: "'a node" where
  "empty_node = \<lparr>nvalue = None, nnext = None\<rparr>"

text \<open>The constructor: node 0 is the dummy.\<close>

definition msq_new :: "nat \<Rightarrow> 'a msq" where
  "msq_new n = \<lparr>records = [], slots = replicate n (replicate slotsCount None), retired = replicate n [],
     orphaned = [], pool = [], m_head = 0, m_tail = 0, m_size = 0, msq_closed = False,
     heap = (\<lambda>a. empty_node), brk = 1, mpcs = replicate n (MDone MUnit)\<rparr>"

definition mgoto :: "tid \<Rightarrow> 'a msq_pc \<Rightarrow> 'a msq \<Rightarrow> 'a msq" where
  "mgoto t p s = s\<lparr>mpcs := (mpcs s)[t := p]\<rparr>"

datatype 'a msq_op = OpPush 'a | OpPop | OpTimeoutPop | OpClose | OpSize | OpDrainOther

fun msq_call :: "'a msq_op \<Rightarrow> 'a msq_pc" where
  "msq_call (OpPush v) = EClosed v"
| "msq_call OpPop = QLoad ForPop"
| "msq_call OpTimeoutPop = QDeadline"
| "msq_call OpClose = MClose"
| "msq_call OpSize = MSizeLoad"
| "msq_call OpDrainOther = MDrain"

text \<open>The head of the retry loop of \<open>pop\<close> and of \<open>timeoutPop\<close>.\<close>

fun again :: "pop_mode \<Rightarrow> 'a msq_pc" where
  "again ForPop = QLoad ForPop"
| "again ForTimeoutPop = QDeadline"

text \<open>After \<open>tryPop\<close> has released its slots.\<close>

fun after_try :: "pop_mode \<Rightarrow> addr \<Rightarrow> 'a try_state \<Rightarrow> 'a msq_pc" where
  "after_try m h Retry = again m"
| "after_try m h Empty = QClosed m"
| "after_try m h (Popped v) = QRetire m h v"

text \<open>\<open>protect\<close>, whose weak CAS fails spuriously on the slots \<open>fails\<close>. Its exception leaves the method: the node of an
  \<open>emplace\<close> and the first slot of a \<open>tryPop\<close> are not given back.\<close>

fun protect_then :: "tid \<Rightarrow> nat list \<Rightarrow> addr \<Rightarrow> (nat \<Rightarrow> 'a msq_pc) \<Rightarrow> 'a msq \<Rightarrow> 'a msq" where
  "protect_then t fails p k s =
     (case hp_protect_weak fails t p s of (Inr i, s') \<Rightarrow> mgoto t (k i) s' | (Inl e, s') \<Rightarrow> mgoto t (MDone (MThrow e)) s')"

definition set_next :: "addr \<Rightarrow> addr option \<Rightarrow> 'a msq \<Rightarrow> 'a msq" where
  "set_next a n s = s\<lparr>heap := (heap s)(a := (heap s a)\<lparr>nnext := n\<rparr>)\<rparr>"

fun msq_emplace_step :: "tid \<Rightarrow> 'a msq_pc \<Rightarrow> 'a msq \<Rightarrow> 'a msq option" where
  "msq_emplace_step t (EClosed v) s = Some (mgoto t (if msq_closed s then MDone (MBool False) else EAlloc v) s)"
| "msq_emplace_step t (EAlloc v) s =
     (case hp_allocate s of
        (Some a, s') \<Rightarrow> Some (mgoto t (EInit a v) s')
      | (None, s') \<Rightarrow> Some (mgoto t (ELoad (brk s'))
          (s'\<lparr>heap := (heap s')(brk s' := \<lparr>nvalue = Some v, nnext = None\<rparr>), brk := Suc (brk s')\<rparr>)))"
| "msq_emplace_step t (EInit a v) s =
     Some (mgoto t (ELoad a) (s\<lparr>heap := (heap s)(a := \<lparr>nvalue = Some v, nnext = None\<rparr>)\<rparr>))"
| "msq_emplace_step t (ELoad a) s = Some (mgoto t (EProtect a (m_tail s)) s)"
| "msq_emplace_step t (EProtect a b) s = Some (protect_then t [] b (ECheck a b) s)"
| "msq_emplace_step t (ECheck a b i) s = Some (mgoto t (if m_tail s \<noteq> b then EUnprotect a i else ENext a b i) s)"
| "msq_emplace_step t (ENext a b i) s =
     (case nnext (heap s b) of
        Some n \<Rightarrow> Some (mgoto t (EHelp a b n i) s)
      | None \<Rightarrow> Some (mgoto t (ECas a b i) s))"
| "msq_emplace_step t (EHelp a b n i) s =
     Some (mgoto t (EUnprotect a i) (if m_tail s = b then s\<lparr>m_tail := n\<rparr> else s))"
| "msq_emplace_step t (ECas a b i) s =
     (if nnext (heap s b) = None then Some (mgoto t (ELinked a b i) (set_next b (Some a) s))
      else Some (mgoto t (EUnprotect a i) s))"
| "msq_emplace_step t (EUnprotect a i) s = Some (mgoto t (ELoad a) (hp_unprotect t i s))"
| "msq_emplace_step t (ELinked a b i) s = Some (mgoto t (ESwing a b) (hp_unprotect t i s))"
| "msq_emplace_step t (ESwing a b) s = Some (mgoto t ECount (if m_tail s = b then s\<lparr>m_tail := a\<rparr> else s))"
| "msq_emplace_step t ECount s = Some (mgoto t (MDone (MBool True)) (s\<lparr>m_size := m_size s + 1\<rparr>))"
| "msq_emplace_step t _ s = None"

fun tryPop_step :: "tid \<Rightarrow> 'a msq_pc \<Rightarrow> 'a msq \<Rightarrow> 'a msq option" where
  "tryPop_step t QDeadline s = Some (mgoto t (QLoad ForTimeoutPop) s)"
| "tryPop_step t (QLoad m) s = Some (mgoto t (QProtect m (m_head s)) s)"
| "tryPop_step t (QProtect m h) s = Some (protect_then t [] h (QCheck m h) s)"
| "tryPop_step t (QCheck m h i) s =
     Some (mgoto t (if m_head s \<noteq> h then QRelease m h i None Retry else QNext m h i) s)"
| "tryPop_step t (QNext m h i) s =
     (case nnext (heap s h) of
        None \<Rightarrow> Some (mgoto t (QRelease m h i None Empty) s)
      | Some n \<Rightarrow> Some (mgoto t (QProtectN m h i n) s))"
| "tryPop_step t (QProtectN m h i n) s = Some (protect_then t [] n (QCheckN m h i n) s)"
| "tryPop_step t (QCheckN m h i n j) s =
     Some (mgoto t (if m_head s \<noteq> h then QRelease m h i (Some j) Retry else QTail m h i n j) s)"
| "tryPop_step t (QTail m h i n j) s =
     Some (mgoto t (if h = m_tail s then QHelp m h i n j else QCas m h i n j) s)"
| "tryPop_step t (QHelp m h i n j) s =
     Some (mgoto t (QRelease m h i (Some j) Retry) (if m_tail s = h then s\<lparr>m_tail := n\<rparr> else s))"
| "tryPop_step t (QCas m h i n j) s =
     (if m_head s = h then Some (mgoto t (QTake m h i n j) (s\<lparr>m_head := n\<rparr>))
      else Some (mgoto t (QRelease m h i (Some j) Retry) s))"
| "tryPop_step t (QTake m h i n j) s =
     (case nvalue (heap s n) of
        Some v \<Rightarrow> Some (mgoto t (QCount m h i j v) s)
      | None \<Rightarrow> Some (mgoto t (MDone (MThrow ''bad optional access'')) s))"
| "tryPop_step t (QCount m h i j v) s =
     Some (mgoto t (QRelease m h i (Some j) (Popped v)) (s\<lparr>m_size := m_size s - 1\<rparr>))"
| "tryPop_step t (QRelease m h i None r) s = Some (mgoto t (after_try m h r) (hp_unprotect t i s))"
| "tryPop_step t (QRelease m h i (Some j) r) s = Some (mgoto t (QReleaseN m h j r) (hp_unprotect t i s))"
| "tryPop_step t (QReleaseN m h j r) s = Some (mgoto t (after_try m h r) (hp_unprotect t j s))"
| "tryPop_step t (QRetire m h v) s = Some (mgoto t (MDone (MOpt (Some v))) (hp_retire t h s))"
| "tryPop_step t (QClosed m) s = Some (mgoto t (if msq_closed s then MDone (MOpt None) else again m) s)"
| "tryPop_step t _ s = None"

fun msq_step :: "tid \<Rightarrow> 'a msq_pc \<Rightarrow> 'a msq \<Rightarrow> 'a msq option" where
  "msq_step t (MDone r) s = None"
| "msq_step t MClose s = Some (mgoto t (MDone MUnit) (s\<lparr>msq_closed := True\<rparr>))"
| "msq_step t MSizeLoad s = Some (mgoto t (MDone (MSize (m_size s))) s)"
| "msq_step t MDrain s = Some (mgoto t (MDone MUnit) (hp_drain t s))"
| "msq_step t p s = (case msq_emplace_step t p s of Some s' \<Rightarrow> Some s' | None \<Rightarrow> tryPop_step t p s)"

text \<open>A weak CAS that fails although the value is the expected one.\<close>

fun spurious_pc :: "'a msq_pc \<Rightarrow> 'a msq_pc option" where
  "spurious_pc (EHelp a b n i) = Some (EUnprotect a i)"
| "spurious_pc (ECas a b i) = Some (EUnprotect a i)"
| "spurious_pc (ESwing a b) = Some ECount"
| "spurious_pc (QHelp m h i n j) = Some (QRelease m h i (Some j) Retry)"
| "spurious_pc (QCas m h i n j) = Some (QRelease m h i (Some j) Retry)"
| "spurious_pc _ = None"

text \<open>A \<open>protect\<close> whose weak CAS fails spuriously on some of the slots.\<close>

fun weak_protect :: "tid \<Rightarrow> nat list \<Rightarrow> 'a msq_pc \<Rightarrow> 'a msq \<Rightarrow> 'a msq option" where
  "weak_protect t fails (EProtect a b) s = Some (protect_then t fails b (ECheck a b) s)"
| "weak_protect t fails (QProtect m h) s = Some (protect_then t fails h (QCheck m h) s)"
| "weak_protect t fails (QProtectN m h i n) s = Some (protect_then t fails n (QCheckN m h i n) s)"
| "weak_protect t fails _ s = None"

datatype 'a msq_act = MCall "'a msq_op" | MStep | MSpurious | MWeak "nat list" | MExpire

fun msq_exec :: "tid \<times> 'a msq_act \<Rightarrow> 'a msq \<Rightarrow> 'a msq option" where
  "msq_exec (t, a) s =
     (if t < length (mpcs s) then
        (case a of
           MCall oper \<Rightarrow> (case mpcs s ! t of MDone r \<Rightarrow> Some (mgoto t (msq_call oper) s) | _ \<Rightarrow> None)
         | MStep \<Rightarrow> msq_step t (mpcs s ! t) s
         | MSpurious \<Rightarrow> map_option (\<lambda>p. mgoto t p s) (spurious_pc (mpcs s ! t))
         | MWeak fails \<Rightarrow> weak_protect t fails (mpcs s ! t) s
         | MExpire \<Rightarrow> guarded (mpcs s ! t = QDeadline) (mgoto t (MDone (MOpt None)) s))
      else None)"

section \<open>Specification and invariant\<close>

text \<open>The nodes after \<open>a\<close>, and the content of the queue.\<close>

fun walk :: "(addr \<Rightarrow> 'a node) \<Rightarrow> nat \<Rightarrow> addr \<Rightarrow> addr list" where
  "walk hp 0 a = []"
| "walk hp (Suc k) a = (case nnext (hp a) of None \<Rightarrow> [] | Some b \<Rightarrow> b # walk hp k b)"

definition contents :: "'a msq \<Rightarrow> 'a list" where
  "contents s = map (\<lambda>a. the (nvalue (heap s a))) (walk (heap s) (brk s) (m_head s))"

definition msq_abs :: "'a msq \<Rightarrow> 'a list \<times> bool" where
  "msq_abs s = (contents s, msq_closed s)"

text \<open>
  The specification: a FIFO list with a closed flag. A push succeeds or, when the queue is closed,
  may fail; a pop takes the first element or, when the queue is closed, may report nothing.
\<close>

type_synonym 'a msq_event = "tid \<times> 'a msq_op \<times> 'a msq_res"

fun msq_spec :: "'a msq_event \<Rightarrow> 'a list \<times> bool \<Rightarrow> ('a list \<times> bool) option" where
  "msq_spec (t, OpPush v, MBool True) (q, c) = Some (q @ [v], c)"
| "msq_spec (t, OpPush v, MBool False) (q, c) = guarded c (q, c)"
| "msq_spec (t, OpPop, MOpt (Some v)) (q, c) = (case q of [] \<Rightarrow> None | w # ws \<Rightarrow> guarded (w = v) (ws, c))"
| "msq_spec (t, OpPop, MOpt None) (q, c) = guarded c (q, c)"
| "msq_spec (t, OpClose, MUnit) (q, c) = Some (q, True)"
| "msq_spec e qc = None"

text \<open>The destructor, called without concurrent users: it drains the reclaimer and deletes the nodes from
  the head on; the result is the list of deleted nodes.\<close>

definition msq_destroy :: "tid \<Rightarrow> 'a msq \<Rightarrow> addr list \<times> 'a msq" where
  "msq_destroy t s = (let s1 = hp_drain t s in (m_head s1 # walk (heap s1) (brk s1) (m_head s1), s1))"

text \<open>The step at which an operation takes effect. A timed pop that takes an element counts as a pop;
  one that gives up has no effect.\<close>

fun msq_lin_step :: "tid \<Rightarrow> 'a msq_pc \<Rightarrow> 'a msq \<Rightarrow> 'a msq_event option" where
  "msq_lin_step t (EClosed v) s = (if msq_closed s then Some (t, OpPush v, MBool False) else None)"
| "msq_lin_step t (ECas a b i) s =
     (if nnext (heap s b) = None then Some (t, OpPush (the (nvalue (heap s a))), MBool True) else None)"
| "msq_lin_step t (QCas m h i n j) s =
     (if m_head s = h then Some (t, OpPop, MOpt (nvalue (heap s n))) else None)"
| "msq_lin_step t (QClosed m) s = (if msq_closed s then Some (t, OpPop, MOpt None) else None)"
| "msq_lin_step t MClose s = Some (t, OpClose, MUnit)"
| "msq_lin_step t p s = None"

fun msq_lin :: "tid \<times> 'a msq_act \<Rightarrow> 'a msq \<Rightarrow> 'a msq_event option" where
  "msq_lin (t, a) s = (case a of MStep \<Rightarrow> msq_lin_step t (mpcs s ! t) s | _ \<Rightarrow> None)"

text \<open>The nodes ever linked, in order, with the positions of head and tail.\<close>

definition chain :: "'a msq \<Rightarrow> addr list \<Rightarrow> nat \<Rightarrow> nat \<Rightarrow> bool" where
  "chain s ns hi ti \<longleftrightarrow> distinct ns \<and> set ns \<subseteq> {..<brk s} \<and> hi \<le> ti \<and> ti < length ns \<and>
     m_head s = ns ! hi \<and> m_tail s = ns ! ti \<and>
     (\<forall>k < length ns. nnext (heap s (ns ! k)) = (if Suc k < length ns then Some (ns ! Suc k) else None)) \<and>
     (\<forall>k < length ns. 0 < k \<longrightarrow> nvalue (heap s (ns ! k)) \<noteq> None) \<and> pool s = [] \<and> orphaned s = []"

text \<open>The node an \<open>emplace\<close> has not linked yet.\<close>

fun owned :: "'a msq_pc \<Rightarrow> addr option" where
  "owned (ELoad a) = Some a"
| "owned (EProtect a b) = Some a"
| "owned (ECheck a b i) = Some a"
| "owned (ENext a b i) = Some a"
| "owned (EHelp a b n i) = Some a"
| "owned (ECas a b i) = Some a"
| "owned (EUnprotect a i) = Some a"
| "owned _ = None"

text \<open>What a thread knows of the pointers it has read: they were linked, and \<open>next\<close> pointers stay.\<close>

fun pc_ok :: "'a msq \<Rightarrow> addr list \<Rightarrow> nat \<Rightarrow> 'a msq_pc \<Rightarrow> bool" where
  "pc_ok s ns ti (EProtect a b) = (b \<in> set ns)"
| "pc_ok s ns ti (ECheck a b i) = (b \<in> set ns)"
| "pc_ok s ns ti (ENext a b i) = (b \<in> set ns)"
| "pc_ok s ns ti (ECas a b i) = (b \<in> set ns)"
| "pc_ok s ns ti (EHelp a b n i) = (b \<in> set ns \<and> nnext (heap s b) = Some n)"
| "pc_ok s ns ti (ELinked a b i) = (b \<in> set ns \<and> nnext (heap s b) = Some a)"
| "pc_ok s ns ti (ESwing a b) = (b \<in> set ns \<and> nnext (heap s b) = Some a)"
| "pc_ok s ns ti (QProtect m h) = (h \<in> set ns)"
| "pc_ok s ns ti (QCheck m h i) = (h \<in> set ns)"
| "pc_ok s ns ti (QNext m h i) = (h \<in> set ns)"
| "pc_ok s ns ti (QProtectN m h i n) = (h \<in> set ns \<and> nnext (heap s h) = Some n)"
| "pc_ok s ns ti (QCheckN m h i n j) = (h \<in> set ns \<and> nnext (heap s h) = Some n)"
| "pc_ok s ns ti (QTail m h i n j) = (h \<in> set (take (Suc ti) ns) \<and> nnext (heap s h) = Some n)"
| "pc_ok s ns ti (QHelp m h i n j) = (h \<in> set ns \<and> nnext (heap s h) = Some n)"
| "pc_ok s ns ti (QCas m h i n j) = (h \<in> set (take ti ns) \<and> nnext (heap s h) = Some n)"
| "pc_ok s ns ti (QTake m h i n j) = (h \<in> set ns \<and> nnext (heap s h) = Some n)"
| "pc_ok s ns ti (EInit a v) = False"
| "pc_ok s ns ti (MDone (MThrow e)) = (e = ''Stored pointers overflow'')"
| "pc_ok s ns ti _ = True"

definition owned_ok :: "'a msq \<Rightarrow> addr list \<Rightarrow> 'a msq_pc \<Rightarrow> bool" where
  "owned_ok s ns p \<longleftrightarrow> (\<forall>a. owned p = Some a \<longrightarrow>
     a < brk s \<and> a \<notin> set ns \<and> nnext (heap s a) = None \<and> nvalue (heap s a) \<noteq> None)"

text \<open>The slots a call has taken and will give back.\<close>

fun held :: "'a msq_pc \<Rightarrow> nat list" where
  "held (ECheck a b i) = [i]"
| "held (ENext a b i) = [i]"
| "held (EHelp a b n i) = [i]"
| "held (ECas a b i) = [i]"
| "held (EUnprotect a i) = [i]"
| "held (ELinked a b i) = [i]"
| "held (QCheck m h i) = [i]"
| "held (QNext m h i) = [i]"
| "held (QProtectN m h i n) = [i]"
| "held (QCheckN m h i n j) = [i, j]"
| "held (QTail m h i n j) = [i, j]"
| "held (QHelp m h i n j) = [i, j]"
| "held (QCas m h i n j) = [i, j]"
| "held (QTake m h i n j) = [i, j]"
| "held (QCount m h i j v) = [i, j]"
| "held (QRelease m h i None r) = [i]"
| "held (QRelease m h i (Some j) r) = [i, j]"
| "held (QReleaseN m h j r) = [j]"
| "held _ = []"

definition slot_ok :: "addr option list \<Rightarrow> 'a msq_pc \<Rightarrow> bool" where
  "slot_ok sl p \<longleftrightarrow> length sl = slotsCount \<and> distinct (held p) \<and>
     (\<forall>i \<in> set (held p). i < slotsCount \<and> sl ! i \<noteq> None)"

definition threads_ok :: "'a msq \<Rightarrow> addr list \<Rightarrow> nat \<Rightarrow> bool" where
  "threads_ok s ns ti \<longleftrightarrow> length (slots s) = length (mpcs s) \<and> length (retired s) = length (mpcs s) \<and>
     (\<forall>t < length (mpcs s). pc_ok s ns ti (mpcs s ! t) \<and> owned_ok s ns (mpcs s ! t) \<and> slot_ok (slots s ! t) (mpcs s ! t)) \<and>
     (\<forall>t < length (mpcs s). \<forall>u < length (mpcs s). t \<noteq> u \<longrightarrow> owned (mpcs s ! t) \<noteq> None \<longrightarrow>
        owned (mpcs s ! t) \<noteq> owned (mpcs s ! u))"

definition msq_inv :: "'a msq \<Rightarrow> bool" where
  "msq_inv s \<longleftrightarrow> (\<exists>ns hi ti. chain s ns hi ti \<and> threads_ok s ns ti)"

text \<open>A step that recycles nodes: the retirement that exceeds the threshold, or a drain.\<close>

fun recycles :: "tid \<times> 'a msq_act \<Rightarrow> 'a msq \<Rightarrow> bool" where
  "recycles (t, a) s = (a = MStep \<and>
     (case mpcs s ! t of QRetire m h v \<Rightarrow> retireThreshold \<le> length (retired s ! t) | MDrain \<Rightarrow> True | _ \<Rightarrow> False))"

definition msq_exec_fresh :: "tid \<times> 'a msq_act \<Rightarrow> 'a msq \<Rightarrow> 'a msq option" where
  "msq_exec_fresh a s = (if recycles a s then None else msq_exec a s)"

definition msq_init :: "'a msq \<Rightarrow> bool" where
  "msq_init s \<longleftrightarrow> (\<exists>n. s = msq_new n)"

text \<open>A step that keeps the invariant and is invisible, and one that performs an event.\<close>

definition invisible_step :: "'a msq \<Rightarrow> 'a msq \<Rightarrow> bool" where
  "invisible_step s s' \<longleftrightarrow> msq_inv s' \<and> msq_abs s' = msq_abs s"

definition visible_step :: "'a msq_event \<Rightarrow> 'a msq \<Rightarrow> 'a msq \<Rightarrow> bool" where
  "visible_step e s s' \<longleftrightarrow> msq_inv s' \<and> msq_spec e (msq_abs s) = Some (msq_abs s')"

definition step_ok :: "tid \<Rightarrow> 'a msq_pc \<Rightarrow> 'a msq \<Rightarrow> 'a msq \<Rightarrow> bool" where
  "step_ok t p s s' \<longleftrightarrow>
     (case msq_lin_step t p s of None \<Rightarrow> invisible_step s s' | Some e \<Rightarrow> visible_step e s s')"

text \<open>Counting retirements: below the threshold nothing is recycled.\<close>

fun msq_retires :: "tid \<times> 'a msq_act \<Rightarrow> 'a msq \<Rightarrow> unit option" where
  "msq_retires (t, a) s = (if a = MStep then
     (case mpcs s ! t of QRetire m h v \<Rightarrow> Some () | _ \<Rightarrow> None) else None)"

text \<open>Actions that do not drain.\<close>

fun no_drain :: "tid \<times> 'a msq_act \<Rightarrow> bool" where
  "no_drain (t, MCall OpDrainOther) = False"
| "no_drain _ = True"

text \<open>Values that the successful pushes and pops of a history carry.\<close>

fun msq_pushed :: "'a msq_event \<Rightarrow> 'a list" where
  "msq_pushed (t, OpPush v, MBool True) = [v]"
| "msq_pushed _ = []"

fun msq_popped :: "'a msq_event \<Rightarrow> 'a list" where
  "msq_popped (t, oper, MOpt (Some v)) = [v]"
| "msq_popped _ = []"

text \<open>The result fixed for a thread's operation, once it has taken effect.\<close>

fun msq_committed :: "'a msq \<Rightarrow> 'a msq_pc \<Rightarrow> 'a msq_res option" where
  "msq_committed s (MDone r) = Some r"
| "msq_committed s (ELinked a b i) = Some (MBool True)"
| "msq_committed s (ESwing a b) = Some (MBool True)"
| "msq_committed s ECount = Some (MBool True)"
| "msq_committed s (QTake m h i n j) = Some (MOpt (nvalue (heap s n)))"
| "msq_committed s (QCount m h i j v) = Some (MOpt (Some v))"
| "msq_committed s (QRelease m h i j (Popped v)) = Some (MOpt (Some v))"
| "msq_committed s (QReleaseN m h j (Popped v)) = Some (MOpt (Some v))"
| "msq_committed s (QRetire m h v) = Some (MOpt (Some v))"
| "msq_committed s _ = None"

text \<open>Concrete schedules.\<close>

definition msq_handover_schedule :: "(tid \<times> nat msq_act) list" where
  "msq_handover_schedule = [(0, MCall (OpPush 7)), (0, MStep), (0, MStep), (0, MStep), (0, MStep), (0, MStep), (0, MStep),
     (0, MSpurious)] @ replicate 7 (0, MStep) @ [(1, MCall OpPop)] @ replicate 8 (1, MStep) @ replicate 2 (0, MStep) @
     replicate 15 (1, MStep)"

text \<open>A pop whose second \<open>protect\<close> fails spuriously on the free slots: it throws, and the slot of its first one stays
  taken.\<close>

definition weak_schedule :: "(tid \<times> nat msq_act) list" where
  "weak_schedule = (0, MCall (OpPush 7)) # replicate 10 (0, MStep) @ (1, MCall OpPop) # replicate 4 (1, MStep) @ [(1, MWeak [1, 2, 3])]"

definition aba_schedule :: "(tid \<times> nat msq_act) list" where
  "aba_schedule =
     (let pop1 = (1, MCall OpPop) # replicate 13 (1, MStep); drain1 = [(1, MCall OpDrainOther), (1, MStep)] in
      (0, MCall (OpPush 1)) # replicate 8 (0, MStep) @
      (1, MCall (OpPush 2)) # replicate 16 (1, MStep) @ pop1 @ drain1 @
      (1, MCall (OpPush 3)) # replicate 11 (1, MStep) @ pop1 @ pop1 @ drain1 @
      [(0, MStep)] @ (1, MCall (OpPush 4)) # replicate 17 (1, MStep) @ [(0, MStep)])"

definition not_drained_schedule :: "(tid \<times> nat msq_act) list" where
  "not_drained_schedule = (1, MCall OpPop) # replicate 5 (1, MStep) @ (0, MCall (OpPush 7)) # replicate 10 (0, MStep) @
     [(0, MCall OpClose), (0, MStep), (1, MStep)]"

definition size_wrap_schedule :: "(tid \<times> nat msq_act) list" where
  "size_wrap_schedule = (0, MCall (OpPush 7)) # replicate 9 (0, MStep) @ (1, MCall OpPop) # replicate 10 (1, MStep) @
     [(2, MCall OpSize), (2, MStep)]"

section \<open>Lemmas\<close>

lemma mgoto_simps [simp]:
  "records (mgoto t p s) = records s" "slots (mgoto t p s) = slots s" "retired (mgoto t p s) = retired s"
  "orphaned (mgoto t p s) = orphaned s" "pool (mgoto t p s) = pool s" "m_head (mgoto t p s) = m_head s"
  "m_tail (mgoto t p s) = m_tail s" "m_size (mgoto t p s) = m_size s" "msq_closed (mgoto t p s) = msq_closed s"
  "heap (mgoto t p s) = heap s" "brk (mgoto t p s) = brk s" "mpcs (mgoto t p s) = (mpcs s)[t := p]"
  by (simp_all add: mgoto_def)

lemma unprotect_simps [simp]:
  "orphaned (hp_unprotect t i s) = orphaned s" "pool (hp_unprotect t i s) = pool s"
  "retired (hp_unprotect t i s) = retired s"
  "slots (hp_unprotect t i s) = (slots s)[t := (slots s ! t)[i := None]]"
  by (simp_all add: hp_unprotect_def)

lemma unprotect_msq [simp]:
  "m_head (hp_unprotect t i s) = m_head s" "m_tail (hp_unprotect t i s) = m_tail s"
  "m_size (hp_unprotect t i s) = m_size s" "msq_closed (hp_unprotect t i s) = msq_closed s"
  "heap (hp_unprotect t i s) = heap s" "brk (hp_unprotect t i s) = brk s" "mpcs (hp_unprotect t i s) = mpcs s"
  by (simp_all add: hp_unprotect_def set_slot_def)

lemma retire_fresh:
  assumes "length (retired s ! t) < retireThreshold" "t < length (retired s)"
  shows "hp_retire t p s = s\<lparr>retired := (retired s)[t := retired s ! t @ [p]]\<rparr>"
  using assms by (simp add: hp_retire_def Let_def)

lemma chain_length: "chain s ns hi ti \<Longrightarrow> length ns \<le> brk s"
  by (metis card_lessThan card_mono chain_def distinct_card finite_lessThan)

lemma walk_chain:
  assumes "chain s ns hi ti" "k < length ns" "length ns - Suc k \<le> f"
  shows "walk (heap s) f (ns ! k) = drop (Suc k) ns"
  using assms(2,3)
proof (induction f arbitrary: k)
  case (Suc f)
  have nx: "nnext (heap s (ns ! k)) = (if Suc k < length ns then Some (ns ! Suc k) else None)"
    using assms(1) Suc.prems(1) by (simp add: chain_def)
  show ?case
  proof (cases "Suc k < length ns")
    case True
    with Suc.IH [OF True] Suc.prems(2) nx show ?thesis by (simp add: Cons_nth_drop_Suc)
  qed (use nx in simp)
qed simp

lemma contents_chain:
  assumes "chain s ns hi ti"
  shows "contents s = map (\<lambda>a. the (nvalue (heap s a))) (drop (Suc hi) ns)"
proof -
  have "hi < length ns" "m_head s = ns ! hi" using assms by (auto simp: chain_def)
  with walk_chain [OF assms, of hi "brk s"] chain_length [OF assms] show ?thesis by (simp add: contents_def)
qed

lemma chain_next_last:
  assumes "chain s ns hi ti" "b \<in> set ns" "nnext (heap s b) = None"
  shows "b = last ns"
proof -
  obtain k where k: "k < length ns" "b = ns ! k" using assms(2) by (auto simp: in_set_conv_nth)
  with assms have "\<not> Suc k < length ns" by (auto simp: chain_def)
  with k show ?thesis by (metis last_conv_nth Suc_lessI diff_Suc_1 length_greater_0_conv gr_implies_not0 list.size(3))
qed

lemma chain_next_index:
  assumes "chain s ns hi ti" "k < length ns" "nnext (heap s (ns ! k)) = Some n"
  shows "Suc k < length ns \<and> n = ns ! Suc k"
  using assms by (auto simp: chain_def split: if_splits)

lemma chain_next_node:
  assumes "chain s ns hi ti" "h \<in> set ns" "nnext (heap s h) = Some n"
  shows "n \<in> set ns" "nvalue (heap s n) \<noteq> None"
proof -
  obtain k where k: "k < length ns" "h = ns ! k" using assms(2) by (metis in_set_conv_nth)
  then have n: "Suc k < length ns" "n = ns ! Suc k" using chain_next_index [OF assms(1)] assms(3) by auto
  then show "n \<in> set ns" by simp
  show "nvalue (heap s n) \<noteq> None" using assms(1) n unfolding chain_def by blast
qed

lemma chain_head_take:
  assumes "chain s ns hi ti"
  shows "m_head s \<in> set (take (Suc ti) ns)"
proof -
  have "hi < length (take (Suc ti) ns)" "take (Suc ti) ns ! hi = m_head s" using assms by (auto simp: chain_def)
  then show ?thesis by (metis nth_mem)
qed

lemma chain_same:
  assumes "chain s ns hi ti" "heap s' = heap s" "m_head s' = m_head s" "m_tail s' = m_tail s" "brk s' = brk s"
    "pool s' = pool s" "orphaned s' = orphaned s"
  shows "chain s' ns hi ti"
  using assms by (simp add: chain_def)

text \<open>Threads other than the one that moves: their knowledge is stable.\<close>

lemma pc_ok_mono:
  assumes "pc_ok s ns ti p" "set ns \<subseteq> set ns'" "set (take ti ns) \<subseteq> set (take ti' ns')"
    "set (take (Suc ti) ns) \<subseteq> set (take (Suc ti') ns')"
    "\<And>b n. b \<in> set ns \<Longrightarrow> nnext (heap s b) = Some n \<Longrightarrow> nnext (heap s' b) = Some n"
  shows "pc_ok s' ns' ti' p"
  using assms by (cases "(s, ns, ti, p)" rule: pc_ok.cases) (auto dest: in_set_takeD)

lemma threads_ok_step:
  assumes ok: "threads_ok s ns ti" and t: "t < length (mpcs s)"
    and mono: "set ns \<subseteq> set ns'" "set (take ti ns) \<subseteq> set (take ti' ns')" "set (take (Suc ti) ns) \<subseteq> set (take (Suc ti') ns')"
    and nx: "\<And>b n. b \<in> set ns \<Longrightarrow> nnext (heap s b) = Some n \<Longrightarrow> nnext (heap s' b) = Some n"
    and others: "\<And>a. a < brk s \<Longrightarrow> a \<notin> set ns \<Longrightarrow> Some a \<noteq> owned (mpcs s ! t) \<Longrightarrow> heap s' a = heap s a \<and> a \<notin> set ns'"
    and brk: "brk s \<le> brk s'"
    and upd: "mpcs s' = (mpcs s)[t := p]" "length (retired s') = length (retired s)" "slots s' = (slots s)[t := sl]"
    and own: "pc_ok s' ns' ti' p" "owned_ok s' ns' p" "slot_ok sl p"
    and fresh: "owned p = None \<or> owned p = owned (mpcs s ! t) \<or> owned p = Some (brk s)"
  shows "threads_ok s' ns' ti'"
proof -
  have T: "pc_ok s ns ti (mpcs s ! u)" "owned_ok s ns (mpcs s ! u)" "slot_ok (slots s ! u) (mpcs s ! u)"
    if "u < length (mpcs s)" for u using ok that by (auto simp: threads_ok_def)
  have D: "owned (mpcs s ! u) \<noteq> owned (mpcs s ! v)" if "u < length (mpcs s)" "v < length (mpcs s)" "u \<noteq> v" "owned (mpcs s ! u) \<noteq> None" for u v
    using ok that by (auto simp: threads_ok_def)
  have len: "length (slots s) = length (mpcs s)" "length (retired s) = length (mpcs s)" using ok by (auto simp: threads_ok_def)
  have each: "pc_ok s' ns' ti' (mpcs s' ! u) \<and> owned_ok s' ns' (mpcs s' ! u) \<and> slot_ok (slots s' ! u) (mpcs s' ! u)"
    if u: "u < length (mpcs s)" for u
  proof (cases "u = t")
    case True
    with own t len show ?thesis by (simp add: upd)
  next
    case False
    have "owned_ok s' ns' (mpcs s ! u)"
      unfolding owned_ok_def
    proof (intro allI impI)
      fix a assume a: "owned (mpcs s ! u) = Some a"
      with T(2) [OF u] have old: "a < brk s" "a \<notin> set ns" "nnext (heap s a) = None" "nvalue (heap s a) \<noteq> None"
        by (auto simp: owned_ok_def)
      have "Some a \<noteq> owned (mpcs s ! t)" using D [OF u t False] a by auto
      from others [OF old(1,2) this] old brk
      show "a < brk s' \<and> a \<notin> set ns' \<and> nnext (heap s' a) = None \<and> nvalue (heap s' a) \<noteq> None" by auto
    qed
    moreover have "pc_ok s' ns' ti' (mpcs s ! u)" using T(1) [OF u] mono nx by (rule pc_ok_mono)
    ultimately show ?thesis using T(3) [OF u] False by (simp add: upd)
  qed
  have brk_free: "owned (mpcs s ! u) \<noteq> Some (brk s)" if "u < length (mpcs s)" for u
    using T(2) [OF that] by (auto simp: owned_ok_def)
  have "owned (mpcs s' ! u) \<noteq> owned (mpcs s' ! v)"
    if "u < length (mpcs s)" "v < length (mpcs s)" "u \<noteq> v" "owned (mpcs s' ! u) \<noteq> None" for u v
    using D [OF that(1,2,3)] D [OF that(2,1)] fresh brk_free that t unfolding upd
    by (cases "u = t"; cases "v = t") auto
  with each len show ?thesis by (auto simp: threads_ok_def upd)
qed

text \<open>Steps that leave the nodes and the two ends alone.\<close>

lemma msq_quiet:
  assumes c: "chain s ns hi ti" and ok: "threads_ok s ns ti" and t: "t < length (mpcs s)"
    and same: "heap s' = heap s" "m_head s' = m_head s" "m_tail s' = m_tail s" "brk s' = brk s"
      "pool s' = pool s" "orphaned s' = orphaned s"
    and upd: "mpcs s' = (mpcs s)[t := p]" "length (retired s') = length (retired s)" "slots s' = (slots s)[t := sl]"
    and own: "pc_ok s ns ti p" "slot_ok sl p" "owned p = None \<or> owned p = owned (mpcs s ! t)"
  shows "chain s' ns hi ti \<and> threads_ok s' ns ti"
proof
  show "chain s' ns hi ti" using c same by (rule chain_same)
  have "owned_ok s ns (mpcs s ! t)" using ok t by (simp add: threads_ok_def)
  then have "owned_ok s' ns p" using own(3) by (auto simp: owned_ok_def same)
  moreover have "pc_ok s' ns ti p" by (rule pc_ok_mono [OF own(1)]) (auto simp: same)
  ultimately show "threads_ok s' ns ti"
    using own(2,3) by (intro threads_ok_step [OF ok t _ _ _ _ _ _ upd]) (auto simp: same)
qed

lemma slot_ok_same: "slot_ok sl p \<Longrightarrow> held p' = held p \<Longrightarrow> slot_ok sl p'"
  by (simp add: slot_ok_def)

lemma slot_ok_release:
  assumes "slot_ok sl p" "held p = i # held p'"
  shows "slot_ok (sl[i := None]) p'"
  using assms by (auto simp: slot_ok_def nth_list_update)

lemma slot_ok_take:
  assumes "slot_ok sl p" "i < slotsCount" "sl ! i = None" "held p' = held p @ [i]"
  shows "slot_ok (sl[i := Some b]) p'"
  using assms by (auto simp: slot_ok_def nth_list_update)

text \<open>\<open>protect\<close> takes a free slot or throws.\<close>

lemma protect_cases:
  assumes "length (slots s ! t) = slotsCount"
  obtains (taken) i s1 where "hp_protect_weak fs t b s = (Inr i, s1)" "i < slotsCount" "slots s ! t ! i = None"
      "slots s1 = (slots s)[t := (slots s ! t)[i := Some b]]" "s1 = s\<lparr>records := records s1, slots := slots s1\<rparr>"
      "pool s1 = pool s" "orphaned s1 = orphaned s" "retired s1 = retired s"
  | (full) s1 where "hp_protect_weak fs t b s = (Inl ''Stored pointers overflow'', s1)" "slots s1 = slots s"
      "s1 = s\<lparr>records := records s1\<rparr>" "pool s1 = pool s" "orphaned s1 = orphaned s" "retired s1 = retired s"
      "weak_free fs 0 (slots s ! t) = None"
proof -
  let ?s = "hp_initRecord t s"
  have r: "slots ?s = slots s" "?s = s\<lparr>records := records ?s\<rparr>" "pool ?s = pool s" "orphaned ?s = orphaned s" "retired ?s = retired s"
    by (simp_all add: hp_initRecord_def)
  show thesis
  proof (cases "weak_free fs 0 (slots s ! t)")
    case None
    with r have "hp_protect_weak fs t b s = (Inl ''Stored pointers overflow'', ?s)" by (simp add: hp_protect_weak_def)
    from full [OF this r None] show thesis .
  next
    case (Some i)
    let ?u = "set_slot t i (Some b) ?s"
    have i: "i < slotsCount" "slots s ! t ! i = None" using weak_free_Some [OF Some] assms by auto
    have p: "hp_protect_weak fs t b s = (Inr i, ?u)" using Some r(1) by (simp add: hp_protect_weak_def)
    have u: "?u = s\<lparr>records := records ?u, slots := slots ?u\<rparr>" by (simp add: set_slot_def hp_initRecord_def)
    show thesis by (rule taken [OF p i _ u]) (simp_all add: set_slot_def r(1,3-5))
  qed
qed

lemma msq_protect:
  assumes c: "chain s ns hi ti" and ok: "threads_ok s ns ti" and t: "t < length (mpcs s)"
    and h: "\<And>i. held (k i) = held (mpcs s ! t) @ [i]"
    and k: "\<And>i. pc_ok s ns ti (k i)" "\<And>i. owned (k i) = owned (mpcs s ! t)"
  shows "chain (protect_then t fs b k s) ns hi ti \<and> threads_ok (protect_then t fs b k s) ns ti \<and>
    contents (protect_then t fs b k s) = contents s \<and> msq_closed (protect_then t fs b k s) = msq_closed s"
proof -
  have sl: "slot_ok (slots s ! t) (mpcs s ! t)" using ok t by (auto simp: threads_ok_def)
  then have len: "length (slots s ! t) = slotsCount" by (simp add: slot_ok_def)
  from len show ?thesis
  proof (cases rule: protect_cases [where fs = fs and b = b])
    case (taken i s1)
    have f: "heap s1 = heap s" "m_head s1 = m_head s" "m_tail s1 = m_tail s" "brk s1 = brk s" "mpcs s1 = mpcs s"
        "msq_closed s1 = msq_closed s"
      by (subst taken(5), simp)+
    have "slot_ok ((slots s ! t)[i := Some b]) (k i)" using slot_ok_take [OF sl taken(2,3) h] .
    with taken f k have "chain (mgoto t (k i) s1) ns hi ti \<and> threads_ok (mgoto t (k i) s1) ns ti"
      by (intro msq_quiet [OF c ok t, where p = "k i" and sl = "(slots s ! t)[i := Some b]"]) auto
    with taken(1) f show ?thesis by (simp add: contents_def)
  next
    case (full s1)
    let ?p = "MDone (MThrow ''Stored pointers overflow'')"
    have f: "heap s1 = heap s" "m_head s1 = m_head s" "m_tail s1 = m_tail s" "brk s1 = brk s" "mpcs s1 = mpcs s"
        "msq_closed s1 = msq_closed s"
      by (subst full(3), simp)+
    have "slot_ok (slots s ! t) ?p" using len by (simp add: slot_ok_def)
    with full f have "chain (mgoto t ?p s1) ns hi ti \<and> threads_ok (mgoto t ?p s1) ns ti"
      by (intro msq_quiet [OF c ok t, where p = ?p and sl = "slots s ! t"]) auto
    with full(1) f show ?thesis by (simp add: contents_def)
  qed
qed

lemma quiet_step:
  assumes c: "chain s ns hi ti" and ok: "threads_ok s ns ti" and t: "t < length (mpcs s)"
    and same: "heap s' = heap s" "m_head s' = m_head s" "m_tail s' = m_tail s" "brk s' = brk s"
      "pool s' = pool s" "orphaned s' = orphaned s"
    and upd: "mpcs s' = (mpcs s)[t := p]" "length (retired s') = length (retired s)" "slots s' = (slots s)[t := sl]"
    and own: "pc_ok s ns ti p" "slot_ok sl p" "owned p = None \<or> owned p = owned (mpcs s ! t)"
  shows "msq_inv s' \<and> contents s' = contents s"
  using msq_quiet [OF c ok t same upd own] by (auto simp: msq_inv_def contents_def same)

lemma plain_step:
  assumes c: "chain s ns hi ti" and ok: "threads_ok s ns ti" and t: "t < length (mpcs s)"
    and own: "pc_ok s ns ti p" "held p = held (mpcs s ! t)" "owned p = None \<or> owned p = owned (mpcs s ! t)"
  shows "invisible_step s (mgoto t p s)"
proof -
  have "slot_ok (slots s ! t) p" using ok t own(2) by (auto simp: threads_ok_def intro: slot_ok_same)
  with own show ?thesis
    using quiet_step [OF c ok t, of "mgoto t p s" p "slots s ! t"] by (auto simp: invisible_step_def msq_abs_def)
qed

lemma release_step:
  assumes c: "chain s ns hi ti" and ok: "threads_ok s ns ti" and t: "t < length (mpcs s)"
    and own: "pc_ok s ns ti p" "held (mpcs s ! t) = i # held p" "owned p = None \<or> owned p = owned (mpcs s ! t)"
  shows "invisible_step s (mgoto t p (hp_unprotect t i s))"
proof -
  have "slot_ok ((slots s ! t)[i := None]) p" using ok t own(2) by (auto simp: threads_ok_def intro: slot_ok_release)
  with own show ?thesis
    using quiet_step [OF c ok t, of "mgoto t p (hp_unprotect t i s)" p "(slots s ! t)[i := None]"]
    by (auto simp: invisible_step_def msq_abs_def)
qed

lemma protect_step:
  assumes "chain s ns hi ti" "threads_ok s ns ti" "t < length (mpcs s)"
    "\<And>i. held (k i) = held (mpcs s ! t) @ [i]" "\<And>i. pc_ok s ns ti (k i)" "\<And>i. owned (k i) = owned (mpcs s ! t)"
  shows "invisible_step s (protect_then t fs b k s)"
  using msq_protect [OF assms, of fs b] unfolding invisible_step_def msq_inv_def msq_abs_def by auto

lemma tail_step:
  assumes c: "chain s ns hi ti" and ok: "threads_ok s ns ti" and t: "t < length (mpcs s)"
    and b: "b \<in> set ns" "nnext (heap s b) = Some n"
    and own: "\<And>s ti. pc_ok s ns ti p" "held p = held (mpcs s ! t)" "owned p = None \<or> owned p = owned (mpcs s ! t)"
  shows "invisible_step s (mgoto t p (if m_tail s = b then s\<lparr>m_tail := n\<rparr> else s))"
proof (cases "m_tail s = b")
  case False
  with plain_step [OF c ok t own] show ?thesis by simp
next
  case True
  let ?s = "mgoto t p (s\<lparr>m_tail := n\<rparr>)"
  have ti: "ti < length ns" "b = ns ! ti" using c True by (auto simp: chain_def)
  with chain_next_index [OF c, of ti n] b(2) have n: "Suc ti < length ns" "n = ns ! Suc ti" by auto
  have c': "chain ?s ns hi (Suc ti)" using c n by (simp add: chain_def)
  have own': "owned_ok s ns (mpcs s ! t)" "slot_ok (slots s ! t) (mpcs s ! t)" using ok t by (auto simp: threads_ok_def)
  have sub: "set (take ti ns) \<subseteq> set (take (Suc ti) ns)" "set (take (Suc ti) ns) \<subseteq> set (take (Suc (Suc ti)) ns)"
    by (simp_all add: set_take_subset_set_take)
  have "threads_ok ?s ns (Suc ti)"
    using own own' slot_ok_same [OF own'(2) own(2)]
    by (intro threads_ok_step [OF ok t _ sub, where p = p and sl = "slots s ! t"]) (auto simp: owned_ok_def)
  moreover have "contents ?s = contents s" by (simp add: contents_def)
  ultimately show ?thesis using c' True by (auto simp: invisible_step_def msq_inv_def msq_abs_def)
qed

lemma head_step:
  assumes c: "chain s ns hi ti" and ok: "threads_ok s ns ti" and t: "t < length (mpcs s)"
    and h: "h \<in> set (take ti ns)" "nnext (heap s h) = Some n" "m_head s = h"
    and own: "\<And>s. pc_ok s ns ti p \<longleftrightarrow> h \<in> set ns \<and> nnext (heap s h) = Some n" "held p = held (mpcs s ! t)" "owned p = None"
  shows "visible_step (t, OpPop, MOpt (nvalue (heap s n))) s (mgoto t p (s\<lparr>m_head := n\<rparr>))"
proof -
  let ?s = "mgoto t p (s\<lparr>m_head := n\<rparr>)"
  have hi: "hi < length ns" "h = ns ! hi" "hi \<le> ti" using c h(3) by (auto simp: chain_def)
  obtain k where k: "k < ti" "h = ns ! k" "k < length ns" using h(1) by (auto simp: in_set_conv_nth)
  with hi c have "k = hi" by (auto simp: chain_def nth_eq_iff_index_eq)
  then have lt: "hi < ti" using k by simp
  have n: "Suc hi < length ns" "n = ns ! Suc hi" using chain_next_index [OF c, of hi n] hi h(2) by auto
  have c': "chain ?s ns (Suc hi) ti" using c n lt by (simp add: chain_def)
  have own': "slot_ok (slots s ! t) (mpcs s ! t)" using ok t by (auto simp: threads_ok_def)
  have "h \<in> set ns" using h(1) by (rule in_set_takeD)
  then have "threads_ok ?s ns ti"
    using own h(2) slot_ok_same [OF own' own(2)]
    by (intro threads_ok_step [OF ok t, where p = p and sl = "slots s ! t"]) (auto simp: owned_ok_def)
  moreover obtain v where v: "nvalue (heap s n) = Some v" using c n by (auto simp: chain_def)
  moreover have "contents s = v # contents ?s"
    using contents_chain [OF c] contents_chain [OF c'] n v by (simp add: Cons_nth_drop_Suc [symmetric])
  ultimately show ?thesis using c' by (auto simp: visible_step_def msq_inv_def msq_abs_def)
qed

lemma link_step:
  assumes c: "chain s ns hi ti" and ok: "threads_ok s ns ti" and t: "t < length (mpcs s)"
    and b: "b \<in> set ns" "nnext (heap s b) = None" "owned (mpcs s ! t) = Some a"
    and own: "\<And>s ns. pc_ok s ns ti p \<longleftrightarrow> b \<in> set ns \<and> nnext (heap s b) = Some a" "held p = held (mpcs s ! t)" "owned p = None"
  shows "visible_step (t, OpPush (the (nvalue (heap s a))), MBool True) s (mgoto t p (set_next b (Some a) s))"
proof -
  let ?s = "mgoto t p (set_next b (Some a) s)" and ?ns = "ns @ [a]"
  have a: "a < brk s" "a \<notin> set ns" "nnext (heap s a) = None" "nvalue (heap s a) \<noteq> None"
    using ok t b(3) by (auto simp: threads_ok_def owned_ok_def)
  have bl: "b = last ns" using chain_next_last [OF c b(1,2)] .
  have ne: "ns \<noteq> []" using b(1) by auto
  have heap: "heap ?s = (heap s)(b := (heap s b)\<lparr>nnext := Some a\<rparr>)" by (simp add: set_next_def)
  have ab: "a \<noteq> b" using a b(1) by auto
  have d: "distinct ns" using c by (simp add: chain_def)
  have idx: "ns ! k = b \<longleftrightarrow> Suc k = length ns" if "k < length ns" for k
    using that d ne bl by (auto simp: last_conv_nth nth_eq_iff_index_eq)
  have nexts: "nnext (heap ?s (?ns ! k)) = (if Suc k < length ?ns then Some (?ns ! Suc k) else None)" if "k < length ?ns" for k
  proof (cases "k < length ns")
    case True
    then show ?thesis using c idx [OF True] unfolding heap by (auto simp: chain_def nth_append)
  next
    case False
    with that have "k = length ns" by simp
    with a ab show ?thesis unfolding heap by simp
  qed
  have vals: "nvalue (heap ?s x) = nvalue (heap s x)" for x unfolding heap by simp
  have c': "chain ?s ?ns hi ti"
    using c a nexts vals by (auto simp: chain_def set_next_def nth_append less_Suc_eq)
  have own': "slot_ok (slots s ! t) (mpcs s ! t)" using ok t by (auto simp: threads_ok_def)
  have "threads_ok ?s ?ns ti"
    using own b slot_ok_same [OF own' own(2)] c
    by (intro threads_ok_step [OF ok t, where p = p and sl = "slots s ! t"])
      (auto simp: owned_ok_def set_next_def chain_def)
  moreover have "contents ?s = contents s @ [the (nvalue (heap s a))]"
    using contents_chain [OF c] contents_chain [OF c'] vals c by (auto simp: chain_def)
  ultimately show ?thesis using c' by (auto simp: visible_step_def msq_inv_def msq_abs_def set_next_def)
qed

lemma alloc_step:
  assumes c: "chain s ns hi ti" and ok: "threads_ok s ns ti" and t: "t < length (mpcs s)"
    and pc: "held (mpcs s ! t) = []"
  shows "invisible_step s (mgoto t (ELoad (brk s))
     (s\<lparr>heap := (heap s)(brk s := \<lparr>nvalue = Some v, nnext = None\<rparr>), brk := Suc (brk s)\<rparr>))"
proof -
  let ?s = "mgoto t (ELoad (brk s)) (s\<lparr>heap := (heap s)(brk s := \<lparr>nvalue = Some v, nnext = None\<rparr>), brk := Suc (brk s)\<rparr>)"
  have lt: "x \<in> set ns \<Longrightarrow> x < brk s" for x using c by (auto simp: chain_def)
  have ne: "k < length ns \<Longrightarrow> ns ! k \<noteq> brk s" for k using lt [of "ns ! k"] by auto
  have c': "chain ?s ns hi ti" using c ne by (auto simp: chain_def less_Suc_eq)
  have own': "slot_ok (slots s ! t) (mpcs s ! t)" using ok t by (auto simp: threads_ok_def)
  have "slot_ok (slots s ! t) (ELoad (brk s))" by (rule slot_ok_same [OF own']) (simp add: pc)
  then have "threads_ok ?s ns ti"
    using lt by (intro threads_ok_step [OF ok t, where p = "ELoad (brk s)" and sl = "slots s ! t"])
      (auto simp: owned_ok_def dest: lt)
  moreover have "contents ?s = contents s"
    using contents_chain [OF c] contents_chain [OF c'] lt by (auto dest: in_set_dropD)
  ultimately show ?thesis using c' by (auto simp: invisible_step_def msq_inv_def msq_abs_def)
qed

lemma again_simps [simp]: "pc_ok s ns ti (again m)" "held (again m) = []" "owned (again m) = None"
  by (cases m; simp)+

lemma after_try_simps [simp]: "pc_ok s ns ti (after_try m h r)" "held (after_try m h r) = []" "owned (after_try m h r) = None"
  by (cases r; simp)+

lemma held_release [simp]: "held (QRelease m h i j r) = i # (case j of None \<Rightarrow> [] | Some j \<Rightarrow> [j])"
  by (cases j) auto

lemma emplace_step_ok:
  assumes c: "chain s ns hi ti" and ok: "threads_ok s ns ti" and t: "t < length (mpcs s)"
    and st: "msq_emplace_step t (mpcs s ! t) s = Some s'"
  shows "step_ok t (mpcs s ! t) s s'"
proof -
  have pc: "pc_ok s ns ti (mpcs s ! t)" using ok t by (simp add: threads_ok_def)
  have tail: "m_tail s \<in> set ns" using c by (auto simp: chain_def)
  have pool: "pool s = []" using c by (simp add: chain_def)
  show ?thesis
  proof (cases "mpcs s ! t")
    case (EClosed v)
    with st plain_step [OF c ok t, of "MDone (MBool False)"] plain_step [OF c ok t, of "EAlloc v"] show ?thesis
      by (auto simp: step_ok_def invisible_step_def visible_step_def msq_abs_def)
  next
    case (EAlloc v)
    with st pool alloc_step [OF c ok t, of v] show ?thesis by (auto simp: step_ok_def hp_allocate_def)
  next
    case (EInit a v)
    with pc show ?thesis by simp
  next
    case (ELoad a)
    with st tail plain_step [OF c ok t, of "EProtect a (m_tail s)"] show ?thesis by (simp add: step_ok_def)
  next
    case (EProtect a b)
    with st pc protect_step [OF c ok t, of "ECheck a b" "[]" b] show ?thesis by (simp add: step_ok_def)
  next
    case (ECheck a b i)
    with st pc plain_step [OF c ok t, of "EUnprotect a i"] plain_step [OF c ok t, of "ENext a b i"] show ?thesis
      by (auto simp: step_ok_def)
  next
    case (ENext a b i)
    with st pc plain_step [OF c ok t, of "EHelp a b _ i"] plain_step [OF c ok t, of "ECas a b i"] show ?thesis
      by (auto simp: step_ok_def split: option.splits)
  next
    case (EHelp a b n i)
    with st pc tail_step [OF c ok t, of b n "EUnprotect a i"] show ?thesis by (auto simp: step_ok_def)
  next
    case (ECas a b i)
    with st pc link_step [OF c ok t, of b a "ELinked a b i"] plain_step [OF c ok t, of "EUnprotect a i"] show ?thesis
      by (auto simp: step_ok_def split: if_splits)
  next
    case (EUnprotect a i)
    with st release_step [OF c ok t, of "ELoad a" i] show ?thesis by (auto simp: step_ok_def)
  next
    case (ELinked a b i)
    with st pc release_step [OF c ok t, of "ESwing a b" i] show ?thesis by (auto simp: step_ok_def)
  next
    case (ESwing a b)
    with st pc tail_step [OF c ok t, of b a ECount] show ?thesis by (auto simp: step_ok_def)
  next
    case ECount
    have "slot_ok (slots s ! t) (mpcs s ! t)" using ok t by (simp add: threads_ok_def)
    then have "slot_ok (slots s ! t) (MDone (MBool True))" by (rule slot_ok_same) (simp add: ECount)
    then have "msq_inv s' \<and> contents s' = contents s"
      using st ECount by (intro quiet_step [OF c ok t, where p = "MDone (MBool True)" and sl = "slots s ! t"]) auto
    with st ECount show ?thesis by (auto simp: step_ok_def invisible_step_def msq_abs_def)
  qed (use st in simp_all)
qed

lemma tryPop_step_ok:
  assumes c: "chain s ns hi ti" and ok: "threads_ok s ns ti" and t: "t < length (mpcs s)"
    and st: "tryPop_step t (mpcs s ! t) s = Some s'" and nr: "\<not> recycles (t, MStep) s"
  shows "step_ok t (mpcs s ! t) s s'"
proof -
  have pc: "pc_ok s ns ti (mpcs s ! t)" using ok t by (simp add: threads_ok_def)
  have head: "m_head s \<in> set ns" using c by (auto simp: chain_def)
  note head_take = chain_head_take [OF c]
  have tail: "m_tail s = ns ! ti" "ti < length ns" using c by (auto simp: chain_def)
  have sl: "slot_ok (slots s ! t) (mpcs s ! t)" "t < length (retired s)" using ok t by (auto simp: threads_ok_def)
  show ?thesis
  proof (cases "mpcs s ! t")
    case QDeadline
    with st plain_step [OF c ok t, of "QLoad ForTimeoutPop"] show ?thesis by (simp add: step_ok_def)
  next
    case (QLoad m)
    with st head plain_step [OF c ok t, of "QProtect m (m_head s)"] show ?thesis by (simp add: step_ok_def)
  next
    case (QProtect m h)
    with st pc protect_step [OF c ok t, of "QCheck m h" "[]" h] show ?thesis by (simp add: step_ok_def)
  next
    case (QCheck m h i)
    with st pc plain_step [OF c ok t, of "QRelease m h i None Retry"] plain_step [OF c ok t, of "QNext m h i"]
    show ?thesis by (auto simp: step_ok_def)
  next
    case (QNext m h i)
    with st pc plain_step [OF c ok t, of "QRelease m h i None Empty"] plain_step [OF c ok t, of "QProtectN m h i _"]
    show ?thesis by (auto simp: step_ok_def split: option.splits)
  next
    case (QProtectN m h i n)
    with st pc protect_step [OF c ok t, of "QCheckN m h i n" "[]" n] show ?thesis by (simp add: step_ok_def)
  next
    case (QCheckN m h i n j)
    with st pc head_take plain_step [OF c ok t, of "QRelease m h i (Some j) Retry"] plain_step [OF c ok t, of "QTail m h i n j"]
    show ?thesis by (auto simp: step_ok_def)
  next
    case (QTail m h i n j)
    have "h \<in> set (take ti ns)" if "h \<noteq> m_tail s"
      using pc QTail that tail by (auto simp: take_Suc_conv_app_nth)
    with QTail st pc plain_step [OF c ok t, of "QHelp m h i n j"] plain_step [OF c ok t, of "QCas m h i n j"]
    show ?thesis by (auto simp: step_ok_def dest: in_set_takeD)
  next
    case (QHelp m h i n j)
    with st pc tail_step [OF c ok t, of h n "QRelease m h i (Some j) Retry"] show ?thesis by (auto simp: step_ok_def)
  next
    case (QCas m h i n j)
    with st pc head_step [OF c ok t, of h n "QTake m h i n j"] plain_step [OF c ok t, of "QRelease m h i (Some j) Retry"]
    show ?thesis by (auto simp: step_ok_def split: if_splits)
  next
    case (QTake m h i n j)
    then have "nvalue (heap s n) \<noteq> None" using pc chain_next_node(2) [OF c, of h n] by simp
    with QTake st plain_step [OF c ok t, of "QCount m h i j _"] show ?thesis
      by (auto simp: step_ok_def split: option.splits)
  next
    case (QCount m h i j v)
    have "slot_ok (slots s ! t) (QRelease m h i (Some j) (Popped v))"
      by (rule slot_ok_same [OF sl(1)]) (simp add: QCount)
    with st QCount quiet_step [OF c ok t, of s' "QRelease m h i (Some j) (Popped v)" "slots s ! t"] show ?thesis
      by (auto simp: step_ok_def invisible_step_def msq_abs_def)
  next
    case (QRelease m h i jo r)
    with st release_step [OF c ok t, of "after_try m h r" i] release_step [OF c ok t, of "QReleaseN m h (the jo) r" i]
    show ?thesis by (cases jo) (auto simp: step_ok_def)
  next
    case (QReleaseN m h j r)
    with st release_step [OF c ok t, of "after_try m h r" j] show ?thesis by (auto simp: step_ok_def)
  next
    case (QRetire m h v)
    have "slot_ok (slots s ! t) (MDone (MOpt (Some v)))" by (rule slot_ok_same [OF sl(1)]) (simp add: QRetire)
    with st nr QRetire sl quiet_step [OF c ok t, of s' "MDone (MOpt (Some v))" "slots s ! t"] show ?thesis
      by (auto simp: step_ok_def invisible_step_def msq_abs_def retire_fresh)
  next
    case (QClosed m)
    with st plain_step [OF c ok t, of "MDone (MOpt None)"] plain_step [OF c ok t, of "again m"] show ?thesis
      by (auto simp: step_ok_def invisible_step_def visible_step_def msq_abs_def)
  qed (use st in simp_all)
qed

lemma close_step_ok:
  assumes c: "chain s ns hi ti" and ok: "threads_ok s ns ti" and t: "t < length (mpcs s)" and pc: "mpcs s ! t = MClose"
  shows "visible_step (t, OpClose, MUnit) s (mgoto t (MDone MUnit) (s\<lparr>msq_closed := True\<rparr>))"
proof -
  let ?s = "mgoto t (MDone MUnit) (s\<lparr>msq_closed := True\<rparr>)"
  have "slot_ok (slots s ! t) (mpcs s ! t)" using ok t by (simp add: threads_ok_def)
  then have "slot_ok (slots s ! t) (MDone MUnit)" by (rule slot_ok_same) (simp add: pc)
  then have "msq_inv ?s \<and> contents ?s = contents s"
    by (intro quiet_step [OF c ok t, where p = "MDone MUnit" and sl = "slots s ! t"]) auto
  then show ?thesis by (simp add: visible_step_def msq_abs_def)
qed

lemma msq_step_ok:
  assumes c: "chain s ns hi ti" and ok: "threads_ok s ns ti" and t: "t < length (mpcs s)"
    and st: "msq_step t (mpcs s ! t) s = Some s'" and nr: "\<not> recycles (t, MStep) s"
  shows "step_ok t (mpcs s ! t) s s'"
proof (cases "msq_emplace_step t (mpcs s ! t) s = Some s' \<or> tryPop_step t (mpcs s ! t) s = Some s'")
  case True
  with emplace_step_ok [OF c ok t] tryPop_step_ok [OF c ok t _ nr] show ?thesis by blast
next
  case False
  with st nr consider "mpcs s ! t = MClose" | "mpcs s ! t = MSizeLoad"
    by (cases "mpcs s ! t") (auto split: option.splits)
  then show ?thesis
  proof cases
    case 1
    with st close_step_ok [OF c ok t] show ?thesis by (auto simp: step_ok_def)
  next
    case 2
    with st plain_step [OF c ok t, of "MDone (MSize (m_size s))"] show ?thesis by (auto simp: step_ok_def)
  qed
qed

lemma spurious_ok:
  assumes "spurious_pc p = Some p'"
  shows "held p' = held p \<and> (owned p' = None \<or> owned p' = owned p) \<and> pc_ok s ns ti p'"
  using assms by (cases p) auto

lemma msq_call_ok: "held (msq_call oper) = []" "owned (msq_call oper) = None" "pc_ok s ns ti (msq_call oper)"
  by (cases oper; simp)+

lemma msq_exec_ok:
  assumes inv: "msq_inv s" and ex: "msq_exec_fresh a s = Some s'"
  shows "case msq_lin a s of None \<Rightarrow> invisible_step s s' | Some e \<Rightarrow> visible_step e s s'"
proof -
  obtain t x where a: "a = (t, x)" by (cases a)
  obtain ns hi ti where c: "chain s ns hi ti" "threads_ok s ns ti" using inv by (auto simp: msq_inv_def)
  from ex a have t: "t < length (mpcs s)" and nr: "\<not> recycles (t, x) s" and ex': "msq_exec (t, x) s = Some s'"
    by (auto simp: msq_exec_fresh_def split: if_splits)
  show ?thesis
  proof (cases x)
    case MStep
    with ex' t nr msq_step_ok [OF c t] show ?thesis by (simp add: a step_ok_def)
  next
    case (MCall oper)
    with ex' t plain_step [OF c t, of "msq_call oper"] show ?thesis
      by (cases "mpcs s ! t") (auto simp: a msq_call_ok)
  next
    case MSpurious
    with ex' t obtain p where "spurious_pc (mpcs s ! t) = Some p" "s' = mgoto t p s" by auto
    with MSpurious plain_step [OF c t, of p] spurious_ok [of "mpcs s ! t" p s ns ti] show ?thesis by (simp add: a)
  next
    case (MWeak fs)
    with ex' t have w: "weak_protect t fs (mpcs s ! t) s = Some s'" by simp
    have pc: "pc_ok s ns ti (mpcs s ! t)" using c(2) t by (simp add: threads_ok_def)
    have "invisible_step s s'"
    proof (cases "mpcs s ! t")
      case (EProtect a b)
      with w pc protect_step [OF c t, of "ECheck a b" fs b] show ?thesis by (simp del: protect_then.simps)
    next
      case (QProtect m h)
      with w pc protect_step [OF c t, of "QCheck m h" fs h] show ?thesis by (simp del: protect_then.simps)
    next
      case (QProtectN m h i n)
      with w pc protect_step [OF c t, of "QCheckN m h i n" fs n] show ?thesis by (simp del: protect_then.simps)
    qed (use w in simp_all)
    with MWeak show ?thesis by (simp add: a)
  next
    case MExpire
    with ex' t plain_step [OF c t, of "MDone (MOpt None)"] show ?thesis by (auto simp: a)
  qed
qed

lemma msq_new_inv: "msq_inv (msq_new n)"
proof -
  have "chain (msq_new n) [0] 0 0" by (auto simp: chain_def msq_new_def empty_node_def)
  moreover have "threads_ok (msq_new n) [0] 0"
    by (auto simp: threads_ok_def msq_new_def owned_ok_def slot_ok_def)
  ultimately show ?thesis by (auto simp: msq_inv_def)
qed

interpretation mq: linearization msq_init msq_exec_fresh msq_inv msq_abs msq_lin msq_spec
proof unfold_locales
  fix s :: "'a msq"
  show "msq_init s \<Longrightarrow> msq_inv s" by (auto simp: msq_init_def msq_new_inv)
next
  fix a :: "tid \<times> 'a msq_act" and s s' :: "'a msq" and e
  assume inv: "msq_inv s" and ex: "msq_exec_fresh a s = Some s'"
  note * = msq_exec_ok [OF inv ex]
  show "msq_inv s'" using * by (auto simp: invisible_step_def visible_step_def split: option.splits)
  show "msq_abs s' = msq_abs s" if "msq_lin a s = None" using * that by (simp add: invisible_step_def)
  show "msq_spec e (msq_abs s) = Some (msq_abs s')" if "msq_lin a s = Some e" using * that by (simp add: visible_step_def)
qed

lemma protect_retired [simp]: "retired (protect_then t fs b k s) = retired s" "length (mpcs (protect_then t fs b k s)) = length (mpcs s)"
  by (auto simp: hp_protect_weak_def Let_def hp_initRecord_def set_slot_def split: option.splits)

lemma retired_step:
  assumes st: "msq_step t p s = Some s'" and p: "mpcs s ! t = p" and t: "t < length (mpcs s)" "t < length (retired s)"
    and nr: "\<not> recycles (t, MStep) s"
  shows "length (mpcs s') = length (mpcs s) \<and> retired s' =
     (case p of QRetire m h v \<Rightarrow> (retired s)[t := retired s ! t @ [h]] | _ \<Rightarrow> retired s)"
proof (cases p)
  case (QRelease m h i jo r)
  with st show ?thesis by (cases jo) auto
next
  case (QRetire m h v)
  with st p t nr show ?thesis by (auto simp: retire_fresh)
qed (use st p nr in \<open>auto simp: hp_allocate_def set_next_def simp del: protect_then.simps split: option.splits if_splits\<close>)

lemma protect_mpcs:
  "mpcs (protect_then t fs b k s) = (mpcs s)[t := mpcs (protect_then t fs b k s) ! t] \<and>
     (t < length (mpcs s) \<longrightarrow> (\<forall>i. k i \<noteq> MDrain) \<longrightarrow> mpcs (protect_then t fs b k s) ! t \<noteq> MDrain)"
  by (cases "t < length (mpcs s)")
    (auto simp: hp_protect_weak_def Let_def hp_initRecord_def set_slot_def list_update_beyond split: option.splits)

lemma weak_protect_then:
  assumes "weak_protect t fs p s = Some s'"
  obtains b k where "s' = protect_then t fs b k s" "\<And>i. k i \<noteq> MDrain"
  using assms by (cases p) (auto simp del: protect_then.simps)

lemma again_not_drain [simp]: "again m \<noteq> MDrain"
  by (cases m) simp_all

lemma after_try_not_drain [simp]: "after_try m h r \<noteq> MDrain"
  by (cases r) simp_all

lemma call_drain [simp]: "msq_call oper = MDrain \<longleftrightarrow> oper = OpDrainOther"
  by (cases oper) simp_all

lemma msq_drain_step:
  assumes st: "msq_step t p s = Some s'" and p: "mpcs s ! t = p" and t: "t < length (mpcs s)" "p \<noteq> MDrain"
  shows "mpcs s' ! t \<noteq> MDrain \<and> mpcs s' = (mpcs s)[t := mpcs s' ! t]"
proof (cases p)
  case (EProtect a b)
  with st t protect_mpcs [of t "[]" b "ECheck a b" s] show ?thesis by (auto simp del: protect_then.simps)
next
  case (QProtect m h)
  with st t protect_mpcs [of t "[]" h "QCheck m h" s] show ?thesis by (auto simp del: protect_then.simps)
next
  case (QProtectN m h i n)
  with st t protect_mpcs [of t "[]" n "QCheckN m h i n" s] show ?thesis by (auto simp del: protect_then.simps)
next
  case (QRelease m h i jo r)
  with st t show ?thesis by (cases jo) auto
next
  case (QRetire m h v)
  with st t show ?thesis
    by (auto simp: hp_retire_def Let_def hp_scan_def hp_scanOrphaned_def scan_list_eq)
qed (use st p t in \<open>auto simp: hp_allocate_def set_next_def split: option.splits if_splits\<close>)

lemma retired_exec:
  assumes ex: "msq_exec (t, x) s = Some s'" and nr: "\<not> recycles (t, x) s" and len: "length (retired s) = length (mpcs s)"
  shows "length (retired s') = length (mpcs s') \<and> length (retired s') = length (retired s) \<and>
     (\<forall>u. length (retired s' ! u) \<le> length (retired s ! u) + (case msq_retires (t, x) s of None \<Rightarrow> 0 | Some _ \<Rightarrow> 1))"
proof (cases x)
  case MStep
  with ex have t: "t < length (mpcs s)" and st: "msq_step t (mpcs s ! t) s = Some s'" by (auto split: if_splits)
  have r: "length (mpcs s') = length (mpcs s) \<and> retired s' =
     (case mpcs s ! t of QRetire m h v \<Rightarrow> (retired s)[t := retired s ! t @ [h]] | _ \<Rightarrow> retired s)"
    using retired_step [OF st refl t] nr MStep t len by simp
  show ?thesis
  proof (cases "\<exists>m h v. mpcs s ! t = QRetire m h v")
    case True
    then obtain m h v where q: "mpcs s ! t = QRetire m h v" by blast
    have "length ((retired s)[t := retired s ! t @ [h]] ! u) \<le> Suc (length (retired s ! u))" for u
      using t len by (cases "u = t") auto
    with q r len MStep show ?thesis by simp
  next
    case False
    then have "retired s' = retired s" using r by (auto split: msq_pc.splits)
    with r len show ?thesis by simp
  qed
next
  case (MCall oper)
  with ex len show ?thesis by (auto split: if_splits msq_pc.splits)
next
  case (MWeak fs)
  with ex have "weak_protect t fs (mpcs s ! t) s = Some s'" by (auto split: if_splits)
  then obtain b k where "s' = protect_then t fs b k s" by (rule weak_protect_then)
  with len MWeak show ?thesis by (simp del: protect_then.simps)
qed (use ex len in \<open>auto split: if_splits\<close>)

lemma drain_exec:
  assumes ex: "msq_exec (t, x) s = Some s'" and "MDrain \<notin> set (mpcs s)" "no_drain (t, x)"
  shows "MDrain \<notin> set (mpcs s')"
proof (cases x)
  case MStep
  with ex have t: "t < length (mpcs s)" and st: "msq_step t (mpcs s ! t) s = Some s'" by (auto split: if_splits)
  have "mpcs s ! t \<noteq> MDrain" using assms(2) t by (metis nth_mem)
  from msq_drain_step [OF st refl t this] assms(2) show ?thesis by (metis set_update_cases)
next
  case (MCall oper)
  with assms have "oper \<noteq> OpDrainOther" by auto
  then have "MDrain \<noteq> msq_call oper" by (metis call_drain)
  with MCall ex assms(2) show ?thesis by (auto split: if_splits msq_pc.splits dest!: set_update_cases)
next
  case MSpurious
  have "spurious_pc (mpcs s ! t) \<noteq> Some MDrain" by (cases "mpcs s ! t") auto
  with MSpurious ex assms(2) show ?thesis by (auto split: if_splits dest!: set_update_cases)
next
  case (MWeak fs)
  with ex have t: "t < length (mpcs s)" and w: "weak_protect t fs (mpcs s ! t) s = Some s'" by (auto split: if_splits)
  obtain b k where "s' = protect_then t fs b k s" "\<And>i. k i \<noteq> MDrain" using w by (rule weak_protect_then) blast
  with protect_mpcs [of t fs b k s] t assms(2) show ?thesis by (metis set_update_cases)
qed (use ex assms(2) in \<open>auto split: if_splits dest!: set_update_cases\<close>)

lemma fresh_run:
  "run msq_exec as s = Some s' \<Longrightarrow> length (retired s) = length (mpcs s) \<Longrightarrow> MDrain \<notin> set (mpcs s) \<Longrightarrow>
   list_all no_drain as \<Longrightarrow> (\<forall>u < length (retired s). length (retired s ! u) + length (events msq_exec msq_retires as s) \<le> retireThreshold) \<Longrightarrow>
     run msq_exec_fresh as s = Some s' \<and> events msq_exec_fresh msq_lin as s = events msq_exec msq_lin as s"
proof (induction as arbitrary: s)
  case (Cons a as)
  obtain t x where a: "a = (t, x)" by (cases a)
  from Cons.prems(1) obtain w where w: "msq_exec a s = Some w" "run msq_exec as w = Some s'"
    by (auto simp del: msq_exec.simps split: option.splits)
  have tt: "t < length (mpcs s)" using w(1) a by (auto split: if_splits)
  have ev: "length (events msq_exec msq_retires (a # as) s) =
      (case msq_retires a s of None \<Rightarrow> 0 | Some _ \<Rightarrow> 1) + length (events msq_exec msq_retires as w)"
    using w(1) by (simp del: msq_exec.simps msq_retires.simps split: option.splits)
  have nr: "\<not> recycles a s"
  proof
    assume "recycles a s"
    moreover have "mpcs s ! t \<noteq> MDrain" using Cons.prems(3) tt by (metis nth_mem)
    ultimately obtain m h v where q: "mpcs s ! t = QRetire m h v" "x = MStep" "retireThreshold \<le> length (retired s ! t)"
      unfolding a by (auto split: msq_pc.splits)
    then have "msq_retires a s = Some ()" by (simp add: a)
    with ev have "1 \<le> length (events msq_exec msq_retires (a # as) s)" by simp
    moreover have "t < length (retired s)" using tt Cons.prems(2) by simp
    ultimately show False using Cons.prems(5) q(3) by fastforce
  qed
  have r: "length (retired w) = length (mpcs w)" "length (retired w) = length (retired s)"
      "\<And>u. length (retired w ! u) \<le> length (retired s ! u) + (case msq_retires a s of None \<Rightarrow> 0 | Some _ \<Rightarrow> 1)"
    using retired_exec [of t x s w] w(1) nr Cons.prems(2) unfolding a by blast+
  have "length (retired w ! u) + length (events msq_exec msq_retires as w) \<le> retireThreshold" if "u < length (retired w)" for u
  proof -
    have "length (retired s ! u) + length (events msq_exec msq_retires (a # as) s) \<le> retireThreshold"
      using Cons.prems(5) that r(2) by simp
    with r(3) [of u] ev show ?thesis by linarith
  qed
  moreover have "MDrain \<notin> set (mpcs w)" using drain_exec [of t x s w] w(1) Cons.prems(3,4) unfolding a by simp
  ultimately have "run msq_exec_fresh as w = Some s' \<and> events msq_exec_fresh msq_lin as w = events msq_exec msq_lin as w"
    using Cons.IH [OF w(2) r(1)] Cons.prems(4) by simp
  moreover have "msq_exec_fresh a s = Some w" using w(1) nr by (simp add: msq_exec_fresh_def)
  ultimately show ?case using w(1) by (simp del: msq_exec.simps msq_lin.simps)
qed simp

lemma msq_spec_fifo:
  "run msq_spec h (q, c) = Some (q', c') \<Longrightarrow> q @ concat (map msq_pushed h) = concat (map msq_popped h) @ q'"
proof (induction h arbitrary: q c)
  case (Cons e h)
  then obtain q1 c1 where u: "msq_spec e (q, c) = Some (q1, c1)" "run msq_spec h (q1, c1) = Some (q', c')"
    by (auto split: option.splits)
  have "q @ msq_pushed e = msq_popped e @ q1"
    using u(1) by (cases "(e, (q, c))" rule: msq_spec.cases) (auto split: list.splits)
  with Cons.IH [OF u(2)] show ?case by (metis append_assoc concat.simps(2) list.simps(9))
qed simp

lemma again_uncommitted [simp]: "msq_committed s (again m) = None"
  by (cases m) simp_all

lemma after_try_committed [simp]: "msq_committed s (after_try m h r) = (case r of Popped v \<Rightarrow> Some (MOpt (Some v)) | _ \<Rightarrow> None)"
  by (cases r) simp_all

lemma retire_mpcs [simp]: "mpcs (hp_retire t h s) = mpcs s"
  by (simp add: hp_retire_def Let_def hp_scan_def hp_scanOrphaned_def scan_list_eq)

lemma committed_own:
  assumes st: "msq_step t (mpcs s ! t) s = Some s'" and t: "t < length (mpcs s)"
    and pc: "pc_ok s ns ti (mpcs s ! t)" "\<And>m h i n j. mpcs s ! t = QTake m h i n j \<Longrightarrow> nvalue (heap s n) \<noteq> None"
  shows "case msq_lin_step t (mpcs s ! t) s of
     Some (u, oper, r) \<Rightarrow> u = t \<and> msq_committed s (mpcs s ! t) = None \<and> msq_committed s' (mpcs s' ! t) = Some r
   | None \<Rightarrow> msq_committed s (mpcs s ! t) \<noteq> None \<longrightarrow> msq_committed s' (mpcs s' ! t) = msq_committed s (mpcs s ! t)"
proof (cases "mpcs s ! t")
  case (QRelease m h i jo r)
  with st t show ?thesis by (cases jo; cases r) auto
next
  case (QReleaseN m h j r)
  with st t show ?thesis by (cases r) auto
next
  case (QTake m h i n j)
  with st t pc show ?thesis by (auto split: option.splits)
next
  case (EProtect a b)
  then show ?thesis by simp
next
  case (QProtect m h)
  then show ?thesis by simp
next
  case (QProtectN m h i n)
  then show ?thesis by simp
qed (use st t pc in \<open>auto simp: hp_allocate_def set_next_def split: option.splits if_splits\<close>)


lemma protect_heap [simp]: "heap (protect_then t fs b k s) = heap s"
  by (auto simp: hp_protect_weak_def Let_def hp_initRecord_def set_slot_def split: option.splits)

lemma retire_heap [simp]: "heap (hp_retire t h s) = heap s"
  by (simp add: hp_retire_def Let_def hp_scan_def hp_scanOrphaned_def scan_list_eq)

lemma value_stable:
  assumes st: "msq_step t p s = Some s'" and "pc_ok s ns ti p" "n < brk s" "pool s = []" "p \<noteq> MDrain"
  shows "nvalue (heap s' n) = nvalue (heap s n)"
proof (cases p)
  case (QRelease m h i jo r)
  with st show ?thesis by (cases jo) auto
qed (use assms in \<open>auto simp: hp_allocate_def set_next_def simp del: protect_then.simps split: option.splits if_splits\<close>)

lemma committed_frame:
  assumes "pc_ok s ns ti p" "chain s ns hi ti" "\<And>n. n < brk s \<Longrightarrow> nvalue (heap s' n) = nvalue (heap s n)"
  shows "msq_committed s' p = msq_committed s p"
proof (cases p)
  case (QTake m h i n j)
  then have "n \<in> set ns" using assms(1) chain_next_node(1) [OF assms(2), of h n] by simp
  then have "n < brk s" using assms(2) by (auto simp: chain_def)
  with assms(3) QTake show ?thesis by simp
next
  case (QRelease m h i jo r)
  then show ?thesis by (cases r) simp_all
next
  case (QReleaseN m h i r)
  then show ?thesis by (cases r) simp_all
qed simp_all

lemma msq_effect:
  assumes inv: "msq_inv s" and ex: "msq_exec_fresh (t, MStep) s = Some s'" and u: "u < length (mpcs s)"
  shows "(if u \<noteq> t then msq_committed s' (mpcs s' ! u) = msq_committed s (mpcs s ! u)
     else case msq_lin (t, MStep) s of
       Some (w, oper, r) \<Rightarrow> w = t \<and> msq_committed s (mpcs s ! t) = None \<and> msq_committed s' (mpcs s' ! t) = Some r
     | None \<Rightarrow> msq_committed s (mpcs s ! t) \<in> {None, msq_committed s' (mpcs s' ! t)})"
proof -
  obtain ns hi ti where c: "chain s ns hi ti" "threads_ok s ns ti" using inv by (auto simp: msq_inv_def)
  have t: "t < length (mpcs s)" and st: "msq_step t (mpcs s ! t) s = Some s'" and nd: "mpcs s ! t \<noteq> MDrain"
    using ex by (auto simp: msq_exec_fresh_def split: if_splits)
  have ok: "pc_ok s ns ti (mpcs s ! v)" if "v < length (mpcs s)" for v using c(2) that by (simp add: threads_ok_def)
  have "pool s = []" using c(1) by (simp add: chain_def)
  with value_stable [OF st ok [OF t]] nd have vals: "n < brk s \<Longrightarrow> nvalue (heap s' n) = nvalue (heap s n)" for n by blast
  have qt: "nvalue (heap s n) \<noteq> None" if q: "mpcs s ! t = QTake m h i n j" for m h i n j
    using ok [OF t] q chain_next_node(2) [OF c(1), of h n] by simp
  show ?thesis
  proof (cases "u = t")
    case True
    with committed_own [OF st t ok [OF t] qt] show ?thesis by (auto split: option.splits)
  next
    case False
    have "mpcs s' ! u = mpcs s ! u" using msq_drain_step [OF st refl t nd] False by (metis nth_list_update_neq)
    with False committed_frame [OF ok [OF u] c(1) vals] show ?thesis by simp
  qed
qed

lemma msq_fresh_history:
  assumes "run msq_exec as (msq_new n) = Some s" "list_all no_drain as"
    "length (events msq_exec msq_retires as (msq_new n)) \<le> retireThreshold"
  shows "run msq_exec_fresh as (msq_new n) = Some s \<and>
    run msq_spec (events msq_exec msq_lin as (msq_new n)) ([], False) = Some (contents s, msq_closed s)"
proof -
  have f: "run msq_exec_fresh as (msq_new n) = Some s \<and>
      events msq_exec_fresh msq_lin as (msq_new n) = events msq_exec msq_lin as (msq_new n)"
    using assms by (intro fresh_run) (auto simp: msq_new_def)
  have i: "msq_init (msq_new n)" by (auto simp: msq_init_def)
  have new: "msq_abs (msq_new n) = ([], False)" by (simp add: msq_abs_def contents_def msq_new_def empty_node_def)
  have "run msq_spec (events msq_exec_fresh msq_lin as (msq_new n)) (msq_abs (msq_new n)) = Some (msq_abs s)"
    using i conjunct1 [OF f] by (rule mq.history_refines)
  with f show ?thesis unfolding new by (simp add: msq_abs_def)
qed

lemma drain_keeps_queue [simp]:
  "m_head (hp_drain t s) = m_head s" "heap (hp_drain t s) = heap s" "brk (hp_drain t s) = brk s"
  by (simp_all add: hp_drain_def hp_scanOrphaned_def scan_list_eq)

lemma destroy_deletes_chain:
  assumes "msq_inv s"
  shows "distinct (fst (msq_destroy t s)) \<and> map (\<lambda>a. the (nvalue (heap s a))) (tl (fst (msq_destroy t s))) = contents s"
proof -
  obtain ns hi ti where c: "chain s ns hi ti" using assms by (auto simp: msq_inv_def)
  have hi: "hi < length ns" "m_head s = ns ! hi" "distinct ns" using c by (auto simp: chain_def)
  have w: "walk (heap s) (brk s) (m_head s) = drop (Suc hi) ns"
    using walk_chain [OF c hi(1)] chain_length [OF c] hi(2) by simp
  then have l: "fst (msq_destroy t s) = ns ! hi # drop (Suc hi) ns" by (simp add: msq_destroy_def Let_def hi(2))
  have "distinct (ns ! hi # drop (Suc hi) ns)" using hi by (metis Cons_nth_drop_Suc distinct_drop)
  then show ?thesis unfolding l contents_chain [OF c] by simp
qed

section \<open>Properties\<close>

text \<open>C3. Linearizability and FIFO order while no node is recycled. In every run of any number of threads in
  which at most \<open>retireThreshold\<close> nodes are retired and no other queue drains the shared reclaimer,
  the operations in the order of their effects, with the results they get, are a run of the FIFO
  list; the values pushed are, in order, the values popped followed by the content of the queue.\<close>

theorem msq_linearizable:
  assumes "run msq_exec as (msq_new n) = Some s" "list_all no_drain as"
    "length (events msq_exec msq_retires as (msq_new n)) \<le> retireThreshold"
  shows "run msq_spec (events msq_exec msq_lin as (msq_new n)) ([], False) = Some (contents s, msq_closed s) \<and>
    concat (map msq_pushed (events msq_exec msq_lin as (msq_new n))) =
      concat (map msq_popped (events msq_exec msq_lin as (msq_new n))) @ contents s"
proof -
  have r: "run msq_spec (events msq_exec msq_lin as (msq_new n)) ([], False) = Some (contents s, msq_closed s)"
    using msq_fresh_history [OF assms] by simp
  with msq_spec_fifo [OF r] show ?thesis by simp
qed

theorem msq_linearizable_witness:
  "\<exists>s. run msq_exec msq_handover_schedule (msq_new 2) = Some s \<and>
     run msq_spec [(0, OpPush 7, MBool True), (1, OpPop, MOpt (Some 7))] ([], False) = Some (contents s, msq_closed s) \<and>
     [7] = [7] @ contents s"
proof -
  have ev: "events msq_exec msq_lin msq_handover_schedule (msq_new 2) = [(0, OpPush 7, MBool True), (1, OpPop, MOpt (Some 7))]"
    by code_simp
  have "run msq_exec msq_handover_schedule (msq_new 2) \<noteq> None" by code_simp
  then obtain s where s: "run msq_exec msq_handover_schedule (msq_new 2) = Some s" by blast
  have "list_all no_drain msq_handover_schedule" by code_simp
  moreover have "length (events msq_exec msq_retires msq_handover_schedule (msq_new 2)) \<le> retireThreshold" by code_simp
  ultimately show ?thesis using msq_linearizable [OF s] s unfolding ev by simp
qed

text \<open>C25. Under the same conditions every operation takes effect at most once between call and return and
  returns the result fixed at that moment, and no step of a thread changes the result of another
  thread: the value a pop reads after it has moved the head is the one its event carries, whatever
  the other threads do in between.\<close>

theorem msq_effect_once:
  assumes "reachable msq_init msq_exec_fresh s" "msq_exec_fresh (t, MStep) s = Some s'" "u < length (mpcs s)"
  shows "if u \<noteq> t then msq_committed s' (mpcs s' ! u) = msq_committed s (mpcs s ! u)
     else case msq_lin (t, MStep) s of
       Some (w, oper, r) \<Rightarrow> w = t \<and> msq_committed s (mpcs s ! t) = None \<and> msq_committed s' (mpcs s' ! t) = Some r
     | None \<Rightarrow> msq_committed s (mpcs s ! t) \<in> {None, msq_committed s' (mpcs s' ! t)}"
  using msq_effect [OF mq.reachable_inv [OF assms(1)] assms(2,3)] .

theorem msq_effect_once_witness:
  "\<exists>s s'. run msq_exec_fresh (take 35 msq_handover_schedule) (msq_new 2) = Some s \<and>
     msq_exec_fresh (1, MStep) s = Some s' \<and> msq_lin (1, MStep) s = Some (1, OpPop, MOpt (Some 7)) \<and>
     msq_committed s (mpcs s ! 1) = None \<and> msq_committed s' (mpcs s' ! 1) = Some (MOpt (Some 7))"
proof -
  have "map_option (\<lambda>s. (length (mpcs s), msq_lin (1, MStep) s, msq_exec_fresh (1, MStep) s \<noteq> None))
      (run msq_exec_fresh (take 35 msq_handover_schedule) (msq_new 2)) =
      Some (2, Some (1, OpPop, MOpt (Some 7)), True)"
    by code_simp
  then obtain s s' where s: "run msq_exec_fresh (take 35 msq_handover_schedule) (msq_new 2) = Some s"
    "msq_lin (1, MStep) s = Some (1, OpPop, MOpt (Some 7))" "msq_exec_fresh (1, MStep) s = Some s'" "length (mpcs s) = 2"
    by (auto simp del: msq_lin.simps)
  have "reachable msq_init msq_exec_fresh s"
    by (rule run_reachable [OF reachable.start s(1)]) (auto simp: msq_init_def)
  from msq_effect_once [OF this s(3), of 1] s show ?thesis by auto
qed

text \<open>Under the same conditions no pop finds an empty optional: the only exception is that of a \<open>protect\<close> whose
  weak CAS has failed on all free slots.\<close>

theorem msq_only_overflow:
  assumes "run msq_exec as (msq_new n) = Some s" "list_all no_drain as"
    "length (events msq_exec msq_retires as (msq_new n)) \<le> retireThreshold" "t < length (mpcs s)"
    "mpcs s ! t = MDone (MThrow e)"
  shows "e = ''Stored pointers overflow''"
proof -
  have "msq_init (msq_new n)" by (auto simp: msq_init_def)
  with msq_fresh_history [OF assms(1-3)] have "msq_inv s" by (blast intro: mq.run_init_inv)
  then obtain ns hi ti where "threads_ok s ns ti" by (auto simp: msq_inv_def)
  with assms(4) have "pc_ok s ns ti (mpcs s ! t)" by (simp add: threads_ok_def)
  with assms(5) show ?thesis by simp
qed

theorem msq_only_overflow_witness:
  "\<exists>s e. run msq_exec weak_schedule (msq_new 2) = Some s \<and> mpcs s ! 1 = MDone (MThrow e) \<and> e = ''Stored pointers overflow'' \<and>
     contents s = [7] \<and> slots s ! 1 = [Some 0, None, None, None]"
proof -
  have "map_option (\<lambda>s. (length (mpcs s), mpcs s ! 1 = MDone (MThrow ''Stored pointers overflow''), contents s, slots s ! 1))
      (run msq_exec weak_schedule (msq_new 2)) = Some (2, True, [7], [Some 0, None, None, None])" by code_simp
  then obtain s where s: "run msq_exec weak_schedule (msq_new 2) = Some s" "length (mpcs s) = 2"
    "mpcs s ! 1 = MDone (MThrow ''Stored pointers overflow'')" "contents s = [7]" "slots s ! 1 = [Some 0, None, None, None]" by auto
  have "list_all no_drain weak_schedule" by code_simp
  moreover have "length (events msq_exec msq_retires weak_schedule (msq_new 2)) \<le> retireThreshold" by code_simp
  ultimately show ?thesis using msq_only_overflow [OF s(1) _ _ _ s(3)] s by auto
qed

text \<open>The destructor deletes the dummy and the nodes of the remaining elements, each once.\<close>

theorem msq_destroy_deletes_once:
  assumes "reachable msq_init msq_exec_fresh s"
  shows "distinct (fst (msq_destroy t s)) \<and> map (\<lambda>a. the (nvalue (heap s a))) (tl (fst (msq_destroy t s))) = contents s"
  using destroy_deletes_chain [OF mq.reachable_inv [OF assms]] .

theorem msq_destroy_deletes_once_witness:
  "\<exists>s. run msq_exec_fresh (take 15 msq_handover_schedule) (msq_new 2) = Some s \<and> contents s = [7] \<and>
     distinct (fst (msq_destroy 0 s)) \<and> map (\<lambda>a. the (nvalue (heap s a))) (tl (fst (msq_destroy 0 s))) = [7]"
proof -
  have "map_option contents (run msq_exec_fresh (take 15 msq_handover_schedule) (msq_new 2)) = Some [7]" by code_simp
  then obtain s where s: "run msq_exec_fresh (take 15 msq_handover_schedule) (msq_new 2) = Some s" "contents s = [7]"
    by auto
  have "reachable msq_init msq_exec_fresh s"
    by (rule run_reachable [OF reachable.start s(1)]) (auto simp: msq_init_def)
  from msq_destroy_deletes_once [OF this, of 0] s show ?thesis by auto
qed

text \<open>With recycling an element is lost. \<open>emplace\<close> clears its slot before it swings the tail, so the old
  tail node can be retired, recycled and become the tail again (ABA); the late CAS then sets the
  tail back to a node that is itself recycled. After this schedule four pushes have succeeded, three
  values were popped and the queue is empty from the head.\<close>

theorem msq_aba_loses_element:
  "\<exists>s. run msq_exec aba_schedule (msq_new 2) = Some s \<and> list_all (\<lambda>p. p = MDone (MBool True)) (mpcs s) \<and>
     concat (map msq_pushed (events msq_exec msq_lin aba_schedule (msq_new 2))) = [1, 2, 3, 4] \<and>
     concat (map msq_popped (events msq_exec msq_lin aba_schedule (msq_new 2))) = [1, 2, 3] \<and> contents s = []"
proof -
  have "map_option (\<lambda>s. (list_all (\<lambda>p. p = MDone (MBool True)) (mpcs s), contents s))
      (run msq_exec aba_schedule (msq_new 2)) = Some (True, [])"
    by code_simp
  moreover have "concat (map msq_pushed (events msq_exec msq_lin aba_schedule (msq_new 2))) = [1, 2, 3, 4]" by code_simp
  moreover have "concat (map msq_popped (events msq_exec msq_lin aba_schedule (msq_new 2))) = [1, 2, 3]" by code_simp
  ultimately show ?thesis by auto
qed

text \<open>\<open>pop\<close> looks at \<open>m_closed\<close> after it has found the queue empty: it can report the queue as closed and
  drained although an element was pushed before the close and is still there.\<close>

theorem msq_pop_reports_drained_early:
  "\<exists>s. run msq_exec not_drained_schedule (msq_new 2) = Some s \<and> mpcs s = [MDone MUnit, MDone (MOpt None)] \<and>
     msq_closed s \<and> contents s = [7]"
proof -
  have "map_option (\<lambda>s. (mpcs s, msq_closed s, contents s)) (run msq_exec not_drained_schedule (msq_new 2)) =
      Some ([MDone MUnit, MDone (MOpt None)], True, [7])"
    by code_simp
  then show ?thesis by auto
qed

text \<open>The counter is decremented by a pop before the push of the same element has incremented it:
  \<open>size\<close> returns \<open>2 ^ 64 - 1\<close> for an empty queue.\<close>

theorem msq_size_wraps:
  "\<exists>s. run msq_exec size_wrap_schedule (msq_new 3) = Some s \<and> contents s = [] \<and> mpcs s ! 2 = MDone (MSize (2 ^ 64 - 1))"
proof -
  have "map_option (\<lambda>s. (contents s, mpcs s ! 2)) (run msq_exec size_wrap_schedule (msq_new 3)) =
      Some ([], MDone (MSize (2 ^ 64 - 1)))"
    by code_simp
  then show ?thesis by auto
qed

end
