(* ===== verification/MichaelScottSequential.thy ===== *)
theory MichaelScottSequential
  imports MichaelScottQueue
begin

text \<open>
  \<^verbatim>\<open>include/miniruntime/task/michaelscottqueue.h\<close> and \<^verbatim>\<open>hazardpointers.h\<close> together, used without overlap: calls may
  come from any number of threads, one after the other, and nodes are recycled without bound. In a run of
  \<open>msq_exec_seq\<close> a thread moves only while all others are between calls; weak compare-and-swap still fails
  spuriously, so that the tail may lag and \<open>protect\<close> may throw, and other queues of the type drain the shared reclaimer.

  Every node is in at most one place: linked from the head, in the hand of the running call, or free (pooled,
  retired or orphaned); a push that throws loses its node. With that the queue is exactly a FIFO list: a push fails if and only if the queue is
  closed, a pop reports nothing only if it is closed and empty, and \<open>size\<close> is the length. This delimits the
  failures with recycling of \<open>MichaelScottQueue\<close>: they need calls that overlap.
\<close>

section \<open>Specification\<close>

fun between_calls :: "'a msq_pc \<Rightarrow> bool" where
  "between_calls (MDone r) = True"
| "between_calls _ = False"

definition alone :: "tid \<Rightarrow> 'a msq \<Rightarrow> bool" where
  "alone t s \<longleftrightarrow> list_all (\<lambda>u. u = t \<or> between_calls (mpcs s ! u)) [0 ..< length (mpcs s)]"

definition msq_exec_seq :: "tid \<times> 'a msq_act \<Rightarrow> 'a msq \<Rightarrow> 'a msq option" where
  "msq_exec_seq a s = (if alone (fst a) s then msq_exec a s else None)"

fun fifo_spec :: "'a msq_event \<Rightarrow> 'a list \<times> bool \<Rightarrow> ('a list \<times> bool) option" where
  "fifo_spec (t, OpPush v, MBool b) (q, c) = guarded (b = (\<not> c)) (if c then q else q @ [v], c)"
| "fifo_spec (t, OpPop, MOpt None) (q, c) = guarded (c \<and> q = []) (q, c)"
| "fifo_spec (t, OpPop, MOpt (Some v)) (q, c) = (case q of [] \<Rightarrow> None | w # ws \<Rightarrow> guarded (w = v) (ws, c))"
| "fifo_spec (t, OpClose, MUnit) (q, c) = Some (q, True)"
| "fifo_spec (t, OpSize, MSize n) (q, c) = guarded (n = of_nat (length q)) (q, c)"
| "fifo_spec (t, OpDrainOther, MUnit) (q, c) = Some (q, c)"
| "fifo_spec e qc = None"

text \<open>A method as a single transition; \<open>None\<close> for a pop that goes on waiting.\<close>

fun atomic_op :: "'a msq_op \<Rightarrow> 'a list \<times> bool \<Rightarrow> ('a msq_res \<times> 'a list \<times> bool) option" where
  "atomic_op (OpPush v) (q, c) = Some (if c then (MBool False, q, c) else (MBool True, q @ [v], c))"
| "atomic_op OpPop (q, c) = (case q of [] \<Rightarrow> guarded c (MOpt None, q, c) | v # vs \<Rightarrow> Some (MOpt (Some v), vs, c))"
| "atomic_op OpTimeoutPop (q, c) = (case q of [] \<Rightarrow> guarded c (MOpt None, q, c) | v # vs \<Rightarrow> Some (MOpt (Some v), vs, c))"
| "atomic_op OpClose (q, c) = Some (MUnit, q, True)"
| "atomic_op OpSize (q, c) = Some (MSize (of_nat (length q)), q, c)"
| "atomic_op OpDrainOther (q, c) = Some (MUnit, q, c)"

text \<open>The events are those of the concurrent specification, and those of \<open>size\<close> and of the drain.\<close>

fun seq_lin_step :: "tid \<Rightarrow> 'a msq_pc \<Rightarrow> 'a msq \<Rightarrow> 'a msq_event option" where
  "seq_lin_step t MSizeLoad s = Some (t, OpSize, MSize (m_size s))"
| "seq_lin_step t MDrain s = Some (t, OpDrainOther, MUnit)"
| "seq_lin_step t p s = msq_lin_step t p s"

fun msq_lin_seq :: "tid \<times> 'a msq_act \<Rightarrow> 'a msq \<Rightarrow> 'a msq_event option" where
  "msq_lin_seq (t, a) s = (case a of MStep \<Rightarrow> seq_lin_step t (mpcs s ! t) s | _ \<Rightarrow> None)"

section \<open>Invariant\<close>

text \<open>Nodes linked one after the other, the last one without a successor; all but the first have a value.\<close>

fun linked :: "(addr \<Rightarrow> 'a node) \<Rightarrow> addr list \<Rightarrow> bool" where
  "linked h [] = False"
| "linked h [a] = (nnext (h a) = None)"
| "linked h (a # b # ns) = (nnext (h a) = Some b \<and> nvalue (h b) \<noteq> None \<and> linked h (b # ns))"

definition free_nodes :: "'m hp_scheme \<Rightarrow> addr list" where
  "free_nodes s = pool s @ orphaned s @ concat (retired s)"

text \<open>The node in the hand of a call: to be linked, or unlinked and to be retired.\<close>

fun hand :: "'a msq_pc \<Rightarrow> addr list" where
  "hand (EInit a v) = [a]"
| "hand (ELoad a) = [a]"
| "hand (EProtect a b) = [a]"
| "hand (ECheck a b i) = [a]"
| "hand (ENext a b i) = [a]"
| "hand (EHelp a b n i) = [a]"
| "hand (ECas a b i) = [a]"
| "hand (EUnprotect a i) = [a]"
| "hand (QTake m h i n j) = [h]"
| "hand (QCount m h i j v) = [h]"
| "hand (QRelease m h i jo (Popped v)) = [h]"
| "hand (QReleaseN m h j (Popped v)) = [h]"
| "hand (QRetire m h v) = [h]"
| "hand _ = []"

text \<open>What \<open>m_size\<close> is ahead of the content while a call has moved a node and not yet counted it.\<close>

fun ahead :: "'a msq_pc \<Rightarrow> u64" where
  "ahead (ELinked a b i) = -1"
| "ahead (ESwing a b) = -1"
| "ahead ECount = -1"
| "ahead (QTake m h i n j) = 1"
| "ahead (QCount m h i j v) = 1"
| "ahead _ = 0"

definition fresh_node :: "'a msq \<Rightarrow> addr \<Rightarrow> bool" where
  "fresh_node s a \<longleftrightarrow> nnext (heap s a) = None \<and> nvalue (heap s a) \<noteq> None \<and> \<not> msq_closed s"

fun pc_seq :: "'a msq \<Rightarrow> 'a msq_pc \<Rightarrow> bool" where
  "pc_seq s (EAlloc v) = (\<not> msq_closed s)"
| "pc_seq s (EInit a v) = (\<not> msq_closed s)"
| "pc_seq s (ELoad a) = fresh_node s a"
| "pc_seq s (EProtect a b) = (fresh_node s a \<and> b = m_tail s)"
| "pc_seq s (ECheck a b i) = (fresh_node s a \<and> b = m_tail s)"
| "pc_seq s (ENext a b i) = (fresh_node s a \<and> b = m_tail s)"
| "pc_seq s (EHelp a b n i) = (fresh_node s a \<and> b = m_tail s \<and> nnext (heap s b) = Some n)"
| "pc_seq s (ECas a b i) = (fresh_node s a \<and> b = m_tail s \<and> nnext (heap s b) = None)"
| "pc_seq s (EUnprotect a i) = fresh_node s a"
| "pc_seq s (ELinked a b i) = (b = m_tail s \<and> nnext (heap s b) = Some a)"
| "pc_seq s (ESwing a b) = (b = m_tail s \<and> nnext (heap s b) = Some a)"
| "pc_seq s (QProtect m h) = (h = m_head s)"
| "pc_seq s (QCheck m h i) = (h = m_head s)"
| "pc_seq s (QNext m h i) = (h = m_head s)"
| "pc_seq s (QProtectN m h i n) = (h = m_head s \<and> nnext (heap s h) = Some n)"
| "pc_seq s (QCheckN m h i n j) = (h = m_head s \<and> nnext (heap s h) = Some n)"
| "pc_seq s (QTail m h i n j) = (h = m_head s \<and> nnext (heap s h) = Some n)"
| "pc_seq s (QHelp m h i n j) = (h = m_head s \<and> nnext (heap s h) = Some n \<and> h = m_tail s)"
| "pc_seq s (QCas m h i n j) = (h = m_head s \<and> nnext (heap s h) = Some n \<and> h \<noteq> m_tail s)"
| "pc_seq s (QTake m h i n j) = (nvalue (heap s n) \<noteq> None)"
| "pc_seq s (QRelease m h i jo Empty) = (nnext (heap s (m_head s)) = None)"
| "pc_seq s (QReleaseN m h j Empty) = (nnext (heap s (m_head s)) = None)"
| "pc_seq s (QClosed m) = (nnext (heap s (m_head s)) = None)"
| "pc_seq s _ = True"

text \<open>The state as the running call with program counter \<open>p\<close> sees it; \<open>ns\<close> are the linked nodes.\<close>

definition seq_ok :: "'a msq \<Rightarrow> addr list \<Rightarrow> 'a msq_pc \<Rightarrow> bool" where
  "seq_ok s ns p \<longleftrightarrow> linked (heap s) ns \<and> m_head s = hd ns \<and> m_tail s \<in> set ns \<and> pc_seq s p \<and>
     distinct (ns @ hand p @ free_nodes s) \<and> set (ns @ hand p @ free_nodes s) \<subseteq> {..<brk s} \<and>
     m_size s = of_nat (length ns - 1) + ahead p"

text \<open>The only exception is that of \<open>protect\<close>. \<open>room\<close> are the slots a thread can use, free or taken by the running
  call: a call that throws in \<open>protect\<close> may lose one.\<close>

fun thrown :: "'a msq_pc \<Rightarrow> bool" where
  "thrown (MDone (MThrow e)) = True"
| "thrown _ = False"

fun other_throw :: "'a msq_pc \<Rightarrow> bool" where
  "other_throw (MDone (MThrow e)) = (e \<noteq> ''Stored pointers overflow'')"
| "other_throw _ = False"

definition free_slots :: "addr option list \<Rightarrow> nat" where
  "free_slots sl = cnt (\<lambda>x. x = None) sl"

definition room :: "addr option list \<Rightarrow> 'a msq_pc \<Rightarrow> nat" where
  "room sl p = free_slots sl + length (held p)"

definition seq_inv :: "'a msq \<Rightarrow> bool" where
  "seq_inv s \<longleftrightarrow> length (slots s) = length (mpcs s) \<and> length (retired s) = length (mpcs s) \<and>
     (\<forall>t < length (mpcs s). slot_ok (slots s ! t) (mpcs s ! t) \<and> \<not> other_throw (mpcs s ! t)) \<and>
     (\<exists>ns. list_all between_calls (mpcs s) \<and> seq_ok s ns (MDone MUnit) \<or> (\<exists>t < length (mpcs s). alone t s \<and> seq_ok s ns (mpcs s ! t)))"

text \<open>A step of the running call \<open>t\<close> at \<open>q\<close>, with its event, that keeps all this.\<close>

definition seq_moves :: "tid \<Rightarrow> 'a msq_pc \<Rightarrow> 'a msq_event option \<Rightarrow> 'a msq \<Rightarrow> 'a msq \<Rightarrow> bool" where
  "seq_moves t q e s s' \<longleftrightarrow> length (retired s') = length (retired s) \<and>
     (\<exists>ns p sl. mpcs s' = (mpcs s)[t := p] \<and> slots s' = (slots s)[t := sl] \<and> slot_ok sl p \<and> \<not> other_throw p \<and> seq_ok s' ns p \<and>
        (thrown p \<or> room sl p = room (slots s ! t) q)) \<and>
     (case e of None \<Rightarrow> msq_abs s' = msq_abs s | Some ev \<Rightarrow> fifo_spec ev (msq_abs s) = Some (msq_abs s'))"

text \<open>
  The result that a call which goes on alone is going to return, and the abstract state it leaves; the
  calls that return at all; and a rank that every step decreases: phase, nodes that the tail has to
  catch up with, steps left.
\<close>

definition push_outcome :: "'a msq \<Rightarrow> 'a \<Rightarrow> 'a msq_res \<times> 'a list \<times> bool" where
  "push_outcome s v = (if msq_closed s then (MBool False, msq_abs s) else (MBool True, contents s @ [v], msq_closed s))"

definition pop_outcome :: "'a msq \<Rightarrow> 'a msq_res \<times> 'a list \<times> bool" where
  "pop_outcome s = (case contents s of [] \<Rightarrow> (MOpt None, msq_abs s) | v # vs \<Rightarrow> (MOpt (Some v), vs, msq_closed s))"

fun outcome :: "'a msq \<Rightarrow> 'a msq_pc \<Rightarrow> 'a msq_res \<times> 'a list \<times> bool" where
  "outcome s (MDone r) = (r, msq_abs s)"
| "outcome s (EClosed v) = push_outcome s v"
| "outcome s (EAlloc v) = push_outcome s v"
| "outcome s (EInit a v) = push_outcome s v"
| "outcome s (ELinked a b i) = (MBool True, msq_abs s)"
| "outcome s (ESwing a b) = (MBool True, msq_abs s)"
| "outcome s ECount = (MBool True, msq_abs s)"
| "outcome s (QTake m h i n j) = (MOpt (nvalue (heap s n)), msq_abs s)"
| "outcome s (QCount m h i j v) = (MOpt (Some v), msq_abs s)"
| "outcome s (QRelease m h i jo (Popped v)) = (MOpt (Some v), msq_abs s)"
| "outcome s (QReleaseN m h j (Popped v)) = (MOpt (Some v), msq_abs s)"
| "outcome s (QRetire m h v) = (MOpt (Some v), msq_abs s)"
| "outcome s MClose = (MUnit, contents s, True)"
| "outcome s MSizeLoad = (MSize (of_nat (length (contents s))), msq_abs s)"
| "outcome s MDrain = (MUnit, msq_abs s)"
| "outcome s p = (case hand p of [] \<Rightarrow> pop_outcome s | a # _ \<Rightarrow> push_outcome s (the (nvalue (heap s a))))"

definition returns :: "'a msq \<Rightarrow> 'a msq_pc \<Rightarrow> bool" where
  "returns s p \<longleftrightarrow> fst (outcome s p) = MOpt None \<longrightarrow> msq_closed s \<or> between_calls p"

definition lag :: "'a msq \<Rightarrow> nat" where
  "lag s = length (walk (heap s) (brk s) (m_tail s))"

definition tail_at_head :: "'a msq \<Rightarrow> nat" where
  "tail_at_head s = (if m_head s = m_tail s then 1 else 0)"

fun rank :: "'a msq \<Rightarrow> 'a msq_pc \<Rightarrow> nat \<times> nat \<times> nat" where
  "rank s (EClosed v) = (2, 0, 2)"
| "rank s (EAlloc v) = (2, 0, 1)"
| "rank s (EInit a v) = (2, 0, 0)"
| "rank s (EUnprotect a i) = (1, lag s, 5)"
| "rank s (ELoad a) = (1, lag s, 4)"
| "rank s (EProtect a b) = (1, lag s, 3)"
| "rank s (ECheck a b i) = (1, lag s, 2)"
| "rank s (ENext a b i) = (1, lag s, 1)"
| "rank s (EHelp a b n i) = (1, lag s, 0)"
| "rank s (ECas a b i) = (1, lag s, 0)"
| "rank s (ELinked a b i) = (0, 0, 3)"
| "rank s (ESwing a b) = (0, 0, 2)"
| "rank s ECount = (0, 0, 1)"
| "rank s (QRelease m h i jo Retry) = (1, tail_at_head s, 10)"
| "rank s (QReleaseN m h j Retry) = (1, tail_at_head s, 9)"
| "rank s QDeadline = (1, tail_at_head s, 8)"
| "rank s (QLoad m) = (1, tail_at_head s, 7)"
| "rank s (QProtect m h) = (1, tail_at_head s, 6)"
| "rank s (QCheck m h i) = (1, tail_at_head s, 5)"
| "rank s (QNext m h i) = (1, tail_at_head s, 4)"
| "rank s (QProtectN m h i n) = (1, tail_at_head s, 3)"
| "rank s (QCheckN m h i n j) = (1, tail_at_head s, 2)"
| "rank s (QTail m h i n j) = (1, tail_at_head s, 1)"
| "rank s (QHelp m h i n j) = (1, tail_at_head s, 0)"
| "rank s (QCas m h i n j) = (1, tail_at_head s, 0)"
| "rank s (QTake m h i n j) = (0, 0, 5)"
| "rank s (QCount m h i j v) = (0, 0, 4)"
| "rank s (QRelease m h i jo r) = (0, 0, 3)"
| "rank s (QReleaseN m h j r) = (0, 0, 2)"
| "rank s (QRetire m h v) = (0, 0, 1)"
| "rank s (QClosed m) = (0, 0, 1)"
| "rank s (MDone r) = (0, 0, 0)"
| "rank s _ = (0, 0, 1)"

abbreviation rank_order :: "((nat \<times> nat \<times> nat) \<times> nat \<times> nat \<times> nat) set" where
  "rank_order \<equiv> less_than <*lex*> less_than <*lex*> less_than"

text \<open>A step alone keeps the outcome and decreases the rank.\<close>

definition solo_progress :: "tid \<Rightarrow> 'a msq_pc \<Rightarrow> 'a msq \<Rightarrow> 'a msq \<Rightarrow> bool" where
  "solo_progress t p s s' \<longleftrightarrow> outcome s' (mpcs s' ! t) = outcome s p \<and> (rank s' (mpcs s' ! t), rank s p) \<in> rank_order \<and>
     (msq_closed s \<longrightarrow> msq_closed s')"

text \<open>A schedule with a lagging tail, a drain and a push that reuses a node.\<close>

definition recycling_schedule :: "(tid \<times> nat msq_act) list" where
  "recycling_schedule = (0, MCall (OpPush 1)) # replicate 10 (0, MStep) @
     (1, MCall (OpPush 2)) # replicate 8 (1, MStep) @ [(1, MSpurious), (1, MStep)] @
     (0, MCall OpPop) # replicate 13 (0, MStep) @ (0, MCall OpPop) # replicate 23 (0, MStep) @
     [(0, MCall OpDrainOther), (0, MStep)] @ (1, MCall (OpPush 3)) # replicate 11 (1, MStep) @ [(0, MCall OpSize), (0, MStep)]"


section \<open>Lemmas\<close>

lemma linked_cong: "(\<And>a. a \<in> set ns \<Longrightarrow> h' a = h a) \<Longrightarrow> linked h' ns \<longleftrightarrow> linked h ns"
  by (induction h ns rule: linked.induct) auto

lemma linked_next_None: "linked h ns \<Longrightarrow> b \<in> set ns \<Longrightarrow> nnext (h b) = None \<Longrightarrow> b = last ns"
  by (induction h ns rule: linked.induct) auto

lemma linked_next_Some: "linked h ns \<Longrightarrow> b \<in> set ns \<Longrightarrow> nnext (h b) = Some n \<Longrightarrow> n \<in> set (tl ns)"
  by (induction h ns rule: linked.induct) (auto split: if_splits)

lemma linked_append:
  assumes "linked h ns" "distinct ns" "a \<notin> set ns" "nnext (h a) = None" "nvalue (h a) \<noteq> None"
  shows "linked (h(last ns := (h (last ns))\<lparr>nnext := Some a\<rparr>)) (ns @ [a])"
  using assms by (induction h ns rule: linked.induct) auto

lemma linked_head:
  assumes "linked h ns"
  obtains (single) a where "ns = [a]" "nnext (h a) = None"
  | (more) a b ms where "ns = a # b # ms" "nnext (h a) = Some b" "nvalue (h b) \<noteq> None" "linked h (b # ms)"
  using assms by (cases "(h, ns)" rule: linked.cases) auto

lemma walk_linked: "linked h ns \<Longrightarrow> length ns \<le> Suc k \<Longrightarrow> walk h k (hd ns) = tl ns"
proof (induction k arbitrary: ns)
  case 0
  then show ?case by (cases ns) auto
next
  case (Suc k)
  from Suc.prems(1) show ?case
  proof (cases rule: linked_head)
    case (more a b ms)
    with Suc.IH [of "b # ms"] Suc.prems(2) show ?thesis by simp
  qed simp
qed

lemma seq_contents:
  assumes "seq_ok s ns p"
  shows "contents s = map (\<lambda>a. the (nvalue (heap s a))) (tl ns)"
proof -
  have "distinct ns" "set ns \<subseteq> {..<brk s}" using assms by (auto simp: seq_ok_def)
  then have "length ns \<le> brk s" by (metis card_lessThan card_mono distinct_card finite_lessThan)
  then show ?thesis using assms walk_linked [of "heap s" ns "brk s"] by (simp add: seq_ok_def contents_def)
qed

lemma free_nodes_simps [simp]:
  "free_nodes (mgoto t p s) = free_nodes s" "free_nodes (hp_unprotect t i s) = free_nodes s"
  "free_nodes (set_next a n s) = free_nodes s"
  by (simp_all add: free_nodes_def set_next_def)

lemma seq_ok_mgoto [simp]: "seq_ok (mgoto t q s) ns p = seq_ok s ns p"
proof -
  have "pc_seq (mgoto t q s) p = pc_seq s p"
    by (cases "(s, p)" rule: pc_seq.cases) (auto simp: fresh_node_def)
  then show ?thesis by (simp add: seq_ok_def)
qed

lemma mset_partition: "mset (filter P xs) + mset (filter (\<lambda>x. \<not> P x) xs) = mset xs"
  by (metis mset_filter multiset_partition)

lemma free_nodes_scanOrphaned: "mset (free_nodes (hp_scanOrphaned s)) = mset (free_nodes s)"
  using mset_partition [of "\<lambda>p. hp_isProtected p s" "orphaned s"]
  by (simp add: hp_scanOrphaned_def scan_list_eq free_nodes_def ac_simps)

lemma cancel_part:
  assumes "c' + r = c + f" "f + g = r"
  shows "g + c' = (c :: 'a multiset)"
proof -
  have "f + (g + c') = f + c" using assms by (simp add: ac_simps)
  then show ?thesis by simp
qed

lemma free_nodes_scan:
  assumes "t < length (retired s)"
  shows "mset (free_nodes (hp_scan t s)) = mset (free_nodes s)"
proof -
  let ?P = "\<lambda>p. hp_isProtected p s"
  have "mset (filter (\<lambda>p. \<not> ?P p) (retired s ! t)) + mset (concat ((retired s)[t := filter ?P (retired s ! t)])) =
      mset (concat (retired s))"
    using mset_concat_update [OF assms, of id "filter ?P (retired s ! t)"]
    by (intro cancel_part [OF _ mset_partition]) (simp only: id_apply list.map_id)
  then show ?thesis
    by (simp add: hp_scan_def scan_list_eq free_nodes_scanOrphaned) (simp add: free_nodes_def ac_simps)
qed

lemma free_nodes_retire:
  assumes "t < length (retired s)"
  shows "mset (free_nodes (hp_retire t p s)) = add_mset p (mset (free_nodes s))"
  using mset_concat_update [OF assms, of id "retired s ! t @ [p]"] assms
  by (simp add: hp_retire_def Let_def free_nodes_scan) (simp add: free_nodes_def)

lemma free_nodes_drain:
  assumes "t < length (retired s)"
  shows "mset (free_nodes (hp_drain t s)) = mset (free_nodes s)"
  using mset_concat_update [OF assms, of id "[]"]
  by (simp add: hp_drain_def free_nodes_scanOrphaned) (simp add: free_nodes_def ac_simps)

lemma retire_frame [simp]:
  "m_head (hp_retire t p s) = m_head s" "m_tail (hp_retire t p s) = m_tail s" "m_size (hp_retire t p s) = m_size s"
  "msq_closed (hp_retire t p s) = msq_closed s" "brk (hp_retire t p s) = brk s" "slots (hp_retire t p s) = slots s"
  "length (retired (hp_retire t p s)) = length (retired s)"
  by (simp_all add: hp_retire_def Let_def hp_scan_def hp_scanOrphaned_def scan_list_eq)

lemma drain_frame [simp]:
  "m_tail (hp_drain t s) = m_tail s" "m_size (hp_drain t s) = m_size s" "msq_closed (hp_drain t s) = msq_closed s"
  "slots (hp_drain t s) = slots s" "mpcs (hp_drain t s) = mpcs s" "length (retired (hp_drain t s)) = length (retired s)"
  by (simp_all add: hp_drain_def hp_scanOrphaned_def scan_list_eq)

text \<open>Steps that leave the nodes alone.\<close>

lemma pc_seq_cong:
  "heap s' = heap s \<Longrightarrow> m_head s' = m_head s \<Longrightarrow> m_tail s' = m_tail s \<Longrightarrow> msq_closed s' = msq_closed s \<Longrightarrow>
     pc_seq s' p = pc_seq s p"
  by (cases "(s, p)" rule: pc_seq.cases) (auto simp: fresh_node_def)

lemma seq_ok_frame:
  assumes "seq_ok s ns p" "heap s' = heap s" "m_head s' = m_head s" "m_tail s' = m_tail s" "brk s' = brk s"
    "msq_closed s' = msq_closed s" "m_size s' = m_size s" "free_nodes s' = free_nodes s"
    "hand p' = hand p" "ahead p' = ahead p" "pc_seq s p'"
  shows "seq_ok s' ns p'"
  using assms pc_seq_cong [of s' s p'] by (simp add: seq_ok_def)

lemma room_same: "held p' = held p \<Longrightarrow> room sl p' = room sl p"
  by (simp add: room_def)

lemma room_release:
  assumes "slot_ok sl p" "held p = i # held p'"
  shows "room (sl[i := None]) p' = room sl p"
  using assms cnt_update_add [of i sl "\<lambda>x. x = None" None] by (auto simp: slot_ok_def room_def free_slots_def)

lemma room_take:
  assumes "slot_ok sl p" "i < slotsCount" "sl ! i = None" "held p' = held p @ [i]"
  shows "room (sl[i := Some b]) p' = room sl p"
  using assms cnt_update_add [of i sl "\<lambda>x. x = None" "Some b"] by (auto simp: slot_ok_def room_def free_slots_def)

lemma seq_goto:
  assumes "seq_ok s ns p" "slot_ok (slots s ! t) p"
    and "held p' = held p" "hand p' = hand p" "ahead p' = ahead p" "pc_seq s p'" "\<not> other_throw p'"
  shows "seq_moves t p None s (mgoto t p' s)"
proof -
  have "seq_ok (mgoto t p' s) ns p'" using assms(1,4-6) by (auto intro: seq_ok_frame)
  moreover have "slot_ok (slots s ! t) p'" using slot_ok_same [OF assms(2,3)] .
  moreover have "slots s = (slots s)[t := slots s ! t]" by simp
  ultimately show ?thesis
    using assms(7) room_same [OF assms(3)] unfolding seq_moves_def
    by (intro conjI exI [of _ ns] exI [of _ p'] exI [of _ "slots s ! t"]) (auto simp: msq_abs_def contents_def)
qed

lemma seq_release:
  assumes "seq_ok s ns p" "slot_ok (slots s ! t) p"
    and "held p = i # held p'" "hand p' = hand p" "ahead p' = ahead p" "pc_seq s p'" "\<not> other_throw p'"
  shows "seq_moves t p None s (mgoto t p' (hp_unprotect t i s))"
proof -
  have "seq_ok (hp_unprotect t i s) ns p'" using assms(1,4-6) by (auto intro: seq_ok_frame)
  then show ?thesis
    using assms(7) slot_ok_release [OF assms(2,3)] room_release [OF assms(2,3)] unfolding seq_moves_def
    by (intro conjI exI [of _ ns] exI [of _ p'] exI [of _ "(slots s ! t)[i := None]"]) (auto simp: msq_abs_def contents_def)
qed

lemma seq_protect:
  assumes ok: "seq_ok s ns p" "slot_ok (slots s ! t) p" "t < length (slots s)"
    and k: "\<And>i. held (k i) = held p @ [i]" "\<And>i. hand (k i) = hand p" "\<And>i. ahead (k i) = ahead p" "ahead p = 0"
      "\<And>i. pc_seq s (k i)" "\<And>i. \<not> other_throw (k i)"
  shows "seq_moves t p None s (protect_then t fs b k s)"
proof -
  have len: "length (slots s ! t) = slotsCount" using ok(2) by (simp add: slot_ok_def)
  then show ?thesis
  proof (cases rule: protect_cases [where fs = fs and b = b])
    case (taken i s1)
    have f: "heap s1 = heap s" "m_head s1 = m_head s" "m_tail s1 = m_tail s" "brk s1 = brk s" "msq_closed s1 = msq_closed s"
        "m_size s1 = m_size s" "mpcs s1 = mpcs s"
      by (subst taken(5), simp)+
    have "free_nodes s1 = free_nodes s" using taken(6-8) by (simp add: free_nodes_def)
    with f k(2,3,5) have "seq_ok s1 ns (k i)" by (auto intro: seq_ok_frame [OF ok(1)])
    then show ?thesis
      using taken(1,4,8) f k(6) slot_ok_take [OF ok(2) taken(2,3) k(1)] room_take [OF ok(2) taken(2,3) k(1)] unfolding seq_moves_def
      by (intro conjI exI [of _ ns] exI [of _ "k i"] exI [of _ "(slots s ! t)[i := Some b]"]) (auto simp: msq_abs_def contents_def)
  next
    case (full s1)
    let ?p = "MDone (MThrow ''Stored pointers overflow'')"
    have f: "heap s1 = heap s" "m_head s1 = m_head s" "m_tail s1 = m_tail s" "brk s1 = brk s" "msq_closed s1 = msq_closed s"
        "m_size s1 = m_size s" "mpcs s1 = mpcs s"
      by (subst full(3), simp)+
    have "free_nodes s1 = free_nodes s" using full(4-6) by (simp add: free_nodes_def)
    with f k(4) ok(1) have "seq_ok s1 ns ?p" by (auto simp: seq_ok_def)
    moreover have "slot_ok (slots s ! t) ?p" using len by (simp add: slot_ok_def)
    moreover have "slots s1 = (slots s)[t := slots s ! t]" using full(2) by simp
    ultimately show ?thesis using full(1,6) f unfolding seq_moves_def
      by (intro conjI exI [of _ ns] exI [of _ ?p] exI [of _ "slots s ! t"]) (auto simp: msq_abs_def contents_def)
  qed
qed

text \<open>Steps that change nodes, ends or counter and leave the slots alone.\<close>

lemma seq_change:
  assumes "slot_ok (slots s ! t) p" "held p' = held p" "\<not> other_throw p'"
    and "seq_ok u ns' p'" "mpcs u = mpcs s" "slots u = slots s" "length (retired u) = length (retired s)"
    and "case e of None \<Rightarrow> msq_abs u = msq_abs s | Some ev \<Rightarrow> fifo_spec ev (msq_abs s) = Some (msq_abs u)"
  shows "seq_moves t p e s (mgoto t p' u)"
proof -
  have "slot_ok (slots s ! t) p'" using slot_ok_same [OF assms(1,2)] .
  moreover have "msq_abs (mgoto t p' u) = msq_abs u" by (simp add: msq_abs_def contents_def)
  moreover have "slots u = (slots s)[t := slots s ! t]" using assms(6) by simp
  ultimately show ?thesis
    using assms(3-5,7,8) room_same [OF assms(2)] unfolding seq_moves_def
    by (intro conjI exI [of _ ns'] exI [of _ p'] exI [of _ "slots s ! t"]) (auto split: option.splits)
qed

lemma seq_new_node:
  assumes ok: "seq_ok s ns (EAlloc v)"
    and u: "u = s\<lparr>heap := (heap s)(brk s := \<lparr>nvalue = Some v, nnext = None\<rparr>), brk := Suc (brk s)\<rparr>"
  shows "seq_ok u ns (ELoad (brk s))" "contents u = contents s"
proof -
  have ns: "b \<in> set ns \<Longrightarrow> b < brk s" "b \<in> set (free_nodes s) \<Longrightarrow> b < brk s" for b using ok by (auto simp: seq_ok_def)
  have "linked (heap u) ns \<longleftrightarrow> linked (heap s) ns" using ns(1) by (intro linked_cong) (auto simp: u)
  moreover have "free_nodes u = free_nodes s" by (simp add: free_nodes_def u)
  ultimately show k: "seq_ok u ns (ELoad (brk s))"
    using ok ns by (auto simp: seq_ok_def fresh_node_def less_Suc_eq u)
  have "ns \<noteq> []" using ok by (auto simp: seq_ok_def)
  then show "contents u = contents s"
    unfolding seq_contents [OF k] seq_contents [OF ok] using ns(1) by (auto simp: u dest: list.set_sel(2))
qed

lemma seq_pooled_node:
  assumes ok: "seq_ok s ns (EAlloc v)" and "pool s \<noteq> []"
  shows "seq_ok (s\<lparr>pool := butlast (pool s)\<rparr>) ns (EInit (last (pool s)) v)"
proof -
  let ?u = "s\<lparr>pool := butlast (pool s)\<rparr>"
  have "pool s = butlast (pool s) @ [last (pool s)]" using assms(2) by simp
  then have m: "mset (last (pool s) # free_nodes ?u) = mset (free_nodes s)"
    by (simp add: free_nodes_def mset_last [OF assms(2), symmetric])
  have "distinct (last (pool s) # free_nodes ?u) \<longleftrightarrow> distinct (free_nodes s)" using m by (rule mset_eq_imp_distinct_iff)
  moreover have "set (last (pool s) # free_nodes ?u) = set (free_nodes s)" using m by (rule mset_eq_setD)
  ultimately show ?thesis using ok by (auto simp: seq_ok_def)
qed

lemma seq_fill_node:
  assumes ok: "seq_ok s ns (EInit a v)" and u: "u = s\<lparr>heap := (heap s)(a := \<lparr>nvalue = Some v, nnext = None\<rparr>)\<rparr>"
  shows "seq_ok u ns (ELoad a)" "contents u = contents s"
proof -
  have ns: "a \<notin> set ns" using ok by (auto simp: seq_ok_def)
  then have "linked (heap u) ns \<longleftrightarrow> linked (heap s) ns" by (intro linked_cong) (auto simp: u)
  moreover have "free_nodes u = free_nodes s" by (simp add: free_nodes_def u)
  ultimately show k: "seq_ok u ns (ELoad a)" using ok by (auto simp: seq_ok_def fresh_node_def u)
  have "ns \<noteq> []" using ok by (auto simp: seq_ok_def)
  then show "contents u = contents s"
    unfolding seq_contents [OF k] seq_contents [OF ok] using ns by (auto simp: u dest: list.set_sel(2))
qed

text \<open>The tail moves to the successor of the node it is at.\<close>

lemma seq_move_tail:
  assumes ok: "seq_ok s ns p" and n: "b \<in> set ns" "nnext (heap s b) = Some n"
    and p': "hand p' = hand p" "ahead p' = ahead p" "pc_seq (s\<lparr>m_tail := n\<rparr>) p'"
  shows "seq_ok (s\<lparr>m_tail := n\<rparr>) ns p'"
proof -
  have "n \<in> set ns" using linked_next_Some [of "heap s" ns b n] ok n by (auto simp: seq_ok_def intro: list.set_sel(2))
  with ok p' show ?thesis by (simp add: seq_ok_def free_nodes_def)
qed

lemma seq_link:
  assumes ok: "seq_ok s ns (ECas a b i)"
  shows "seq_ok (set_next b (Some a) s) (ns @ [a]) (ELinked a b i)"
    and "contents (set_next b (Some a) s) = contents s @ [the (nvalue (heap s a))]"
proof -
  have f: "linked (heap s) ns" "distinct ns" "a \<notin> set ns" "b \<in> set ns" "nnext (heap s b) = None" "fresh_node s a" "ns \<noteq> []"
    using ok by (auto simp: seq_ok_def)
  then have b: "b = last ns" by (intro linked_next_None)
  let ?u = "set_next b (Some a) s"
  have "linked (heap ?u) (ns @ [a])"
    using linked_append [OF f(1-3)] f(6) by (simp add: set_next_def b fresh_node_def)
  then show u: "seq_ok ?u (ns @ [a]) (ELinked a b i)"
    using ok f by (cases ns) (auto simp: seq_ok_def set_next_def free_nodes_def)
  have "tl (ns @ [a]) = tl ns @ [a]" using f(7) by simp
  then show "contents ?u = contents s @ [the (nvalue (heap s a))]"
    unfolding seq_contents [OF u] seq_contents [OF ok] by (simp add: set_next_def)
qed

lemma seq_unlink:
  assumes ok: "seq_ok s ns (QCas m h i n j)"
  shows "seq_ok (s\<lparr>m_head := n\<rparr>) (tl ns) (QTake m h i n j)"
    and "contents s = the (nvalue (heap s n)) # contents (s\<lparr>m_head := n\<rparr>)" "nvalue (heap s n) \<noteq> None"
proof -
  have f: "linked (heap s) ns" "h = hd ns" "nnext (heap s h) = Some n" "m_tail s \<in> set ns" "h \<noteq> m_tail s"
    using ok by (auto simp: seq_ok_def)
  from f(1) show nv: "nvalue (heap s n) \<noteq> None" using f(2,3) by (cases rule: linked_head) auto
  from f(1) obtain ms where ms: "ns = h # n # ms" "linked (heap s) (n # ms)"
    using f(2,3) by (cases rule: linked_head) auto
  have g: "distinct (ns @ free_nodes s)" "set (ns @ free_nodes s) \<subseteq> {..<brk s}" "m_size s = of_nat (length ns - 1)"
    using ok by (auto simp: seq_ok_def)
  let ?u = "s\<lparr>m_head := n\<rparr>"
  show u: "seq_ok ?u (tl ns) (QTake m h i n j)"
    using g f(4,5) ms(2) nv unfolding ms(1) by (auto simp: seq_ok_def free_nodes_def)
  show "contents s = the (nvalue (heap s n)) # contents ?u"
    unfolding seq_contents [OF u] seq_contents [OF ok] using ms(1) by simp
qed

lemma seq_retired:
  assumes ok: "seq_ok s ns (QRetire m h v)" and t: "t < length (retired s)"
  shows "seq_ok (hp_retire t h s) ns (MDone r)"
proof -
  have m: "mset (h # free_nodes s) = mset (free_nodes (hp_retire t h s))" using free_nodes_retire [OF t] by simp
  have "distinct (h # free_nodes s) \<longleftrightarrow> distinct (free_nodes (hp_retire t h s))" using m by (rule mset_eq_imp_distinct_iff)
  moreover have "set (h # free_nodes s) = set (free_nodes (hp_retire t h s))" using m by (rule mset_eq_setD)
  ultimately show ?thesis using ok by (auto simp: seq_ok_def)
qed

lemma seq_drained:
  assumes ok: "seq_ok s ns MDrain" and t: "t < length (retired s)"
  shows "seq_ok (hp_drain t s) ns (MDone r)"
  using ok mset_eq_imp_distinct_iff [OF free_nodes_drain [OF t]] mset_eq_setD [OF free_nodes_drain [OF t]]
  by (auto simp: seq_ok_def)

lemma seq_alloc_step:
  assumes ok: "seq_ok s ns (EAlloc v)" "slot_ok (slots s ! t) (EAlloc v)" and st: "msq_emplace_step t (EAlloc v) s = Some s'"
  shows "seq_moves t (EAlloc v) None s s'"
proof (cases "pool s = []")
  case True
  let ?u = "s\<lparr>heap := (heap s)(brk s := \<lparr>nvalue = Some v, nnext = None\<rparr>), brk := Suc (brk s)\<rparr>"
  have "s' = mgoto t (ELoad (brk s)) ?u" using st True by (simp add: hp_allocate_def)
  with seq_new_node [OF ok(1) refl] ok(2) show ?thesis
    by (auto intro!: seq_change [where ns' = ns] simp: msq_abs_def)
next
  case False
  let ?u = "s\<lparr>pool := butlast (pool s)\<rparr>"
  have "s' = mgoto t (EInit (last (pool s)) v) ?u" using st False by (simp add: hp_allocate_def)
  with seq_pooled_node [OF ok(1) False] ok(2) show ?thesis
    by (auto intro!: seq_change [where ns' = ns] simp: msq_abs_def contents_def)
qed

lemma seq_emplace_step:
  assumes ok: "seq_ok s ns p" "slot_ok (slots s ! t) p" "t < length (slots s)" and st: "msq_emplace_step t p s = Some s'"
  shows "seq_moves t p (seq_lin_step t p s) s s'"
proof -
  have tl: "m_tail s \<in> set ns" and pc: "pc_seq s p" using ok(1) by (auto simp: seq_ok_def)
  show ?thesis
  proof (cases p)
    case (EClosed v)
    then show ?thesis
      using ok st seq_goto [OF ok(1,2), of "EAlloc v"]
      by (cases "msq_closed s") (auto intro!: seq_change [where ns' = ns] seq_ok_frame [OF ok(1)] simp: msq_abs_def)
  next
    case (EAlloc v)
    with ok st seq_alloc_step [of s ns v t s'] show ?thesis by simp
  next
    case (EInit a v)
    with seq_fill_node [of s ns a v, OF _ refl] ok st show ?thesis
      by (auto intro!: seq_change [where ns' = ns] simp: msq_abs_def)
  next
    case (ELoad a)
    with seq_goto [OF ok(1,2), of "EProtect a (m_tail s)"] pc st show ?thesis by simp
  next
    case (EProtect a b)
    with seq_protect [OF ok, of "ECheck a b" "[]" b] pc st show ?thesis by (simp del: protect_then.simps)
  next
    case (ECheck a b i)
    with seq_goto [OF ok(1,2), of "ENext a b i"] pc st show ?thesis by simp
  next
    case (ENext a b i)
    with seq_goto [OF ok(1,2)] pc st show ?thesis by (cases "nnext (heap s b)") auto
  next
    case (EHelp a b n i)
    with seq_move_tail [OF ok(1) tl, of n "EUnprotect a i"] pc st ok(2) show ?thesis
      by (auto intro!: seq_change [where ns' = ns] simp: msq_abs_def contents_def fresh_node_def)
  next
    case (ECas a b i)
    with seq_link [of s ns a b i] pc st ok show ?thesis
      by (auto intro!: seq_change [where ns' = "ns @ [a]"] simp: msq_abs_def fresh_node_def) (simp_all add: set_next_def)
  next
    case (EUnprotect a i)
    with seq_release [OF ok(1,2), of i "ELoad a"] pc st show ?thesis by simp
  next
    case (ELinked a b i)
    with seq_release [OF ok(1,2), of i "ESwing a b"] pc st show ?thesis by auto
  next
    case (ESwing a b)
    with seq_move_tail [OF ok(1) tl, of a ECount] pc st ok(2) show ?thesis
      by (auto intro!: seq_change [where ns' = ns] simp: msq_abs_def contents_def)
  next
    case ECount
    with st ok show ?thesis
      by (auto intro!: seq_change [where ns' = ns] simp: msq_abs_def contents_def seq_ok_def free_nodes_def)
  qed (use st in auto)
qed

lemma seq_empty:
  assumes "seq_ok s ns p" "nnext (heap s (m_head s)) = None"
  shows "contents s = []"
proof -
  have f: "linked (heap s) ns" "m_head s = hd ns" using assms(1) by (auto simp: seq_ok_def)
  from f(1) have "tl ns = []" using f(2) assms(2) by (cases rule: linked_head) auto
  then show ?thesis by (simp add: seq_contents [OF assms(1)])
qed

lemma seq_after_try:
  "hand (after_try m h r) = hand (QReleaseN m h j r)" "ahead (after_try m h r) = 0" "held (after_try m h r) = []"
  "\<not> other_throw (after_try m h r)" "pc_seq s (QReleaseN m h j r) \<Longrightarrow> pc_seq s (after_try m h r)"
  by (cases r; cases m; simp)+

lemma seq_tryPop_step:
  assumes ok: "seq_ok s ns p" "slot_ok (slots s ! t) p" "t < length (slots s)" "t < length (retired s)"
    and st: "tryPop_step t p s = Some s'"
  shows "seq_moves t p (seq_lin_step t p s) s s'"
proof -
  have tl: "m_tail s \<in> set ns" "m_head s \<in> set ns" and pc: "pc_seq s p"
    using ok(1) by (auto simp: seq_ok_def intro!: list.set_sel(1))
  show ?thesis
  proof (cases p)
    case QDeadline
    with seq_goto [OF ok(1,2), of "QLoad ForTimeoutPop"] st show ?thesis by simp
  next
    case (QLoad m)
    with seq_goto [OF ok(1,2), of "QProtect m (m_head s)"] st show ?thesis by simp
  next
    case (QProtect m h)
    with seq_protect [OF ok(1-3), of "QCheck m h" "[]" h] pc st show ?thesis by (simp del: protect_then.simps)
  next
    case (QCheck m h i)
    with seq_goto [OF ok(1,2), of "QNext m h i"] pc st show ?thesis by simp
  next
    case (QNext m h i)
    with seq_goto [OF ok(1,2)] pc st show ?thesis by (cases "nnext (heap s h)") auto
  next
    case (QProtectN m h i n)
    with seq_protect [OF ok(1-3), of "QCheckN m h i n" "[]" n] pc st show ?thesis by (auto simp del: protect_then.simps)
  next
    case (QCheckN m h i n j)
    with seq_goto [OF ok(1,2), of "QTail m h i n j"] pc st show ?thesis by auto
  next
    case (QTail m h i n j)
    with seq_goto [OF ok(1,2)] pc st show ?thesis by (auto split: if_splits)
  next
    case (QHelp m h i n j)
    with seq_move_tail [OF ok(1) tl(2), of n "QRelease m h i (Some j) Retry"] pc st ok(2)
    show ?thesis by (auto intro!: seq_change [where ns' = ns] simp: msq_abs_def contents_def)
  next
    case (QCas m h i n j)
    with seq_unlink [of s ns m h i n j] pc st ok show ?thesis
      by (auto intro!: seq_change [where ns' = "tl ns"] simp: msq_abs_def)
  next
    case (QTake m h i n j)
    with seq_goto [OF ok(1,2)] pc st show ?thesis by auto
  next
    case (QCount m h i j v)
    with st ok show ?thesis
      by (auto intro!: seq_change [where ns' = ns] simp: msq_abs_def contents_def seq_ok_def free_nodes_def)
  next
    case (QRelease m h i jo r)
    show ?thesis
    proof (cases jo)
      case None
      have "hand (after_try m h r) = hand p" "pc_seq s (after_try m h r)"
        using QRelease pc seq_after_try(1,5) [where h = h and j = i and r = r] by (cases r; simp)+
      with None QRelease seq_release [OF ok(1,2), of i "after_try m h r"] st show ?thesis by (simp add: seq_after_try(2-4))
    next
      case (Some j)
      have "hand (QReleaseN m h j r) = hand p" "pc_seq s (QReleaseN m h j r)" using QRelease pc by (cases r; simp)+
      with Some QRelease seq_release [OF ok(1,2), of i "QReleaseN m h j r"] st show ?thesis by simp
    qed
  next
    case (QReleaseN m h j r)
    with seq_release [OF ok(1,2), of j "after_try m h r"] pc st seq_after_try(1) [of m h r j] seq_after_try(5) [of s m h j r]
    show ?thesis by (simp add: seq_after_try(2-4))
  next
    case (QRetire m h v)
    with seq_retired [of s ns m h v t] ok st show ?thesis
      by (auto intro!: seq_change [where ns' = ns] simp: msq_abs_def contents_def)
  next
    case (QClosed m)
    with pc have "nnext (heap s (m_head s)) = None" by simp
    then have e: "msq_abs s = ([], msq_closed s)" using seq_empty [OF ok(1)] by (simp add: msq_abs_def)
    show ?thesis
    proof (cases "msq_closed s")
      case True
      then have "seq_ok s ns (MDone (MOpt None))" using QClosed by (auto intro: seq_ok_frame [OF ok(1)])
      with True e QClosed st ok(2) show ?thesis by (auto intro!: seq_change [where ns' = ns])
    next
      case False
      with QClosed seq_goto [OF ok(1,2), of "again m"] st show ?thesis by (cases m) auto
    qed
  qed (use st in auto)
qed

lemma seq_step:
  assumes ok: "seq_ok s ns p" "slot_ok (slots s ! t) p" "t < length (slots s)" "t < length (retired s)"
    and st: "msq_step t p s = Some s'"
  shows "seq_moves t p (seq_lin_step t p s) s s'"
proof (cases "p \<in> {MClose, MSizeLoad, MDrain} \<or> between_calls p")
  case False
  then have "msq_emplace_step t p s = Some s' \<or> tryPop_step t p s = Some s'"
    using st by (cases p) (auto split: option.splits)
  with seq_emplace_step [OF ok(1-3)] seq_tryPop_step [OF ok] show ?thesis by blast
next
  case True
  then consider "p = MClose" | "p = MSizeLoad" | "p = MDrain" using st by (cases p) auto
  then show ?thesis
  proof cases
    case 1
    with st ok show ?thesis
      by (auto intro!: seq_change [where ns' = ns] simp: msq_abs_def contents_def seq_ok_def free_nodes_def)
  next
    case 2
    have "length (contents s) = length ns - 1" using seq_contents [OF ok(1)] by simp
    with 2 st ok show ?thesis
      by (auto intro!: seq_change [where ns' = ns] simp: msq_abs_def seq_ok_def)
  next
    case 3
    with st ok seq_drained [of s ns t] show ?thesis
      by (auto intro!: seq_change [where ns' = ns] simp: msq_abs_def contents_def)
  qed
qed

lemma alone_iff: "alone t s \<longleftrightarrow> (\<forall>u < length (mpcs s). u \<noteq> t \<longrightarrow> between_calls (mpcs s ! u))"
  by (auto simp: alone_def list_all_iff)

lemma alone_update: "alone t s \<Longrightarrow> mpcs s' = (mpcs s)[t := p] \<Longrightarrow> alone t s'"
  by (simp add: alone_iff)

text \<open>Between calls the last one to run has left a state that any thread can start from.\<close>

lemma seq_inv_ok:
  assumes inv: "seq_inv s" and t: "t < length (mpcs s)" "alone t s"
  obtains ns where "seq_ok s ns (mpcs s ! t)"
proof -
  have idle: "seq_ok s ns p \<Longrightarrow> between_calls p \<Longrightarrow> between_calls q \<Longrightarrow> seq_ok s ns q" for ns p q
    by (cases p; cases q) (auto intro: seq_ok_frame)
  have others: "between_calls (mpcs s ! v)" if "alone u s" "v < length (mpcs s)" "v \<noteq> u" for u v
    using that by (simp add: alone_iff)
  from inv consider ns where "list_all between_calls (mpcs s)" "seq_ok s ns (MDone MUnit)"
    | ns u where "u < length (mpcs s)" "alone u s" "seq_ok s ns (mpcs s ! u)"
    by (auto simp: seq_inv_def)
  then show thesis
  proof cases
    case 1
    with t(1) idle [of ns "MDone MUnit" "mpcs s ! t"] that show thesis by (auto simp: list_all_length)
  next
    case 2
    with t others [of u t] others [of t u] idle [of ns "mpcs s ! u" "mpcs s ! t"] that show thesis by (cases "u = t") auto
  qed
qed

lemma seq_inv_moves:
  assumes inv: "seq_inv s" and t: "t < length (mpcs s)" "alone t s" and m: "seq_moves t q e s s'"
  shows "seq_inv s'"
proof -
  from m obtain ns p sl where u: "mpcs s' = (mpcs s)[t := p]" "slots s' = (slots s)[t := sl]" "slot_ok sl p" "\<not> other_throw p"
    "seq_ok s' ns p" "length (retired s') = length (retired s)"
    by (auto simp: seq_moves_def)
  have "alone t s'" using alone_update [OF t(2) u(1)] .
  then have "\<exists>v < length (mpcs s'). alone v s' \<and> seq_ok s' ns (mpcs s' ! v)" using t(1) u(1,5) by auto
  moreover have "slot_ok (slots s' ! v) (mpcs s' ! v) \<and> \<not> other_throw (mpcs s' ! v)" if "v < length (mpcs s)" for v
    using inv that u(1-4) t(1) by (cases "v = t") (auto simp: seq_inv_def)
  ultimately show ?thesis using inv u(1,2,6) by (auto simp: seq_inv_def)
qed

text \<open>A call, a spurious failure and an elapsed deadline are quiet steps.\<close>

lemma seq_other_acts:
  assumes ok: "seq_ok s ns p" "slot_ok (slots s ! t) p"
  shows "between_calls p \<Longrightarrow> seq_moves t p None s (mgoto t (msq_call oper) s)"
    and "spurious_pc p = Some q \<Longrightarrow> seq_moves t p None s (mgoto t q s)"
    and "p = QDeadline \<Longrightarrow> seq_moves t p None s (mgoto t (MDone (MOpt None)) s)"
proof -
  have pc: "pc_seq s p" using ok(1) by (simp add: seq_ok_def)
  show "between_calls p \<Longrightarrow> seq_moves t p None s (mgoto t (msq_call oper) s)"
    by (rule seq_goto [OF ok]) (cases p; cases oper; simp)+
  show "spurious_pc p = Some q \<Longrightarrow> seq_moves t p None s (mgoto t q s)"
    using pc by (intro seq_goto [OF ok]) (cases p; auto)+
  show "p = QDeadline \<Longrightarrow> seq_moves t p None s (mgoto t (MDone (MOpt None)) s)" by (rule seq_goto [OF ok]) simp_all
qed

lemma seq_weak:
  assumes ok: "seq_ok s ns p" "slot_ok (slots s ! t) p" "t < length (slots s)" and w: "weak_protect t fs p s = Some s'"
  shows "seq_moves t p None s s'"
proof -
  have pc: "pc_seq s p" using ok(1) by (simp add: seq_ok_def)
  show ?thesis
  proof (cases p)
    case (EProtect a b)
    with seq_protect [OF ok, of "ECheck a b" fs b] pc w show ?thesis by (simp del: protect_then.simps)
  next
    case (QProtect m h)
    with seq_protect [OF ok, of "QCheck m h" fs h] pc w show ?thesis by (simp del: protect_then.simps)
  next
    case (QProtectN m h i n)
    with seq_protect [OF ok, of "QCheckN m h i n" fs n] pc w show ?thesis by (auto simp del: protect_then.simps)
  qed (use w in simp_all)
qed

lemma seq_exec_moves:
  assumes inv: "seq_inv s" and ex: "msq_exec_seq (t, a) s = Some s'"
  shows "t < length (mpcs s)" "alone t s" "seq_moves t (mpcs s ! t) (msq_lin_seq (t, a) s) s s'"
proof -
  show t: "t < length (mpcs s)" "alone t s" using ex by (auto simp: msq_exec_seq_def split: if_splits)
  obtain ns where ok: "seq_ok s ns (mpcs s ! t)" using seq_inv_ok [OF inv t] .
  have sl: "slot_ok (slots s ! t) (mpcs s ! t)" "t < length (slots s)" "t < length (retired s)"
    using inv t(1) by (auto simp: seq_inv_def)
  show "seq_moves t (mpcs s ! t) (msq_lin_seq (t, a) s) s s'"
  proof (cases a)
    case (MWeak fs)
    with ex t have "weak_protect t fs (mpcs s ! t) s = Some s'" by (simp add: msq_exec_seq_def)
    with MWeak seq_weak [OF ok sl(1,2)] show ?thesis by simp
  qed (use ex t seq_other_acts [OF ok sl(1)] seq_step [OF ok sl] in \<open>auto simp: msq_exec_seq_def split: msq_pc.splits\<close>)
qed

lemma seq_inv_new: "seq_inv (msq_new n)"
proof -
  have "seq_ok (msq_new n) [0] (MDone MUnit)" by (simp add: seq_ok_def msq_new_def free_nodes_def empty_node_def)
  moreover have "list_all between_calls (mpcs (msq_new n))" by (simp add: msq_new_def list_all_iff)
  moreover have "slot_ok (replicate slotsCount None) (MDone MUnit)" by (simp add: slot_ok_def)
  ultimately show ?thesis by (auto simp: seq_inv_def) (auto simp: msq_new_def)
qed

lemma seq_inv_exec: "seq_inv s \<Longrightarrow> msq_exec_seq a s = Some s' \<Longrightarrow> seq_inv s'"
  by (cases a) (blast intro: seq_inv_moves seq_exec_moves)

interpretation sq: linearization msq_init msq_exec_seq seq_inv msq_abs msq_lin_seq fifo_spec
proof (unfold_locales, goal_cases)
  case (1 s)
  then show ?case by (auto simp: msq_init_def seq_inv_new)
next
  case (2 s a s')
  then show ?case by (rule seq_inv_exec)
next
  case (3 s a s')
  then show ?case using seq_exec_moves(3) [of s "fst a" "snd a" s'] by (simp add: seq_moves_def)
next
  case (4 s a s' e)
  then show ?case using seq_exec_moves(3) [of s "fst a" "snd a" s'] by (simp add: seq_moves_def)
qed

subsection \<open>Calls that run alone\<close>

lemma linked_suffix: "linked h (xs @ b # ys) \<Longrightarrow> linked h (b # ys)"
  by (induction xs rule: induct_list012) (auto split: list.splits)

lemma lag_next:
  assumes ok: "seq_ok s ns p" and n: "nnext (heap s (m_tail s)) = Some n"
  shows "lag (s\<lparr>m_tail := n\<rparr>) < lag s"
proof -
  obtain xs ys where ns: "ns = xs @ m_tail s # ys" using ok by (auto simp: seq_ok_def dest!: split_list)
  have l: "linked (heap s) (m_tail s # ys)" using ok by (auto simp: seq_ok_def ns intro: linked_suffix)
  have "distinct ns" "set ns \<subseteq> {..<brk s}" using ok by (auto simp: seq_ok_def)
  then have "length ns \<le> brk s" by (metis card_lessThan card_mono distinct_card finite_lessThan)
  then have b: "length ys < brk s" by (simp add: ns)
  from l obtain zs where zs: "ys = n # zs" "linked (heap s) (n # zs)" using n by (cases rule: linked_head) auto
  have "lag s = length ys" using walk_linked [OF l, of "brk s"] b by (simp add: lag_def)
  moreover have "lag (s\<lparr>m_tail := n\<rparr>) = length zs" using walk_linked [OF zs(2), of "brk s"] b zs(1) by (simp add: lag_def)
  ultimately show ?thesis using zs(1) by simp
qed

lemma solo_frame:
  assumes "heap s' = heap s" "m_head s' = m_head s" "brk s' = brk s" "msq_closed s' = msq_closed s"
  shows "contents s' = contents s" "msq_abs s' = msq_abs s" "push_outcome s' v = push_outcome s v" "pop_outcome s' = pop_outcome s"
proof -
  show c: "contents s' = contents s" and a: "msq_abs s' = msq_abs s" using assms by (simp_all add: contents_def msq_abs_def)
  show "push_outcome s' v = push_outcome s v" "pop_outcome s' = pop_outcome s"
    using assms(4) by (simp_all add: push_outcome_def pop_outcome_def c a split: list.split)
qed

lemma solo_mgoto [simp]:
  "contents (mgoto t p s) = contents s" "msq_abs (mgoto t p s) = msq_abs s" "push_outcome (mgoto t p s) v = push_outcome s v"
  "pop_outcome (mgoto t p s) = pop_outcome s" "lag (mgoto t p s) = lag s" "tail_at_head (mgoto t p s) = tail_at_head s"
  by (rule solo_frame; simp)+ (simp_all add: lag_def tail_at_head_def)

lemma solo_unprotect [simp]:
  "contents (hp_unprotect t i s) = contents s" "msq_abs (hp_unprotect t i s) = msq_abs s"
  "push_outcome (hp_unprotect t i s) v = push_outcome s v" "pop_outcome (hp_unprotect t i s) = pop_outcome s"
  "lag (hp_unprotect t i s) = lag s" "tail_at_head (hp_unprotect t i s) = tail_at_head s"
  by (rule solo_frame; simp)+ (simp_all add: lag_def tail_at_head_def)

lemma solo_tail [simp]:
  "contents (s\<lparr>m_tail := b\<rparr>) = contents s" "msq_abs (s\<lparr>m_tail := b\<rparr>) = msq_abs s"
  "push_outcome (s\<lparr>m_tail := b\<rparr>) v = push_outcome s v" "pop_outcome (s\<lparr>m_tail := b\<rparr>) = pop_outcome s"
  by (rule solo_frame; simp)+

lemma solo_done [simp]:
  "msq_abs (s\<lparr>m_size := n\<rparr>) = msq_abs s" "msq_abs (hp_retire t h s) = msq_abs s" "msq_abs (hp_drain t s) = msq_abs s"
  by (simp_all add: contents_def msq_abs_def)

lemma outcome_frame:
  assumes "heap s' = heap s" "m_head s' = m_head s" "brk s' = brk s" "msq_closed s' = msq_closed s"
  shows "outcome s' p = outcome s p"
  using solo_frame [OF assms] assms(1) by (cases "(s, p)" rule: outcome.cases) simp_all

lemma rank_frame:
  assumes "heap s' = heap s" "m_head s' = m_head s" "brk s' = brk s" "m_tail s' = m_tail s"
  shows "rank s' p = rank s p"
  using assms by (cases "(s, p)" rule: rank.cases) (simp_all add: lag_def tail_at_head_def)

lemma solo_protect:
  assumes "slot_ok (slots s ! t) p" "t < length (slots s)" "t < length (mpcs s)" "2 \<le> room (slots s ! t) p" "length (held p) \<le> 1"
    and k: "\<And>i. outcome s (k i) = outcome s p" "\<And>i. (rank s (k i), rank s p) \<in> rank_order"
  shows "solo_progress t p s (protect_then t [] b k s)"
proof -
  have "length (slots s ! t) = slotsCount" using assms(1) by (simp add: slot_ok_def)
  then show ?thesis
  proof (cases rule: protect_cases [where fs = "[]" and b = b])
    case (taken i s1)
    have f: "heap s1 = heap s" "m_head s1 = m_head s" "brk s1 = brk s" "msq_closed s1 = msq_closed s" "m_tail s1 = m_tail s"
        "mpcs s1 = mpcs s"
      by (subst taken(5), simp)+
    let ?u = "mgoto t (k i) s1"
    have "outcome ?u (k i) = outcome s p" using f k(1) by (subst outcome_frame [of _ s]) simp_all
    moreover have "(rank ?u (k i), rank s p) \<in> rank_order" using f k(2) by (subst rank_frame [of _ s]) simp_all
    ultimately show ?thesis using taken(1) f assms(3) by (simp add: solo_progress_def)
  next
    case (full s1)
    then have "None \<notin> set (slots s ! t)" by (simp add: weak_free_None)
    then have "free_slots (slots s ! t) = 0" unfolding free_slots_def cnt_zero_iff by metis
    with assms(4,5) show ?thesis by (simp add: room_def)
  qed
qed

lemma solo_emplace_step:
  assumes ok: "seq_ok s ns p" "slot_ok (slots s ! t) p" "t < length (slots s)" "t < length (mpcs s)"
    and st: "msq_emplace_step t p s = Some s'" and room: "2 \<le> room (slots s ! t) p"
  shows "solo_progress t p s s'"
proof (cases p)
  case (EAlloc v)
  show ?thesis
  proof (cases "pool s = []")
    case True
    with EAlloc st ok seq_new_node(2) [of s ns v, OF _ refl] show ?thesis
      by (auto simp: solo_progress_def hp_allocate_def push_outcome_def msq_abs_def)
  next
    case False
    with EAlloc st ok show ?thesis
      by (auto simp: solo_progress_def hp_allocate_def push_outcome_def msq_abs_def contents_def)
  qed
next
  case (EInit a v)
  with st ok seq_fill_node(2) [of s ns a v, OF _ refl] show ?thesis by (auto simp: solo_progress_def push_outcome_def msq_abs_def)
next
  case (EProtect a b)
  with solo_protect [OF ok(2-4) room, of "ECheck a b" b] st show ?thesis by (simp del: protect_then.simps)
next
  case (ENext a b i)
  with st ok show ?thesis by (auto simp: solo_progress_def split: option.splits)
next
  case (EHelp a b n i)
  then have "nnext (heap s (m_tail s)) = Some n" "b = m_tail s" using ok(1) by (auto simp: seq_ok_def)
  with EHelp st ok lag_next [OF ok(1), of n] show ?thesis by (auto simp: solo_progress_def)
next
  case (ECas a b i)
  let ?u = "set_next b (Some a) s"
  have n: "nnext (heap s b) = None" "\<not> msq_closed s" using ok(1) ECas by (auto simp: seq_ok_def fresh_node_def)
  have u: "msq_closed ?u = msq_closed s" "mpcs ?u = mpcs s" by (simp_all add: set_next_def)
  have "contents ?u = contents s @ [the (nvalue (heap s a))]" using seq_link(2) ok(1) ECas by blast
  then have "msq_abs ?u = (contents s @ [the (nvalue (heap s a))], msq_closed s)" using u(1) by (simp add: msq_abs_def)
  moreover have "s' = mgoto t (ELinked a b i) ?u" using ECas st n by simp
  ultimately show ?thesis using ECas ok(4) n u by (simp add: solo_progress_def push_outcome_def)
qed (use st ok in \<open>auto simp: solo_progress_def seq_ok_def fresh_node_def push_outcome_def\<close>)

lemma seq_next_other:
  assumes "seq_ok s ns p" "nnext (heap s (m_head s)) = Some n"
  shows "n \<noteq> m_head s" "contents s \<noteq> []"
proof -
  have f: "linked (heap s) ns" "m_head s = hd ns" "distinct ns" using assms(1) by (auto simp: seq_ok_def)
  from f(1) obtain ms where "ns = m_head s # n # ms" using f(2) assms(2) by (cases rule: linked_head) auto
  with f(3) seq_contents [OF assms(1)] show "n \<noteq> m_head s" "contents s \<noteq> []" by auto
qed

lemma solo_tryPop_step:
  assumes ok: "seq_ok s ns p" "slot_ok (slots s ! t) p" "t < length (slots s)" "t < length (mpcs s)"
    and st: "tryPop_step t p s = Some s'" and ret: "returns s p" and room: "2 \<le> room (slots s ! t) p"
  shows "solo_progress t p s s'"
proof (cases p)
  case (QProtect m h)
  with solo_protect [OF ok(2-4) room, of "QCheck m h" h] st show ?thesis by (simp del: protect_then.simps)
next
  case (QProtectN m h i n)
  with solo_protect [OF ok(2-4) room, of "QCheckN m h i n" n] st show ?thesis by (simp del: protect_then.simps)
next
  case (QNext m h i)
  with st ok show ?thesis by (auto simp: solo_progress_def split: option.splits)
next
  case (QHelp m h i n j)
  then have "nnext (heap s (m_head s)) = Some n" "h = m_head s" "m_tail s = m_head s" using ok(1) by (auto simp: seq_ok_def)
  with QHelp st ok seq_next_other(1) [OF ok(1), of n] show ?thesis by (auto simp: solo_progress_def tail_at_head_def)
next
  case (QCas m h i n j)
  let ?u = "s\<lparr>m_head := n\<rparr>"
  have c: "contents s = the (nvalue (heap s n)) # contents ?u" "nvalue (heap s n) \<noteq> None"
    using seq_unlink(2,3) ok(1) QCas by blast+
  have "m_head s = h" using ok(1) QCas by (auto simp: seq_ok_def)
  then have "s' = mgoto t (QTake m h i n j) ?u" using QCas st by simp
  with QCas ok(4) c show ?thesis by (auto simp: solo_progress_def pop_outcome_def msq_abs_def)
next
  case (QTake m h i n j)
  with st ok show ?thesis by (auto simp: solo_progress_def seq_ok_def)
next
  case (QRelease m h i jo r)
  with st ok(4) show ?thesis by (cases jo; cases r; cases m) (auto simp: solo_progress_def)
next
  case (QReleaseN m h j r)
  with st ok(4) show ?thesis by (cases r; cases m) (auto simp: solo_progress_def)
next
  case (QClosed m)
  moreover have "pc_seq s p" using ok(1) by (simp add: seq_ok_def)
  ultimately have "contents s = []" by (intro seq_empty [OF ok(1)]) simp
  then have o: "pop_outcome s = (MOpt None, msq_abs s)" by (simp add: pop_outcome_def)
  then have "msq_closed s" using ret QClosed by (simp add: returns_def)
  with o QClosed st ok(4) show ?thesis by (auto simp: solo_progress_def)
qed (use st ok in \<open>auto simp: solo_progress_def seq_ok_def split: if_splits\<close>)

lemma msq_step_enabled: "\<not> between_calls p \<Longrightarrow> \<exists>s'. msq_step t p s = Some s'"
proof (cases p)
  case (QRelease m h i jo r)
  then show ?thesis by (cases jo) simp_all
qed (auto split: option.splits prod.splits)

lemma solo_step:
  assumes ok: "seq_ok s ns p" "slot_ok (slots s ! t) p" "t < length (slots s)" "t < length (mpcs s)"
    and st: "msq_step t p s = Some s'" and ret: "returns s p" and room: "2 \<le> room (slots s ! t) p"
  shows "solo_progress t p s s'"
proof (cases "p \<in> {MClose, MSizeLoad, MDrain} \<or> between_calls p")
  case False
  then have "msq_emplace_step t p s = Some s' \<or> tryPop_step t p s = Some s'"
    using st by (cases p) (auto split: option.splits)
  with solo_emplace_step [OF ok _ room] solo_tryPop_step [OF ok _ ret room] show ?thesis by blast
next
  case True
  have "length (contents s) = length ns - 1" using seq_contents [OF ok(1)] by simp
  with True st ok show ?thesis
    by (cases p) (auto simp: solo_progress_def seq_ok_def msq_abs_def contents_def)
qed

lemma rank_wf: "wf rank_order"
  by (intro wf_lex_prod wf_less_than)

text \<open>A call that runs alone, without spurious failures and with two slots to use, returns with its outcome.\<close>

lemma solo_run:
  assumes "seq_inv s" "t < length (mpcs s)" "alone t s" "returns s (mpcs s ! t)" "2 \<le> room (slots s ! t) (mpcs s ! t)"
    "\<And>e. fst (outcome s (mpcs s ! t)) \<noteq> MThrow e"
  shows "\<exists>k s' r. run msq_exec_seq (replicate k (t, MStep)) s = Some s' \<and> mpcs s' = (mpcs s)[t := MDone r] \<and>
    (r, msq_abs s') = outcome s (mpcs s ! t) \<and> free_slots (slots s' ! t) = room (slots s ! t) (mpcs s ! t)"
  using assms
proof (induction "rank s (mpcs s ! t)" arbitrary: s rule: wf_induct_rule [OF rank_wf])
  case (1 s)
  let ?p = "mpcs s ! t"
  obtain ns where ok: "seq_ok s ns ?p" using seq_inv_ok [OF 1(2-4)] .
  have sl: "slot_ok (slots s ! t) ?p" "t < length (slots s)" using 1(2,3) by (auto simp: seq_inv_def)
  show ?case
  proof (cases "between_calls ?p")
    case True
    then obtain r where r: "?p = MDone r" by (cases ?p) auto
    then have "mpcs s = (mpcs s)[t := MDone r]" by (metis list_update_id)
    with r show ?thesis by (intro exI [of _ 0] exI [of _ s] exI [of _ r]) (simp add: room_def)
  next
    case False
    then obtain u where u: "msq_step t ?p s = Some u" using msq_step_enabled by blast
    then have ex: "msq_exec_seq (t, MStep) s = Some u" using 1(3,4) by (simp add: msq_exec_seq_def)
    have pr: "solo_progress t ?p s u" using solo_step [OF ok sl 1(3) u 1(5,6)] .
    then have o: "outcome u (mpcs u ! t) = outcome s ?p" and rk: "(rank u (mpcs u ! t), rank s ?p) \<in> rank_order"
      by (auto simp: solo_progress_def)
    have ret: "returns u (mpcs u ! t)" using 1(5) False pr by (auto simp: returns_def solo_progress_def)
    obtain q x where m: "mpcs u = (mpcs s)[t := q]" "slots u = (slots s)[t := x]" "thrown q \<or> room x q = room (slots s ! t) ?p"
      using seq_exec_moves(3) [OF 1(2) ex] by (auto simp: seq_moves_def)
    have t: "t < length (mpcs u)" "alone t u" using 1(3) m(1) alone_update [OF 1(4) m(1)] by auto
    have nt: "fst (outcome u (mpcs u ! t)) \<noteq> MThrow e" for e using 1(7) o by simp
    have "mpcs u ! t = q" "slots u ! t = x" using m(1,2) 1(3) sl(2) by simp_all
    moreover have "\<not> thrown q" using nt \<open>mpcs u ! t = q\<close> by (cases q rule: thrown.cases) auto
    ultimately have eq: "room (slots u ! t) (mpcs u ! t) = room (slots s ! t) ?p" using m(3) by simp
    then have rm: "2 \<le> room (slots u ! t) (mpcs u ! t)" using 1(6) by simp
    from 1(1) [OF rk seq_inv_exec [OF 1(2) ex] t ret rm nt] obtain k s' r where
      k: "run msq_exec_seq (replicate k (t, MStep)) u = Some s'" "mpcs s' = (mpcs u)[t := MDone r]" "(r, msq_abs s') = outcome s ?p"
      "free_slots (slots s' ! t) = room (slots s ! t) ?p"
      unfolding o eq by blast
    with ex m show ?thesis by (intro exI [of _ "Suc k"] exI [of _ s'] exI [of _ r]) simp
  qed
qed

lemma call_outcome:
  assumes "atomic_op oper (msq_abs s) = Some (r, qc)"
  shows "outcome s (msq_call oper) = (r, qc)" "returns s (msq_call oper)" "r \<noteq> MThrow e"
proof -
  show o: "outcome s (msq_call oper) = (r, qc)"
    using assms by (cases oper) (auto simp: msq_abs_def push_outcome_def pop_outcome_def split: list.splits if_splits)
  show "returns s (msq_call oper)"
    using assms unfolding returns_def o
    by (cases oper) (auto simp: msq_abs_def split: list.splits if_splits)
  show "r \<noteq> MThrow e" using assms by (cases oper) (auto simp: msq_abs_def split: list.splits if_splits)
qed

section \<open>Properties\<close>



text \<open>C24. A method called while no other call is in progress returns, and does what the single transition says:
  from every state such calls reach, for any thread with two free slots, if the transition is enabled (a pop needs
  an element or a closed queue), some number of steps of that thread alone, none of them a spurious failure,
  completes the call with the result of the transition and its effect on the list, and gives back the slots it took.\<close>

theorem msq_calls_alone:
  assumes "reachable msq_init msq_exec_seq s" "list_all between_calls (mpcs s)" "t < length (mpcs s)"
    and "2 \<le> free_slots (slots s ! t)" "atomic_op oper (msq_abs s) = Some (r, qc)"
  shows "\<exists>k s'. run msq_exec_seq ((t, MCall oper) # replicate k (t, MStep)) s = Some s' \<and>
    mpcs s' = (mpcs s)[t := MDone r] \<and> msq_abs s' = qc \<and> free_slots (slots s' ! t) = free_slots (slots s ! t)"
proof -
  have inv: "seq_inv s" using sq.reachable_inv [OF assms(1)] .
  have a: "alone t s" using assms(2) by (auto simp: alone_iff list_all_length)
  let ?u = "mgoto t (msq_call oper) s"
  have "between_calls (mpcs s ! t)" using assms(2,3) by (simp add: list_all_length)
  then obtain r0 where "mpcs s ! t = MDone r0" by (cases "mpcs s ! t") auto
  then have ex: "msq_exec_seq (t, MCall oper) s = Some ?u" using a assms(3) by (simp add: msq_exec_seq_def)
  have abs: "msq_abs ?u = msq_abs s" by simp
  have u: "outcome ?u (mpcs ?u ! t) = (r, qc)" "returns ?u (mpcs ?u ! t)"
    using call_outcome [of oper ?u r qc] assms(3,5) unfolding abs by simp_all
  have nt: "fst (outcome ?u (mpcs ?u ! t)) \<noteq> MThrow e" for e
    using call_outcome(3) [of oper ?u r qc e] assms(5) unfolding abs u(1) by simp
  have rm: "2 \<le> room (slots ?u ! t) (mpcs ?u ! t)" using assms(3,4) by (simp add: room_def)
  have "alone t ?u" using alone_update [OF a, of ?u] by simp
  from solo_run [OF seq_inv_exec [OF inv ex] _ this u(2) rm nt] assms(3) u(1) obtain k s' where
    "run msq_exec_seq (replicate k (t, MStep)) ?u = Some s'" "mpcs s' = (mpcs ?u)[t := MDone r]" "msq_abs s' = qc"
    "free_slots (slots s' ! t) = room (slots ?u ! t) (mpcs ?u ! t)"
    by auto
  with ex assms(3) show ?thesis by (intro exI [of _ k] exI [of _ s']) (simp add: room_def msq_call_ok(1))
qed

theorem msq_calls_alone_witness:
  "\<exists>s k s'. run msq_exec_seq recycling_schedule (msq_new 2) = Some s \<and>
     run msq_exec_seq ((1, MCall OpPop) # replicate k (1, MStep)) s = Some s' \<and>
     mpcs s' ! 1 = MDone (MOpt (Some 3)) \<and> msq_abs s' = ([], False)"
proof -
  have "map_option (\<lambda>s. (list_all between_calls (mpcs s), length (mpcs s), free_slots (slots s ! 1), atomic_op OpPop (msq_abs s)))
      (run msq_exec_seq recycling_schedule (msq_new 2)) = Some (True, 2, 4, Some (MOpt (Some 3), [], False))"
    by code_simp
  then obtain s where s: "run msq_exec_seq recycling_schedule (msq_new 2) = Some s" "list_all between_calls (mpcs s)"
    "length (mpcs s) = 2" "free_slots (slots s ! 1) = 4" "atomic_op OpPop (msq_abs s) = Some (MOpt (Some 3), [], False)"
    by auto
  have "reachable msq_init msq_exec_seq s"
    by (rule run_reachable [OF reachable.start s(1)]) (auto simp: msq_init_def)
  from msq_calls_alone [OF this s(2) _ _ s(5), of 1] s(3,4) obtain k s' where
    "run msq_exec_seq ((1, MCall OpPop) # replicate k (1, MStep)) s = Some s'" "mpcs s' = (mpcs s)[1 := MDone (MOpt (Some 3))]"
    "msq_abs s' = ([], False)"
    by auto
  with s show ?thesis by (intro exI [of _ s] exI [of _ k] exI [of _ s']) simp
qed

end
