(* ===== verification/EventLoop.thy ===== *)
theory EventLoop
  imports Prelude "HOL-Library.AList" "HOL-Library.Signed_Division"
begin

text \<open>
  \<^verbatim>\<open>src/event/eventloop.cpp\<close>, \<^verbatim>\<open>include/miniruntime/event/eventloop.h\<close> and the handles of
  \<^verbatim>\<open>src/event/handle.cpp\<close>, \<^verbatim>\<open>include/miniruntime/event/handle.h\<close>: the reactor over epoll and the RAII
  owners of its registrations.

  The system calls are a parameter: the record \<open>kernel_ops\<close> over an unknown kernel state. What the
  code relies on of them is the predicate \<open>kernel_laws\<close>, taken from their manual pages: which
  descriptors are open, which are registered with an epoll descriptor, and the error codes. A
  callback stored in the registry is the lambda the source stores: the user's function (which may
  be empty) with what the loop does around it. An exception is \<open>Inl\<close> with its message. Every method
  locks the mutex for its whole effect on the registry, so a method is one transition (a release
  closes its descriptor after that, when nobody else can hold it). The thread
  in \<open>run\<close> (\<open>run_step\<close>) moves from one access to the next: test of the flag, wait, look-up under the lock, call
  outside the lock. \<open>loop_exec\<close> interleaves it with the calls of a client (\<open>api_call\<close>), which come from other
  threads or from the callbacks; what a user's function does is a choice of the schedule. The client also opens and
  closes descriptors of its own; \<open>loop_exec_kept\<close> are the runs in which it closes one only after releasing its
  handles on it.

  Proved: for such clients the registry and the kernel's interest list agree in every reachable state and every valid
  handle that owns its descriptor is registered, open and unshared; for every client the kernel watches
  only descriptors of the registry and those belong to valid handles; creating and releasing a handle leaves nothing behind;
  what failures leave behind; \<open>run\<close> ends after
  \<open>stop\<close> within an explicit number of steps. Further: a callback can run after its handle was
  destroyed, an event can reach a later registration with the same number, two handles on
  one user descriptor unregister each other, and a descriptor closed under its handle leaves an entry that later
  costs another registration its own.
\<close>

section \<open>Time conversion\<close>

record itimerspec =
  value_sec :: int
  value_nsec :: int
  interval_sec :: int
  interval_nsec :: int

definition MILLI_DIVIDER :: int where
  "MILLI_DIVIDER = 1000"

definition NANO_DIVIDER :: int where
  "NANO_DIVIDER = 1000000"

text \<open>Division and remainder of C++ truncate towards zero.\<close>

definition prepareIntervalSpec :: "int \<Rightarrow> itimerspec" where
  "prepareIntervalSpec ms =
     \<lparr>value_sec = ms sdiv MILLI_DIVIDER, value_nsec = (ms smod MILLI_DIVIDER) * NANO_DIVIDER,
      interval_sec = ms sdiv MILLI_DIVIDER, interval_nsec = (ms smod MILLI_DIVIDER) * NANO_DIVIDER\<rparr>"

definition oneShotSpec :: "int \<Rightarrow> itimerspec" where
  "oneShotSpec ms =
     \<lparr>value_sec = ms sdiv MILLI_DIVIDER, value_nsec = (ms smod MILLI_DIVIDER) * NANO_DIVIDER,
      interval_sec = 0, interval_nsec = 0\<rparr>"

section \<open>System calls\<close>

datatype errno = EEXIST | ENOENT | EINTR | EOther nat

datatype ctl = CtlAdd | CtlMod | CtlDel

type_synonym u32 = "32 word"

record 'k kernel_ops =
  k_epoll_create1 :: "'k \<Rightarrow> int \<times> 'k"
  k_epoll_ctl :: "int \<Rightarrow> ctl \<Rightarrow> int \<Rightarrow> u32 \<Rightarrow> 'k \<Rightarrow> errno option \<times> 'k"
  k_epoll_wait :: "int \<Rightarrow> nat \<Rightarrow> int \<Rightarrow> 'k \<Rightarrow> (errno + int list) \<times> 'k"
  k_eventfd :: "'k \<Rightarrow> int \<times> 'k"
  k_timerfd_create :: "'k \<Rightarrow> int \<times> 'k"
  k_timerfd_settime :: "int \<Rightarrow> itimerspec \<Rightarrow> 'k \<Rightarrow> errno option \<times> 'k"
  k_read :: "int \<Rightarrow> 'k \<Rightarrow> int \<times> 'k"
  k_write :: "int \<Rightarrow> u64 \<Rightarrow> 'k \<Rightarrow> int \<times> 'k"
  k_close :: "int \<Rightarrow> 'k \<Rightarrow> 'k"
  k_open :: "'k \<Rightarrow> int \<times> 'k"

text \<open>
  The documented behaviour: \<open>opens\<close> are the open descriptors, \<open>interest ep\<close> the interest list of the
  epoll descriptor \<open>ep\<close>. \<open>k_open\<close> stands for the calls by which a client gets a descriptor of its own
  (a socket, a pipe, an eventfd). Descriptors are not duplicated, so that closing one removes it from the
  interest lists.
\<close>

definition ctl_laws :: "'k kernel_ops \<Rightarrow> ('k \<Rightarrow> int set) \<Rightarrow> (int \<Rightarrow> 'k \<Rightarrow> int set) \<Rightarrow> bool" where
  "ctl_laws K opens interest \<longleftrightarrow> (\<forall>ep c fd fl k e k'. k_epoll_ctl K ep c fd fl k = (e, k') \<longrightarrow>
     opens k' = opens k \<and>
     (case c of
        CtlAdd \<Rightarrow> (e = Some EEXIST \<longleftrightarrow> fd \<in> interest ep k) \<and> (e = None \<longrightarrow> fd \<in> opens k) \<and>
          interest ep k' = (if e = None then insert fd (interest ep k) else interest ep k)
      | CtlMod \<Rightarrow> interest ep k' = interest ep k
      | CtlDel \<Rightarrow> interest ep k' = interest ep k - {fd}))"

definition create_laws :: "('k \<Rightarrow> int \<times> 'k) \<Rightarrow> ('k \<Rightarrow> int set) \<Rightarrow> (int \<Rightarrow> 'k \<Rightarrow> int set) \<Rightarrow> bool" where
  "create_laws mk opens interest \<longleftrightarrow> (\<forall>k fd k'. mk k = (fd, k') \<longrightarrow>
     (\<forall>ep. interest ep k' = interest ep k) \<and>
     (if fd < 0 then opens k' = opens k else fd \<notin> opens k \<and> opens k' = insert fd (opens k)))"

definition quiet_laws :: "('k \<Rightarrow> 'k) \<Rightarrow> ('k \<Rightarrow> int set) \<Rightarrow> (int \<Rightarrow> 'k \<Rightarrow> int set) \<Rightarrow> bool" where
  "quiet_laws f opens interest \<longleftrightarrow> (\<forall>k. opens (f k) = opens k \<and> (\<forall>ep. interest ep (f k) = interest ep k))"

definition wait_laws :: "'k kernel_ops \<Rightarrow> (int \<Rightarrow> 'k \<Rightarrow> int set) \<Rightarrow> bool" where
  "wait_laws K interest \<longleftrightarrow> (\<forall>ep n t k fds k'. k_epoll_wait K ep n t k = (Inr fds, k') \<longrightarrow>
     length fds \<le> n \<and> set fds \<subseteq> interest ep k)"

definition close_laws :: "'k kernel_ops \<Rightarrow> ('k \<Rightarrow> int set) \<Rightarrow> (int \<Rightarrow> 'k \<Rightarrow> int set) \<Rightarrow> bool" where
  "close_laws K opens interest \<longleftrightarrow> (\<forall>fd k. opens (k_close K fd k) = opens k - {fd} \<and>
     (\<forall>ep. interest ep (k_close K fd k) = (if ep = fd then {} else interest ep k - {fd})))"

definition kernel_laws :: "'k kernel_ops \<Rightarrow> ('k \<Rightarrow> int set) \<Rightarrow> (int \<Rightarrow> 'k \<Rightarrow> int set) \<Rightarrow> bool" where
  "kernel_laws K opens interest \<longleftrightarrow>
     ctl_laws K opens interest \<and> wait_laws K interest \<and> close_laws K opens interest \<and>
     create_laws (k_epoll_create1 K) opens interest \<and> create_laws (k_eventfd K) opens interest \<and>
     create_laws (k_timerfd_create K) opens interest \<and> create_laws (k_open K) opens interest \<and>
     (\<forall>fd sp. quiet_laws (\<lambda>k. snd (k_timerfd_settime K fd sp k)) opens interest) \<and>
     (\<forall>fd. quiet_laws (\<lambda>k. snd (k_read K fd k)) opens interest) \<and>
     (\<forall>fd v. quiet_laws (\<lambda>k. snd (k_write K fd v k)) opens interest) \<and>
     (\<forall>ep n t. quiet_laws (\<lambda>k. snd (k_epoll_wait K ep n t k)) opens interest) \<and>
     (\<forall>k fd. fd \<in> opens k \<longrightarrow> 0 \<le> fd) \<and> (\<forall>k ep. ep \<notin> opens k \<longrightarrow> interest ep k = {})"

section \<open>Event loop\<close>

datatype event_type = SOCKET | TRIGGER | TIMER | USER

text \<open>The lambdas in the registry. \<open>OnTimer\<close> carries the shared fired flag.\<close>

datatype 'u callback = OnEvent "'u option" | OnTrigger "'u option" | OnTimer nat "'u option" | OnInterval "'u option"

record 'u event =
  ev_fd :: int
  ev_flags :: u32
  ev_type :: event_type
  ev_callback :: "'u callback"

text \<open>Where \<open>run\<close> is: at the test of the flag, before \<open>epoll_wait\<close>, in its batch of events, with a copied callback, in the
  user's function, after it.\<close>

datatype 'u loop_pc =
    LTest
  | LWait
  | LFor "int list"
  | LCall "'u callback" int "int list"
  | LBody "'u callback" int "int list"
  | LAfter "'u callback" "int list"
  | LReturned
  | LThrew string

record ('u, 'k) event_loop =
  epollFd :: int
  loop_stop :: bool
  events_map :: "(int \<times> 'u event) list"
  kern :: 'k
  fired_flags :: "bool list"
  run_pc :: "'u loop_pc"

definition EPOLLIN :: u32 where
  "EPOLLIN = 1"

definition prepareEvent :: "int \<Rightarrow> u32 \<Rightarrow> event_type \<Rightarrow> 'u callback \<Rightarrow> 'u event" where
  "prepareEvent fd flags ty cb = \<lparr>ev_fd = fd, ev_flags = flags, ev_type = ty, ev_callback = cb\<rparr>"

definition event_loop_new :: "'k kernel_ops \<Rightarrow> 'k \<Rightarrow> string + ('u, 'k) event_loop" where
  "event_loop_new K k =
     (case k_epoll_create1 K k of (fd, k') \<Rightarrow>
        if fd < 0 then Inl ''Can not create epoll''
        else Inr \<lparr>epollFd = fd, loop_stop = False, events_map = [], kern = k', fired_flags = [], run_pc = LTest\<rparr>)"

definition registerEvent ::
  "'k kernel_ops \<Rightarrow> 'u event \<Rightarrow> ('u, 'k, 'm) event_loop_scheme \<Rightarrow> (string + unit) \<times> ('u, 'k, 'm) event_loop_scheme" where
  "registerEvent K ev s =
     (let fd = ev_fd ev; ok = (\<lambda>k. (Inr (), s\<lparr>kern := k, events_map := AList.update fd ev (events_map s)\<rparr>)) in
      case k_epoll_ctl K (epollFd s) CtlAdd fd (ev_flags ev) (kern s) of
        (None, k) \<Rightarrow> ok k
      | (Some EEXIST, k) \<Rightarrow>
          (case k_epoll_ctl K (epollFd s) CtlMod fd (ev_flags ev) k of
             (None, k') \<Rightarrow> ok k'
           | (Some _, k') \<Rightarrow> (Inl ''epol_ctl mod failed'', s\<lparr>kern := k'\<rparr>))
      | (Some _, k) \<Rightarrow> (Inl ''epoll_ctl failed'', s\<lparr>kern := k\<rparr>))"

text \<open>A failed deletion is only logged; the registry entry goes in any case.\<close>

definition unregisterEvent :: "'k kernel_ops \<Rightarrow> int \<Rightarrow> ('u, 'k, 'm) event_loop_scheme \<Rightarrow> ('u, 'k, 'm) event_loop_scheme" where
  "unregisterEvent K fd s =
     s\<lparr>kern := snd (k_epoll_ctl K (epollFd s) CtlDel fd 0 (kern s)), events_map := AList.delete fd (events_map s)\<rparr>"

definition stop :: "('u, 'k, 'm) event_loop_scheme \<Rightarrow> ('u, 'k, 'm) event_loop_scheme" where
  "stop s = s\<lparr>loop_stop := True\<rparr>"

text \<open>The destructor of the loop: deregister every descriptor of the registry, then close epoll.\<close>

definition loop_destroy :: "'k kernel_ops \<Rightarrow> ('u, 'k, 'm) event_loop_scheme \<Rightarrow> ('u, 'k, 'm) event_loop_scheme" where
  "loop_destroy K s =
     (let s1 = stop s;
          k = fold (\<lambda>(fd, ev) k. snd (k_epoll_ctl K (epollFd s1) CtlDel fd 0 k)) (events_map s1) (kern s1) in
      if 0 \<le> epollFd s1 then s1\<lparr>kern := k_close K (epollFd s1) k, epollFd := -1\<rparr> else s1\<lparr>kern := k\<rparr>)"

section \<open>Handles\<close>

text \<open>\<open>None\<close> is a handle that was moved from; a released one has descriptor \<open>-1\<close>.\<close>

record handle_impl =
  h_fd :: int
  h_ownFd :: bool
  h_fired :: "nat option"

type_synonym handle = "handle_impl option"

definition mk_handle :: "int \<Rightarrow> bool \<Rightarrow> handle" where
  "mk_handle fd own = Some \<lparr>h_fd = fd, h_ownFd = own, h_fired = None\<rparr>"

text \<open>The constructors of the subclasses: all but the handle of a user's descriptor own it.\<close>

abbreviation event_handle :: "int \<Rightarrow> handle" where
  "event_handle fd \<equiv> mk_handle fd False"

abbreviation trigger_handle :: "int \<Rightarrow> handle" where
  "trigger_handle fd \<equiv> mk_handle fd True"

abbreviation interval_handle :: "int \<Rightarrow> handle" where
  "interval_handle fd \<equiv> mk_handle fd True"

definition mk_timer_handle :: "int \<Rightarrow> nat \<Rightarrow> handle" where
  "mk_timer_handle fd r = Some \<lparr>h_fd = fd, h_ownFd = True, h_fired = Some r\<rparr>"

definition handle_valid :: "handle \<Rightarrow> bool" where
  "handle_valid h = (case h of None \<Rightarrow> False | Some i \<Rightarrow> 0 \<le> h_fd i)"

definition handle_release ::
  "'k kernel_ops \<Rightarrow> handle \<Rightarrow> ('u, 'k, 'm) event_loop_scheme \<Rightarrow> handle \<times> ('u, 'k, 'm) event_loop_scheme" where
  "handle_release K h s =
     (case h of
        None \<Rightarrow> (h, s)
      | Some i \<Rightarrow>
          if h_fd i < 0 then (h, s)
          else let s1 = unregisterEvent K (h_fd i) s;
                   s2 = (if h_ownFd i then s1\<lparr>kern := k_close K (h_fd i) (kern s1)\<rparr> else s1) in
               (Some (i\<lparr>h_fd := -1\<rparr>), s2))"

text \<open>\<open>cancel\<close> of timers and intervals logs and releases, also when the handle is not valid.\<close>

abbreviation timer_cancel ::
  "'k kernel_ops \<Rightarrow> handle \<Rightarrow> ('u, 'k, 'm) event_loop_scheme \<Rightarrow> handle \<times> ('u, 'k, 'm) event_loop_scheme" where
  "timer_cancel \<equiv> handle_release"

abbreviation interval_cancel ::
  "'k kernel_ops \<Rightarrow> handle \<Rightarrow> ('u, 'k, 'm) event_loop_scheme \<Rightarrow> handle \<times> ('u, 'k, 'm) event_loop_scheme" where
  "interval_cancel \<equiv> handle_release"

text \<open>Move construction: the new handle and the source; move assignment releases the target first.\<close>

definition handle_move :: "handle \<Rightarrow> handle \<times> handle" where
  "handle_move src = (src, None)"

definition handle_move_assign ::
  "'k kernel_ops \<Rightarrow> handle \<Rightarrow> handle \<Rightarrow> ('u, 'k, 'm) event_loop_scheme \<Rightarrow> (handle \<times> handle) \<times> ('u, 'k, 'm) event_loop_scheme" where
  "handle_move_assign K target src s = (case handle_release K target s of (_, s') \<Rightarrow> ((src, None), s'))"

definition trigger :: "'k kernel_ops \<Rightarrow> handle \<Rightarrow> ('u, 'k, 'm) event_loop_scheme \<Rightarrow> ('u, 'k, 'm) event_loop_scheme" where
  "trigger K h s =
     (if \<not> handle_valid h then s else s\<lparr>kern := snd (k_write K (h_fd (the h)) 1 (kern s))\<rparr>)"

text \<open>\<open>fired\<close> dereferences the handle and its flag; \<open>None\<close> where that is a null pointer.\<close>

definition timer_fired :: "handle \<Rightarrow> ('u, 'k, 'm) event_loop_scheme \<Rightarrow> bool option" where
  "timer_fired h s = (case h of None \<Rightarrow> None | Some i \<Rightarrow> map_option (\<lambda>r. fired_flags s ! r) (h_fired i))"

definition resetTimerInterval :: "'k kernel_ops \<Rightarrow> int \<Rightarrow> int \<Rightarrow> ('u, 'k, 'm) event_loop_scheme \<Rightarrow> ('u, 'k, 'm) event_loop_scheme" where
  "resetTimerInterval K fd ms s = s\<lparr>kern := snd (k_timerfd_settime K fd (prepareIntervalSpec ms) (kern s))\<rparr>"

definition resetInterval :: "'k kernel_ops \<Rightarrow> handle \<Rightarrow> int \<Rightarrow> ('u, 'k, 'm) event_loop_scheme \<Rightarrow> ('u, 'k, 'm) event_loop_scheme" where
  "resetInterval K h ms s = (if \<not> handle_valid h then s else resetTimerInterval K (h_fd (the h)) ms s)"

section \<open>Creation\<close>

definition createEvent ::
  "'k kernel_ops \<Rightarrow> int \<Rightarrow> u32 \<Rightarrow> event_type \<Rightarrow> 'u option \<Rightarrow> ('u, 'k, 'm) event_loop_scheme \<Rightarrow>
     (string + handle) \<times> ('u, 'k, 'm) event_loop_scheme" where
  "createEvent K fd flags ty cb s =
     (case registerEvent K (prepareEvent fd flags ty (OnEvent cb)) s of
        (Inl e, s') \<Rightarrow> (Inl e, s')
      | (Inr _, s') \<Rightarrow> (Inr (event_handle fd), s'))"

definition createTrigger ::
  "'k kernel_ops \<Rightarrow> 'u option \<Rightarrow> ('u, 'k, 'm) event_loop_scheme \<Rightarrow> (string + handle) \<times> ('u, 'k, 'm) event_loop_scheme" where
  "createTrigger K cb s =
     (case k_eventfd K (kern s) of (fd, k) \<Rightarrow>
        if fd < 0 then (Inl ''eventfd error'', s\<lparr>kern := k\<rparr>)
        else (case registerEvent K (prepareEvent fd EPOLLIN TRIGGER (OnTrigger cb)) (s\<lparr>kern := k\<rparr>) of
               (Inl e, s') \<Rightarrow> (Inl e, s')
             | (Inr _, s') \<Rightarrow> (Inr (trigger_handle fd), s')))"

text \<open>The handle of a timer exists before the registration, so that unwinding releases it.\<close>

definition loop_createTimer ::
  "'k kernel_ops \<Rightarrow> int \<Rightarrow> 'u option \<Rightarrow> ('u, 'k, 'm) event_loop_scheme \<Rightarrow> (string + handle) \<times> ('u, 'k, 'm) event_loop_scheme" where
  "loop_createTimer K timeoutMs cb s =
     (case k_timerfd_create K (kern s) of (fd, k) \<Rightarrow>
        if fd < 0 then (Inl ''timerfd error'', s\<lparr>kern := k\<rparr>)
        else
          (let r = length (fired_flags s);
               timer = mk_timer_handle fd r;
               k1 = snd (k_timerfd_settime K fd (oneShotSpec timeoutMs) k);
               s1 = s\<lparr>kern := k1, fired_flags := fired_flags s @ [False]\<rparr> in
           case registerEvent K (prepareEvent fd EPOLLIN TIMER (OnTimer r cb)) s1 of
             (Inl e, s2) \<Rightarrow> (Inl e, snd (handle_release K timer s2))
           | (Inr _, s2) \<Rightarrow> (Inr timer, s2)))"

definition loop_createInterval ::
  "'k kernel_ops \<Rightarrow> int \<Rightarrow> 'u option \<Rightarrow> ('u, 'k, 'm) event_loop_scheme \<Rightarrow> (string + handle) \<times> ('u, 'k, 'm) event_loop_scheme" where
  "loop_createInterval K intervalMs cb s =
     (case k_timerfd_create K (kern s) of (fd, k) \<Rightarrow>
        if fd < 0 then (Inl ''timerfd error'', s\<lparr>kern := k\<rparr>)
        else
          (let k1 = snd (k_timerfd_settime K fd (prepareIntervalSpec intervalMs) k) in
           case registerEvent K (prepareEvent fd EPOLLIN TIMER (OnInterval cb)) (s\<lparr>kern := k1\<rparr>) of
             (Inl e, s2) \<Rightarrow> (Inl e, s2)
           | (Inr _, s2) \<Rightarrow> (Inr (interval_handle fd), s2)))"

section \<open>Dispatch\<close>

text \<open>The source compares the result of \<open>read\<close> with itself, so that its warning is never given.\<close>

definition readFd :: "'k kernel_ops \<Rightarrow> int \<Rightarrow> ('u, 'k, 'm) event_loop_scheme \<Rightarrow> bool \<times> ('u, 'k, 'm) event_loop_scheme" where
  "readFd K fd s = (case k_read K fd (kern s) of (n, k) \<Rightarrow> (n \<noteq> n, s\<lparr>kern := k\<rparr>))"

definition EPOLL_TIMEOUT :: int where
  "EPOLL_TIMEOUT = 100"

text \<open>The function wrapped in a callback; \<open>None\<close> when the \<open>std::function\<close> is empty.\<close>

fun cb_fun :: "'u callback \<Rightarrow> 'u option" where
  "cb_fun (OnEvent f) = f"
| "cb_fun (OnTrigger f) = f"
| "cb_fun (OnTimer r f) = f"
| "cb_fun (OnInterval f) = f"

text \<open>The part of a callback before the user's function, and the part after it.\<close>

definition cb_enter ::
  "'k kernel_ops \<Rightarrow> 'u callback \<Rightarrow> int \<Rightarrow> int list \<Rightarrow> ('u, 'k, 'm) event_loop_scheme \<Rightarrow> ('u, 'k, 'm) event_loop_scheme" where
  "cb_enter K cb fd fds s =
     (case cb of
        OnEvent None \<Rightarrow> s\<lparr>run_pc := LThrew ''bad_function_call''\<rparr>
      | OnEvent (Some u) \<Rightarrow> s\<lparr>run_pc := LBody cb fd fds\<rparr>
      | _ \<Rightarrow> (snd (readFd K fd s))\<lparr>run_pc := if cb_fun cb = None then LAfter cb fds else LBody cb fd fds\<rparr>)"

definition cb_leave :: "'u callback \<Rightarrow> int list \<Rightarrow> ('u, 'k, 'm) event_loop_scheme \<Rightarrow> ('u, 'k, 'm) event_loop_scheme" where
  "cb_leave cb fds s =
     (case cb of
        OnTimer r f \<Rightarrow> s\<lparr>fired_flags := (fired_flags s)[r := True], run_pc := LFor fds\<rparr>
      | _ \<Rightarrow> s\<lparr>run_pc := LFor fds\<rparr>)"

text \<open>
  The thread in \<open>run\<close>, from one access to the next; it does not move by itself while the user's
  function runs.
\<close>

definition run_step ::
  "'k kernel_ops \<Rightarrow> ('u, 'k, 'm) event_loop_scheme \<Rightarrow> ('u, 'k, 'm) event_loop_scheme option" where
  "run_step K s =
     (case run_pc s of
        LTest \<Rightarrow> Some (s\<lparr>run_pc := if loop_stop s then LReturned else LWait\<rparr>)
      | LWait \<Rightarrow> Some
          (case k_epoll_wait K (epollFd s) 64 EPOLL_TIMEOUT (kern s) of
             (Inl e, k) \<Rightarrow> s\<lparr>kern := k, run_pc := if e = EINTR then LTest else LThrew ''epoll wait error''\<rparr>
           | (Inr fds, k) \<Rightarrow> s\<lparr>kern := k, run_pc := LFor fds\<rparr>)
      | LFor [] \<Rightarrow> Some (s\<lparr>run_pc := LTest\<rparr>)
      | LFor (fd # fds) \<Rightarrow> Some
          (case map_of (events_map s) fd of
             None \<Rightarrow> s\<lparr>run_pc := LFor fds\<rparr>
           | Some ev \<Rightarrow> s\<lparr>run_pc := LCall (ev_callback ev) fd fds\<rparr>)
      | LCall cb fd fds \<Rightarrow> Some (cb_enter K cb fd fds s)
      | LAfter cb fds \<Rightarrow> Some (cb_leave cb fds s)
      | _ \<Rightarrow> None)"

section \<open>Clients\<close>

text \<open>
  A client holds handles and calls the public methods, from any thread, the callbacks included.
  What the user's functions do is therefore a choice of the schedule: between the start and the
  end of such a function, calls happen. A client also opens and closes descriptors of its own
  (\<open>OpenFd\<close>, \<open>CloseFd\<close>), which it registers with \<open>createEvent\<close>: such a handle does not own its
  descriptor, and nothing keeps the client from closing it while the handle lives. It touches no descriptor
  that one of its handles owns, nor the epoll descriptor.
\<close>

record ('u, 'k) client_loop = "('u, 'k) event_loop" +
  handles :: "handle list"

datatype 'u api =
    CreateEvent int u32 event_type "'u option"
  | CreateTrigger "'u option"
  | CreateTimer int "'u option"
  | CreateInterval int "'u option"
  | Release nat       \<comment> \<open>\<open>cancel\<close> or the destructor\<close>
  | Move nat
  | MoveAssign nat nat
  | Trigger nat
  | ResetInterval nat int
  | Stop
  | OpenFd
  | CloseFd int

datatype 'u loop_action = Api "'u api" | Run | BodyReturns | BodyThrows string

definition owns :: "handle \<Rightarrow> bool" where
  "owns h = (case h of None \<Rightarrow> False | Some i \<Rightarrow> 0 \<le> h_fd i \<and> h_ownFd i)"

definition handle_fd :: "handle \<Rightarrow> int" where
  "handle_fd h = (case h of None \<Rightarrow> -1 | Some i \<Rightarrow> h_fd i)"

fun keep_handle :: "(string + handle) \<times> ('u, 'k) client_loop \<Rightarrow> ('u, 'k) client_loop" where
  "keep_handle (Inl e, s) = s"
| "keep_handle (Inr h, s) = s\<lparr>handles := handles s @ [h]\<rparr>"

definition own_free :: "int \<Rightarrow> handle list \<Rightarrow> bool" where
  "own_free fd hs = list_all (\<lambda>h. owns h \<longrightarrow> handle_fd h \<noteq> fd) hs"

fun api_call :: "'k kernel_ops \<Rightarrow> 'u api \<Rightarrow> ('u, 'k) client_loop \<Rightarrow> ('u, 'k) client_loop option" where
  "api_call K (CreateEvent fd flags ty cb) s =
     guarded (own_free fd (handles s)) (keep_handle (createEvent K fd flags ty cb s))"
| "api_call K (CreateTrigger cb) s = Some (keep_handle (createTrigger K cb s))"
| "api_call K (CreateTimer ms cb) s = Some (keep_handle (loop_createTimer K ms cb s))"
| "api_call K (CreateInterval ms cb) s = Some (keep_handle (loop_createInterval K ms cb s))"
| "api_call K (Release i) s =
     guarded (i < length (handles s))
       (case handle_release K (handles s ! i) s of (h, s') \<Rightarrow> s'\<lparr>handles := (handles s)[i := h]\<rparr>)"
| "api_call K (Move i) s =
     guarded (i < length (handles s))
       (case handle_move (handles s ! i) of (h, src) \<Rightarrow> s\<lparr>handles := (handles s)[i := src] @ [h]\<rparr>)"
| "api_call K (MoveAssign i j) s =
     guarded (i < length (handles s) \<and> j < length (handles s))
       (if i = j then s
        else case handle_move_assign K (handles s ! i) (handles s ! j) s of ((h, src), s') \<Rightarrow>
               s'\<lparr>handles := (handles s)[i := h, j := src]\<rparr>)"
| "api_call K (Trigger i) s = guarded (i < length (handles s)) (trigger K (handles s ! i) s)"
| "api_call K (ResetInterval i ms) s = guarded (i < length (handles s)) (resetInterval K (handles s ! i) ms s)"
| "api_call K Stop s = Some (stop s)"
| "api_call K OpenFd s = Some (s\<lparr>kern := snd (k_open K (kern s))\<rparr>)"
| "api_call K (CloseFd fd) s =
     guarded (own_free fd (handles s) \<and> fd \<noteq> epollFd s) (s\<lparr>kern := k_close K fd (kern s)\<rparr>)"

fun loop_exec :: "'k kernel_ops \<Rightarrow> 'u loop_action \<Rightarrow> ('u, 'k) client_loop \<Rightarrow> ('u, 'k) client_loop option" where
  "loop_exec K (Api a) s = api_call K a s"
| "loop_exec K Run s = run_step K s"
| "loop_exec K BodyReturns s =
     (case run_pc s of LBody cb fd fds \<Rightarrow> Some (s\<lparr>run_pc := LAfter cb fds\<rparr>) | _ \<Rightarrow> None)"
| "loop_exec K (BodyThrows e) s =
     (case run_pc s of LBody cb fd fds \<Rightarrow> Some (s\<lparr>run_pc := LThrew e\<rparr>) | _ \<Rightarrow> None)"

text \<open>The clients that release their handles on a descriptor before they close it.\<close>

definition fd_unused :: "int \<Rightarrow> handle list \<Rightarrow> bool" where
  "fd_unused fd hs = list_all (\<lambda>h. handle_valid h \<longrightarrow> handle_fd h \<noteq> fd) hs"

definition loop_exec_kept :: "'k kernel_ops \<Rightarrow> 'u loop_action \<Rightarrow> ('u, 'k) client_loop \<Rightarrow> ('u, 'k) client_loop option" where
  "loop_exec_kept K a s =
     (case a of
        Api (CloseFd fd) \<Rightarrow> if fd_unused fd (handles s) then loop_exec K a s else None
      | _ \<Rightarrow> loop_exec K a s)"

definition client_new :: "'k kernel_ops \<Rightarrow> 'k \<Rightarrow> (string + ('u, 'k) client_loop)" where
  "client_new K k = map_sum id (\<lambda>s. event_loop.extend s (client_loop.fields [])) (event_loop_new K k)"

section \<open>Invariant\<close>

text \<open>What an observer of the loop and of the kernel sees of the registrations.\<close>

definition loop_view ::
  "('k \<Rightarrow> int set) \<Rightarrow> (int \<Rightarrow> 'k \<Rightarrow> int set) \<Rightarrow> ('u, 'k, 'm) event_loop_scheme \<Rightarrow> int set \<times> int set \<times> (int \<times> 'u event) list" where
  "loop_view opens interest s = (opens (kern s), interest (epollFd s) (kern s), events_map s)"

definition cb_ok :: "nat \<Rightarrow> 'u callback \<Rightarrow> bool" where
  "cb_ok n cb = (case cb of OnTimer r f \<Rightarrow> r < n | _ \<Rightarrow> True)"

definition reg_inv ::
  "('k \<Rightarrow> int set) \<Rightarrow> (int \<Rightarrow> 'k \<Rightarrow> int set) \<Rightarrow> ('u, 'k, 'm) event_loop_scheme \<Rightarrow> bool" where
  "reg_inv opens interest s \<longleftrightarrow>
     distinct (map fst (events_map s)) \<and>
     (\<forall>(fd, ev) \<in> set (events_map s). ev_fd ev = fd \<and> cb_ok (length (fired_flags s)) (ev_callback ev)) \<and>
     fst ` set (events_map s) = interest (epollFd s) (kern s) \<and>
     interest (epollFd s) (kern s) \<subseteq> opens (kern s) \<and> epollFd s \<in> opens (kern s)"

definition pc_inv :: "nat \<Rightarrow> 'u loop_pc \<Rightarrow> bool" where
  "pc_inv n pc =
     (case pc of
        LFor fds \<Rightarrow> length fds \<le> 64
      | LCall cb fd fds \<Rightarrow> length fds < 64 \<and> cb_ok n cb
      | LBody cb fd fds \<Rightarrow> length fds < 64 \<and> cb_ok n cb \<and> cb_fun cb \<noteq> None
      | LAfter cb fds \<Rightarrow> length fds < 64 \<and> cb_ok n cb
      | _ \<Rightarrow> True)"

text \<open>Handles that own their descriptor: registered, not the epoll descriptor, not shared.\<close>

definition own_inv :: "handle list \<Rightarrow> ('u, 'k, 'm) event_loop_scheme \<Rightarrow> bool" where
  "own_inv hs s \<longleftrightarrow> (\<forall>i < length hs. owns (hs ! i) \<longrightarrow>
     handle_fd (hs ! i) \<in> fst ` set (events_map s) \<and> handle_fd (hs ! i) \<noteq> epollFd s \<and>
     (\<forall>j < length hs. j \<noteq> i \<longrightarrow> handle_valid (hs ! j) \<longrightarrow> handle_fd (hs ! j) \<noteq> handle_fd (hs ! i)))"

definition flag_ok :: "nat \<Rightarrow> handle \<Rightarrow> bool" where
  "flag_ok n h = (case h of None \<Rightarrow> True | Some i \<Rightarrow> (case h_fired i of None \<Rightarrow> True | Some r \<Rightarrow> r < n))"

definition flags_inv :: "nat \<Rightarrow> handle list \<Rightarrow> bool" where
  "flags_inv n hs \<longleftrightarrow> (\<forall>h \<in> set hs. flag_ok n h)"

definition open_inv :: "('k \<Rightarrow> int set) \<Rightarrow> handle list \<Rightarrow> ('u, 'k, 'm) event_loop_scheme \<Rightarrow> bool" where
  "open_inv opens hs s \<longleftrightarrow> (\<forall>h \<in> set hs. handle_valid h \<longrightarrow> handle_fd h \<in> opens (kern s))"

definition client_inv :: "('k \<Rightarrow> int set) \<Rightarrow> (int \<Rightarrow> 'k \<Rightarrow> int set) \<Rightarrow> ('u, 'k) client_loop \<Rightarrow> bool" where
  "client_inv opens interest s \<longleftrightarrow> reg_inv opens interest s \<and> pc_inv (length (fired_flags s)) (run_pc s) \<and>
     own_inv (handles s) s \<and> open_inv opens (handles s) s \<and>
     flags_inv (length (fired_flags s)) (handles s)"

text \<open>
  What holds whatever the client closes: the kernel watches only descriptors of the registry, and
  each of those belongs to a valid handle.
\<close>

definition valid_fds :: "handle list \<Rightarrow> int set" where
  "valid_fds hs = handle_fd ` {h \<in> set hs. handle_valid h}"

definition watch_inv :: "('k \<Rightarrow> int set) \<Rightarrow> (int \<Rightarrow> 'k \<Rightarrow> int set) \<Rightarrow> ('u, 'k) client_loop \<Rightarrow> bool" where
  "watch_inv opens interest s \<longleftrightarrow>
     epollFd s \<in> opens (kern s) \<and> interest (epollFd s) (kern s) \<subseteq> fst ` set (events_map s) \<and>
     fst ` set (events_map s) \<subseteq> valid_fds (handles s) \<and> (\<forall>h \<in> set (handles s). owns h \<longrightarrow> handle_fd h \<noteq> epollFd s)"

text \<open>What every creation does to that, a failed one included.\<close>

definition watched ::
  "('k \<Rightarrow> int set) \<Rightarrow> (int \<Rightarrow> 'k \<Rightarrow> int set) \<Rightarrow> ('u, 'k, 'm) event_loop_scheme \<Rightarrow> string + handle \<Rightarrow>
     ('u, 'k, 'm) event_loop_scheme \<Rightarrow> bool" where
  "watched opens interest s r s' \<longleftrightarrow>
     epollFd s' = epollFd s \<and> event_loop.more s' = event_loop.more s \<and> epollFd s \<in> opens (kern s') \<and>
     interest (epollFd s) (kern s') \<subseteq> fst ` set (events_map s') \<and>
     (case r of
        Inl e \<Rightarrow> fst ` set (events_map s') \<subseteq> fst ` set (events_map s)
      | Inr h \<Rightarrow> handle_valid h \<and> (owns h \<longrightarrow> handle_fd h \<noteq> epollFd s) \<and>
          fst ` set (events_map s') \<subseteq> insert (handle_fd h) (fst ` set (events_map s)))"

text \<open>The effect of a successful creation of a handle that owns its descriptor.\<close>

definition created ::
  "('k \<Rightarrow> int set) \<Rightarrow> (int \<Rightarrow> 'k \<Rightarrow> int set) \<Rightarrow> ('u, 'k, 'm) event_loop_scheme \<Rightarrow> handle \<Rightarrow> 'u callback \<Rightarrow>
     ('u, 'k, 'm) event_loop_scheme \<Rightarrow> bool" where
  "created opens interest s h cb s' \<longleftrightarrow>
     owns h \<and> handle_fd h \<notin> opens (kern s) \<and>
     (\<exists>ev. ev_fd ev = handle_fd h \<and> ev_callback ev = cb \<and> events_map s' = events_map s @ [(handle_fd h, ev)]) \<and>
     opens (kern s') = insert (handle_fd h) (opens (kern s)) \<and>
     interest (epollFd s) (kern s') = insert (handle_fd h) (interest (epollFd s) (kern s)) \<and>
     epollFd s' = epollFd s \<and> run_pc s' = run_pc s \<and> loop_stop s' = loop_stop s \<and>
     event_loop.more s' = event_loop.more s"

text \<open>The effect of a failed one; \<open>leak\<close> are the descriptors it leaves open.\<close>

definition create_failed ::
  "('k \<Rightarrow> int set) \<Rightarrow> (int \<Rightarrow> 'k \<Rightarrow> int set) \<Rightarrow> ('u, 'k, 'm) event_loop_scheme \<Rightarrow> int set \<Rightarrow>
     ('u, 'k, 'm) event_loop_scheme \<Rightarrow> bool" where
  "create_failed opens interest s leak s' \<longleftrightarrow>
     events_map s' = events_map s \<and> opens (kern s') = opens (kern s) \<union> leak \<and> leak \<inter> opens (kern s) = {} \<and>
     interest (epollFd s) (kern s') = interest (epollFd s) (kern s) \<and>
     epollFd s' = epollFd s \<and> run_pc s' = run_pc s \<and> loop_stop s' = loop_stop s \<and>
     length (fired_flags s) \<le> length (fired_flags s') \<and> event_loop.more s' = event_loop.more s"

text \<open>How many more steps \<open>run\<close> can take once it has been told to stop.\<close>

fun stop_measure :: "'u loop_pc \<Rightarrow> nat" where
  "stop_measure LTest = 1"
| "stop_measure LWait = 259"
| "stop_measure (LFor fds) = 4 * length fds + 2"
| "stop_measure (LCall cb fd fds) = 4 * length fds + 5"
| "stop_measure (LBody cb fd fds) = 4 * length fds + 4"
| "stop_measure (LAfter cb fds) = 4 * length fds + 3"
| "stop_measure LReturned = 0"
| "stop_measure (LThrew e) = 0"

definition is_run :: "'u loop_action \<Rightarrow> bool" where
  "is_run a = (case a of Api x \<Rightarrow> False | _ \<Rightarrow> True)"

text \<open>A client of a newly constructed loop.\<close>

definition loop_init :: "'k kernel_ops \<Rightarrow> ('u, 'k) client_loop \<Rightarrow> bool" where
  "loop_init K s \<longleftrightarrow> (\<exists>k. client_new K k = Inr s)"

section \<open>A concrete kernel and schedules\<close>

text \<open>
  A small kernel that follows the laws, for concrete runs: descriptors are numbered upwards, a
  limit on open descriptors and one on registrations make the calls fail, and the readiness
  reports are scripted.
\<close>

record skernel =
  sk_opens :: "int list"
  sk_interest :: "(int \<times> int) list"
  sk_ready :: "int list list"
  sk_room :: nat
  sk_fds :: nat

definition sk_open :: "skernel \<Rightarrow> int \<Rightarrow> bool" where
  "sk_open k fd \<longleftrightarrow> 0 \<le> fd \<and> fd \<in> set (sk_opens k)"

definition sk_registered :: "skernel \<Rightarrow> int \<Rightarrow> int \<Rightarrow> bool" where
  "sk_registered k ep fd \<longleftrightarrow> sk_open k ep \<and> (ep, fd) \<in> set (sk_interest k)"

definition sk_create :: "skernel \<Rightarrow> int \<times> skernel" where
  "sk_create k =
     (let fd = foldr max (sk_opens k) 2 + 1 in
      if length (sk_opens k) < sk_fds k
      then (fd, k\<lparr>sk_opens := fd # sk_opens k, sk_interest := filter (\<lambda>p. fst p \<noteq> fd) (sk_interest k)\<rparr>)
      else (-1, k))"

definition sk_ctl :: "int \<Rightarrow> ctl \<Rightarrow> int \<Rightarrow> u32 \<Rightarrow> skernel \<Rightarrow> errno option \<times> skernel" where
  "sk_ctl ep c fd fl k =
     (case c of
        CtlAdd \<Rightarrow>
          if sk_registered k ep fd then (Some EEXIST, k)
          else if \<not> sk_open k fd \<or> \<not> sk_open k ep then (Some (EOther 9), k)
          else if sk_room k \<le> length (sk_interest k) then (Some (EOther 28), k)
          else (None, k\<lparr>sk_interest := (ep, fd) # sk_interest k\<rparr>)
      | CtlMod \<Rightarrow> (if sk_registered k ep fd then None else Some ENOENT, k)
      | CtlDel \<Rightarrow> (if sk_registered k ep fd then None else Some ENOENT, k\<lparr>sk_interest := removeAll (ep, fd) (sk_interest k)\<rparr>))"

definition sk_wait :: "int \<Rightarrow> nat \<Rightarrow> int \<Rightarrow> skernel \<Rightarrow> (errno + int list) \<times> skernel" where
  "sk_wait ep n t k = (Inr (take n (filter (sk_registered k ep) (concat (take 1 (sk_ready k))))), k\<lparr>sk_ready := drop 1 (sk_ready k)\<rparr>)"

definition sk_close :: "int \<Rightarrow> skernel \<Rightarrow> skernel" where
  "sk_close fd k = k\<lparr>sk_opens := removeAll fd (sk_opens k), sk_interest := filter (\<lambda>p. fst p \<noteq> fd \<and> snd p \<noteq> fd) (sk_interest k)\<rparr>"

definition sk_ops :: "skernel kernel_ops" where
  "sk_ops = \<lparr>k_epoll_create1 = sk_create, k_epoll_ctl = sk_ctl, k_epoll_wait = sk_wait, k_eventfd = sk_create,
     k_timerfd_create = sk_create, k_timerfd_settime = (\<lambda>fd sp k. (None, k)), k_read = (\<lambda>fd k. (8, k)),
     k_write = (\<lambda>fd v k. (8, k)), k_close = sk_close, k_open = sk_create\<rparr>"

definition sk_open_set :: "skernel \<Rightarrow> int set" where
  "sk_open_set k = {fd. sk_open k fd}"

definition sk_interest_set :: "int \<Rightarrow> skernel \<Rightarrow> int set" where
  "sk_interest_set ep k = {fd. sk_registered k ep fd}"

text \<open>A loop whose kernel has descriptors 0 to 2 open, with room for \<open>room\<close> registrations.\<close>

definition sample_loop :: "int list list \<Rightarrow> nat \<Rightarrow> (nat, skernel) client_loop" where
  "sample_loop ready room =
     \<lparr>epollFd = 3, loop_stop = False, events_map = [],
      kern = \<lparr>sk_opens = [3, 0, 1, 2], sk_interest = [], sk_ready = ready, sk_room = room, sk_fds = 8\<rparr>,
      fired_flags = [], run_pc = LTest, handles = []\<rparr>"

text \<open>A timer that fires and is released, with a user descriptor and a trigger besides.\<close>

definition timer_schedule :: "nat loop_action list" where
  "timer_schedule = [Api (CreateTimer 100 (Some 7)), Api (CreateTrigger None), Api (CreateEvent 0 1 SOCKET (Some 8)),
     Run, Run, Run, Run, BodyReturns, Run, Api (Trigger 1), Api (Move 0), Api Stop]"

text \<open>The callback is copied, the handle is destroyed by another thread, the callback runs.\<close>

definition late_call_schedule :: "nat loop_action list" where
  "late_call_schedule = [Api (CreateTimer 100 (Some 7)), Run, Run, Run, Api (Release 0), Run]"

text \<open>In one batch: the first callback destroys the second timer and creates a new one.\<close>

definition stale_event_schedule :: "nat loop_action list" where
  "stale_event_schedule = [Api (CreateTimer 10 (Some 7)), Api (CreateTimer 10 (Some 8)), Run, Run, Run, Run,
     Api (Release 1), Api (CreateTimer 60000 (Some 9)), BodyReturns, Run, Run, Run, BodyReturns, Run]"

text \<open>Two handles on one user descriptor; the first one is destroyed.\<close>

definition shared_fd_schedule :: "nat loop_action list" where
  "shared_fd_schedule = [Api (CreateEvent 0 1 SOCKET (Some 7)), Api (CreateEvent 0 4 SOCKET (Some 8)), Api (Release 0)]"

text \<open>A descriptor of the client that is closed while its handle lives, and whose number the next
  timer gets; at the end the old handle is destroyed.\<close>

definition early_close_schedule :: "nat loop_action list" where
  "early_close_schedule = [Api OpenFd, Api (CreateEvent 4 1 SOCKET (Some 7)), Api (CloseFd 4), Api (CreateTimer 100 (Some 8)), Api (Release 0)]"

text \<open>The same descriptor, released and then closed.\<close>

definition kept_close_schedule :: "nat loop_action list" where
  "kept_close_schedule = [Api OpenFd, Api (CreateEvent 4 1 SOCKET (Some 7)), Api (CreateTimer 100 (Some 8)), Api (Release 0), Api (CloseFd 4)]"

section \<open>Lemmas\<close>

subsection \<open>The laws of the system calls\<close>

lemma law_ctl:
  assumes "kernel_laws K opens interest" "k_epoll_ctl K ep c fd fl k = (e, k')"
  shows "opens k' = opens k"
    and "c = CtlAdd \<Longrightarrow> e = Some EEXIST \<longleftrightarrow> fd \<in> interest ep k"
    and "c = CtlAdd \<Longrightarrow> e = None \<Longrightarrow> fd \<in> opens k"
    and "c = CtlAdd \<Longrightarrow> interest ep k' = (if e = None then insert fd (interest ep k) else interest ep k)"
    and "c = CtlMod \<Longrightarrow> interest ep k' = interest ep k"
    and "c = CtlDel \<Longrightarrow> interest ep k' = interest ep k - {fd}"
proof -
  have "ctl_laws K opens interest" using assms(1) by (simp add: kernel_laws_def)
  note L = this [unfolded ctl_laws_def, rule_format, OF assms(2)]
  show "opens k' = opens k" using L by (rule conjunct1)
  show "e = Some EEXIST \<longleftrightarrow> fd \<in> interest ep k" if "c = CtlAdd" using L that by simp
  show "fd \<in> opens k" if "c = CtlAdd" "e = None" using L that by simp
  show "interest ep k' = (if e = None then insert fd (interest ep k) else interest ep k)" if "c = CtlAdd"
    using L that by simp
  show "interest ep k' = interest ep k" if "c = CtlMod" using L that by simp
  show "interest ep k' = interest ep k - {fd}" if "c = CtlDel" using L that by simp
qed

lemma law_ctl_del [simp]:
  assumes "kernel_laws K opens interest"
  shows "opens (snd (k_epoll_ctl K ep CtlDel fd fl k)) = opens k"
    and "interest ep (snd (k_epoll_ctl K ep CtlDel fd fl k)) = interest ep k - {fd}"
  using law_ctl(1,6) [OF assms, of ep CtlDel fd fl k] by (metis prod.collapse)+

lemma law_close [simp]:
  assumes "kernel_laws K opens interest"
  shows "opens (k_close K fd k) = opens k - {fd}"
    and "interest ep (k_close K fd k) = (if ep = fd then {} else interest ep k - {fd})"
  using assms by (auto simp: kernel_laws_def close_laws_def)

lemma law_quiet [simp]:
  assumes "kernel_laws K opens interest"
  shows "opens (snd (k_timerfd_settime K fd sp k)) = opens k"
    and "interest ep (snd (k_timerfd_settime K fd sp k)) = interest ep k"
    and "opens (snd (k_read K fd k)) = opens k" and "interest ep (snd (k_read K fd k)) = interest ep k"
    and "opens (snd (k_write K fd v k)) = opens k" and "interest ep (snd (k_write K fd v k)) = interest ep k"
    and "opens (snd (k_epoll_wait K ep' n t k)) = opens k"
    and "interest ep (snd (k_epoll_wait K ep' n t k)) = interest ep k"
  using assms by (simp_all add: kernel_laws_def quiet_laws_def)

lemma law_create:
  assumes "kernel_laws K opens interest" "mk \<in> {k_epoll_create1 K, k_eventfd K, k_timerfd_create K, k_open K}" "mk k = (fd, k')"
  shows "interest ep k' = interest ep k"
    and "fd < 0 \<Longrightarrow> opens k' = opens k"
    and "0 \<le> fd \<Longrightarrow> fd \<notin> opens k"
    and "0 \<le> fd \<Longrightarrow> opens k' = insert fd (opens k)"
proof -
  have "create_laws mk opens interest" using assms(1,2) by (auto simp: kernel_laws_def)
  note L = this [unfolded create_laws_def, rule_format, OF assms(3)]
  show "interest ep k' = interest ep k" using L by blast
  show "fd < 0 \<Longrightarrow> opens k' = opens k" using L by simp
  show "0 \<le> fd \<Longrightarrow> fd \<notin> opens k" using L by simp
  show "0 \<le> fd \<Longrightarrow> opens k' = insert fd (opens k)" using L by simp
qed

lemma law_wait:
  assumes "kernel_laws K opens interest" "k_epoll_wait K ep n t k = (Inr fds, k')"
  shows "length fds \<le> n" "set fds \<subseteq> interest ep k"
proof -
  have "wait_laws K interest" using assms(1) by (simp add: kernel_laws_def)
  then show "length fds \<le> n" "set fds \<subseteq> interest ep k" using assms(2) unfolding wait_laws_def by blast+
qed

lemma law_wait_quiet:
  assumes "kernel_laws K opens interest" "k_epoll_wait K ep n t k = (r, k')"
  shows "opens k' = opens k" "interest ep' k' = interest ep' k"
  using law_quiet(7,8) [OF assms(1)] assms(2) by (metis snd_conv)+

lemma law_open_nonneg: "kernel_laws K opens interest \<Longrightarrow> fd \<in> opens k \<Longrightarrow> 0 \<le> fd"
  by (simp add: kernel_laws_def)

lemma law_closed_interest: "kernel_laws K opens interest \<Longrightarrow> ep \<notin> opens k \<Longrightarrow> interest ep k = {}"
  by (simp add: kernel_laws_def)

subsection \<open>Registration\<close>

lemma registerEvent_cases:
  assumes L: "kernel_laws K opens interest" and r: "registerEvent K ev s = (r, s')"
  obtains (ok) k where "r = Inr ()" "s' = s\<lparr>kern := k, events_map := AList.update (ev_fd ev) ev (events_map s)\<rparr>"
      "opens k = opens (kern s)" "interest (epollFd s) k = insert (ev_fd ev) (interest (epollFd s) (kern s))"
      "ev_fd ev \<in> opens (kern s) \<or> ev_fd ev \<in> interest (epollFd s) (kern s)"
  | (err) e k where "r = Inl e" "s' = s\<lparr>kern := k\<rparr>" "opens k = opens (kern s)"
      "interest (epollFd s) k = interest (epollFd s) (kern s)"
proof -
  obtain e k where 1: "k_epoll_ctl K (epollFd s) CtlAdd (ev_fd ev) (ev_flags ev) (kern s) = (e, k)"
    by (cases "k_epoll_ctl K (epollFd s) CtlAdd (ev_fd ev) (ev_flags ev) (kern s)")
  note add = law_ctl [OF L 1]
  show thesis
  proof (cases "e = Some EEXIST")
    case True
    obtain e' k' where 2: "k_epoll_ctl K (epollFd s) CtlMod (ev_fd ev) (ev_flags ev) k = (e', k')"
      by (cases "k_epoll_ctl K (epollFd s) CtlMod (ev_fd ev) (ev_flags ev) k")
    note md = law_ctl [OF L 2]
    have "interest (epollFd s) k' = interest (epollFd s) (kern s)" "opens k' = opens (kern s)"
      "ev_fd ev \<in> interest (epollFd s) (kern s)"
      using add md True by auto
    with r 1 2 True show thesis
      by (cases e') (auto simp: registerEvent_def Let_def insert_absorb intro: ok err)
  next
    case False
    with r 1 add show thesis
      by (cases e rule: option.exhaust)
        (auto simp: registerEvent_def Let_def intro: ok err split: errno.splits)
  qed
qed

lemma reg_inv_keys_open: "reg_inv opens interest s \<Longrightarrow> fd \<in> fst ` set (events_map s) \<Longrightarrow> fd \<in> opens (kern s)"
  unfolding reg_inv_def by blast

text \<open>The state after a successful registration, and after a change the registry does not see.\<close>

lemma reg_inv_register:
  assumes "reg_inv opens interest s" "opens k = opens (kern s)"
    "interest (epollFd s) k = insert (ev_fd ev) (interest (epollFd s) (kern s))"
    "ev_fd ev \<in> opens (kern s) \<or> ev_fd ev \<in> interest (epollFd s) (kern s)"
    "cb_ok (length (fired_flags s)) (ev_callback ev)"
  shows "reg_inv opens interest (s\<lparr>kern := k, events_map := AList.update (ev_fd ev) ev (events_map s)\<rparr>)"
proof -
  let ?m = "AList.update (ev_fd ev) ev (events_map s)"
  have d: "distinct (map fst ?m)" using assms(1) by (simp add: reg_inv_def distinct_update)
  have keys: "fst ` set ?m = insert (ev_fd ev) (fst ` set (events_map s))" by (simp add: dom_update)
  have "ev_fd e = fd \<and> cb_ok (length (fired_flags s)) (ev_callback e)" if "(fd, e) \<in> set ?m" for fd e
  proof -
    have "map_of ?m fd = Some e" using that d by simp
    then have "(fd = ev_fd ev \<and> e = ev) \<or> (fd, e) \<in> set (events_map s)"
      by (auto simp: update_conv split: if_splits dest: map_of_SomeD)
    with assms(1,5) show ?thesis by (auto simp: reg_inv_def)
  qed
  with d keys assms show ?thesis by (auto simp: reg_inv_def)
qed

lemma cb_ok_mono: "cb_ok n cb \<Longrightarrow> n \<le> m \<Longrightarrow> cb_ok m cb"
  by (auto simp: cb_ok_def split: callback.splits)

lemma reg_inv_frame:
  assumes "reg_inv opens interest s" "events_map s' = events_map s" "epollFd s' = epollFd s"
    "opens (kern s) \<subseteq> opens (kern s')" "interest (epollFd s) (kern s') = interest (epollFd s) (kern s)"
    "length (fired_flags s) \<le> length (fired_flags s')"
  shows "reg_inv opens interest s'"
proof -
  have "ev_fd ev = fd \<and> cb_ok (length (fired_flags s')) (ev_callback ev)" if "(fd, ev) \<in> set (events_map s')" for fd ev
    using that assms(1,2) cb_ok_mono [OF _ assms(6)] by (fastforce simp: reg_inv_def)
  with assms show ?thesis by (auto simp: reg_inv_def)
qed

lemma reg_inv_delete:
  assumes "reg_inv opens interest s" "events_map s' = AList.delete fd (events_map s)" "epollFd s' = epollFd s"
    "interest (epollFd s) (kern s') = interest (epollFd s) (kern s) - {fd}" "opens (kern s) - {fd} \<subseteq> opens (kern s')"
    "epollFd s \<in> opens (kern s')" "fired_flags s' = fired_flags s"
  shows "reg_inv opens interest s'"
proof -
  have keys: "fst ` set (AList.delete fd (events_map s)) = fst ` set (events_map s) - {fd}"
    by (auto simp: AList.delete_eq image_iff)
  have sub: "ev_fd ev = x \<and> cb_ok (length (fired_flags s)) (ev_callback ev)"
    if "(x, ev) \<in> set (AList.delete fd (events_map s))" for x ev
    using that assms(1) by (auto simp: AList.delete_eq reg_inv_def)
  have ks: "fst ` set (events_map s) = interest (epollFd s) (kern s)" "interest (epollFd s) (kern s) \<subseteq> opens (kern s)"
    "distinct (map fst (events_map s))" using assms(1) by (auto simp: reg_inv_def)
  have "interest (epollFd s) (kern s) - {fd} \<subseteq> opens (kern s')" using ks assms(5) by blast
  with sub ks keys assms(2-4,6,7) show ?thesis by (auto simp: reg_inv_def distinct_delete)
qed

subsection \<open>Handles\<close>

lemma handle_release_effect:
  assumes L: "kernel_laws K opens interest" and r: "handle_release K h s = (h', s')"
  shows "\<not> handle_valid h'" "\<not> owns h'"
    and "\<not> handle_valid h \<Longrightarrow> s' = s"
    and "handle_valid h \<Longrightarrow> events_map s' = AList.delete (handle_fd h) (events_map s)"
    and "handle_valid h \<Longrightarrow> epollFd s \<noteq> handle_fd h \<or> \<not> owns h \<Longrightarrow>
          interest (epollFd s) (kern s') = interest (epollFd s) (kern s) - {handle_fd h}"
    and "opens (kern s') = (if owns h then opens (kern s) - {handle_fd h} else opens (kern s))"
    and "epollFd s' = epollFd s" "fired_flags s' = fired_flags s" "run_pc s' = run_pc s" "loop_stop s' = loop_stop s"
    and "event_loop.more s' = event_loop.more s"
    and "map_option h_fired h' = map_option h_fired h"
  using r L
  by (auto simp: handle_release_def unregisterEvent_def handle_valid_def owns_def handle_fd_def Let_def
      split: option.splits if_splits)

lemma owns_valid: "owns h \<Longrightarrow> handle_valid h"
  by (auto simp: owns_def handle_valid_def split: option.splits)

lemma reg_inv_release:
  assumes L: "kernel_laws K opens interest" and inv: "reg_inv opens interest s"
    and r: "handle_release K h s = (h', s')" and ep: "owns h \<longrightarrow> handle_fd h \<noteq> epollFd s"
  shows "reg_inv opens interest s'"
proof (cases "handle_valid h")
  case True
  note R = handle_release_effect [OF L r]
  have "epollFd s \<in> opens (kern s)" using inv by (simp add: reg_inv_def)
  then show ?thesis using R(4,5) [OF True] R(6-8) ep
    by (intro reg_inv_delete [OF inv, of s' "handle_fd h"]) (auto split: if_splits)
next
  case False
  with handle_release_effect(3) [OF L r] inv show ?thesis by simp
qed

lemma own_inv_valid_unshared:
  "own_inv hs s \<Longrightarrow> i < length hs \<Longrightarrow> handle_valid (hs ! i) \<Longrightarrow> j < length hs \<Longrightarrow> owns (hs ! j) \<Longrightarrow> j \<noteq> i \<Longrightarrow>
    handle_fd (hs ! j) \<noteq> handle_fd (hs ! i)"
  unfolding own_inv_def by metis

lemma own_inv_release:
  assumes L: "kernel_laws K opens interest" and inv: "own_inv hs s" and i: "i < length hs"
    and r: "handle_release K (hs ! i) s = (h', s')"
  shows "own_inv (hs[i := h']) s'"
proof (cases "handle_valid (hs ! i)")
  case True
  note R = handle_release_effect [OF L r]
  have keys: "fst ` set (events_map s') = fst ` set (events_map s) - {handle_fd (hs ! i)}"
    using R(4) [OF True] by (auto simp: AList.delete_eq image_iff)
  show ?thesis unfolding own_inv_def
  proof (intro allI impI conjI)
    fix j assume j: "j < length (hs[i := h'])" "owns (hs[i := h'] ! j)"
    then have ji: "j \<noteq> i" using R(2) i by auto
    with j have o: "j < length hs" "owns (hs ! j)" by auto
    have I: "handle_fd (hs ! j) \<in> fst ` set (events_map s)" "handle_fd (hs ! j) \<noteq> epollFd s"
      "\<And>l. l < length hs \<Longrightarrow> l \<noteq> j \<Longrightarrow> handle_valid (hs ! l) \<Longrightarrow> handle_fd (hs ! l) \<noteq> handle_fd (hs ! j)"
      using inv o unfolding own_inv_def by auto
    show "handle_fd (hs[i := h'] ! j) \<in> fst ` set (events_map s')" using keys I(1) own_inv_valid_unshared [OF inv i True o ji] ji by auto
    show "handle_fd (hs[i := h'] ! j) \<noteq> epollFd s'" using I(2) R(7) ji by simp
    fix l assume "l < length (hs[i := h'])" "l \<noteq> j" "handle_valid (hs[i := h'] ! l)"
    then show "handle_fd (hs[i := h'] ! l) \<noteq> handle_fd (hs[i := h'] ! j)"
      using I(3) [of l] R(1) i ji by (cases "l = i") auto
  qed
next
  case False
  with handle_release_effect(1-3) [OF L r] inv i show ?thesis
    by (auto simp: own_inv_def nth_list_update dest: owns_valid)
qed


subsection \<open>Creation\<close>

lemma update_fresh: "fd \<notin> fst ` set xs \<Longrightarrow> AList.update fd v xs = xs @ [(fd, v)]"
  by (induction xs) auto

lemma delete_snoc: "fd \<notin> fst ` set xs \<Longrightarrow> AList.delete fd (xs @ [(fd, v)]) = xs"
  by (induction xs) auto

lemma register_fresh:
  assumes L: "kernel_laws K opens interest" and inv: "reg_inv opens interest s"
    and k: "opens k = insert (ev_fd ev) (opens (kern s))" "\<And>ep. interest ep k = interest ep (kern s)"
    and fresh: "ev_fd ev \<notin> opens (kern s)"
    and r: "registerEvent K ev (s\<lparr>kern := k, fired_flags := fl\<rparr>) = (r, s')"
    and fl: "length (fired_flags s) \<le> length fl" "cb_ok (length fl) (ev_callback ev)"
    and h: "owns h" "handle_fd h = ev_fd ev"
  shows "r = Inr () \<and> created opens interest s h (ev_callback ev) s' \<and> reg_inv opens interest s' \<and> fired_flags s' = fl \<or>
    (\<exists>e. r = Inl e) \<and> create_failed opens interest s {ev_fd ev} s' \<and> reg_inv opens interest s' \<and> fired_flags s' = fl"
proof -
  let ?s1 = "s\<lparr>kern := k, fired_flags := fl\<rparr>"
  have nokey: "ev_fd ev \<notin> fst ` set (events_map s)" using inv fresh by (auto simp: reg_inv_def)
  have i1: "reg_inv opens interest ?s1" using k fl(1) by (intro reg_inv_frame [OF inv]) auto
  from L r show ?thesis
  proof (cases rule: registerEvent_cases)
    case (ok k')
    have "reg_inv opens interest s'" unfolding ok(2)
      using ok(3-5) fl(2) by (intro reg_inv_register [OF i1]) auto
    with ok nokey k fresh h show ?thesis by (auto simp: created_def update_fresh)
  next
    case (err e k')
    have "reg_inv opens interest s'" unfolding err(2)
      using err(3,4) by (intro reg_inv_frame [OF i1]) auto
    with err k fresh fl show ?thesis by (auto simp: create_failed_def)
  qed
qed

lemma owns_mk_handle [simp]: "owns (mk_handle fd True) \<longleftrightarrow> 0 \<le> fd" "owns (mk_handle fd False) \<longleftrightarrow> False"
  "owns (mk_timer_handle fd r) \<longleftrightarrow> 0 \<le> fd" "handle_fd (mk_handle fd own) = fd" "handle_fd (mk_timer_handle fd r) = fd"
  "handle_valid (mk_handle fd own) \<longleftrightarrow> 0 \<le> fd" "handle_valid (mk_timer_handle fd r) \<longleftrightarrow> 0 \<le> fd"
  by (simp_all add: owns_def mk_handle_def mk_timer_handle_def handle_fd_def handle_valid_def)

lemma prepareEvent_sel [simp]:
  "ev_fd (prepareEvent fd fl ty cb) = fd" "ev_callback (prepareEvent fd fl ty cb) = cb"
  by (simp_all add: prepareEvent_def)

lemma createTrigger_effect:
  assumes L: "kernel_laws K opens interest" and inv: "reg_inv opens interest s" and c: "createTrigger K cb s = (r, s')"
  shows "reg_inv opens interest s' \<and> fired_flags s' = fired_flags s \<and>
    (case r of
       Inr h \<Rightarrow> created opens interest s h (OnTrigger cb) s' \<and> (\<exists>fd. h = mk_handle fd True)
     | Inl e \<Rightarrow> create_failed opens interest s (if 0 \<le> fst (k_eventfd K (kern s)) then {fst (k_eventfd K (kern s))} else {}) s')"
proof -
  obtain fd k where f: "k_eventfd K (kern s) = (fd, k)" by (cases "k_eventfd K (kern s)")
  note mk = law_create [where mk = "k_eventfd K", OF L _ f, simplified]
  show ?thesis
  proof (cases "fd < 0")
    case True
    then have "reg_inv opens interest (s\<lparr>kern := k\<rparr>)" using mk by (intro reg_inv_frame [OF inv]) auto
    with True c f mk show ?thesis by (auto simp: createTrigger_def create_failed_def)
  next
    case False
    let ?ev = "prepareEvent fd EPOLLIN TRIGGER (OnTrigger cb)"
    obtain r' where r': "registerEvent K ?ev (s\<lparr>kern := k, fired_flags := fired_flags s\<rparr>) = (r', s')"
      "r = map_sum id (\<lambda>_. mk_handle fd True) r'"
      using c f False by (auto simp: createTrigger_def split: sum.splits prod.splits)
    from register_fresh [OF L inv _ _ _ r'(1), of "mk_handle fd True"] mk False r'(2) f show ?thesis
      by (auto simp: cb_ok_def)
  qed
qed

lemma createInterval_effect:
  assumes L: "kernel_laws K opens interest" and inv: "reg_inv opens interest s"
    and c: "loop_createInterval K ms cb s = (r, s')"
  shows "reg_inv opens interest s' \<and> fired_flags s' = fired_flags s \<and>
    (case r of
       Inr h \<Rightarrow> created opens interest s h (OnInterval cb) s' \<and> (\<exists>fd. h = mk_handle fd True)
     | Inl e \<Rightarrow> create_failed opens interest s (if 0 \<le> fst (k_timerfd_create K (kern s)) then {fst (k_timerfd_create K (kern s))} else {}) s')"
proof -
  obtain fd k where f: "k_timerfd_create K (kern s) = (fd, k)" by (cases "k_timerfd_create K (kern s)")
  note mk = law_create [where mk = "k_timerfd_create K", OF L _ f, simplified]
  show ?thesis
  proof (cases "fd < 0")
    case True
    then have "reg_inv opens interest (s\<lparr>kern := k\<rparr>)" using mk by (intro reg_inv_frame [OF inv]) auto
    with True c f mk show ?thesis by (auto simp: loop_createInterval_def create_failed_def)
  next
    case False
    let ?ev = "prepareEvent fd EPOLLIN TIMER (OnInterval cb)"
    let ?k = "snd (k_timerfd_settime K fd (prepareIntervalSpec ms) k)"
    obtain r' where r': "registerEvent K ?ev (s\<lparr>kern := ?k, fired_flags := fired_flags s\<rparr>) = (r', s')"
      "r = map_sum id (\<lambda>_. mk_handle fd True) r'"
      using c f False by (auto simp: loop_createInterval_def Let_def split: sum.splits prod.splits)
    from register_fresh [OF L inv _ _ _ r'(1), of "mk_handle fd True"] mk False r'(2) f L show ?thesis
      by (auto simp: cb_ok_def)
  qed
qed

text \<open>The timer's handle releases the descriptor when the registration has failed.\<close>

lemma create_unwound:
  assumes L: "kernel_laws K opens interest" and inv: "reg_inv opens interest s"
    and cf: "create_failed opens interest s {fd} s2" "reg_inv opens interest s2" "fired_flags s2 = fired_flags s @ [False]"
    and fd: "fd \<notin> opens (kern s)" and rel: "handle_release K (mk_timer_handle fd r) s2 = (h3, s3)" and pos: "0 \<le> fd"
  shows "reg_inv opens interest s3 \<and> create_failed opens interest s {} s3"
proof
  have ep: "fd \<noteq> epollFd s2" using fd inv cf by (auto simp: create_failed_def reg_inv_def)
  note R = handle_release_effect [OF L rel]
  have nofd: "fd \<notin> fst ` set (events_map s)" "fd \<notin> interest (epollFd s) (kern s)"
    using inv fd by (auto simp: reg_inv_def)
  have v: "handle_valid (mk_timer_handle fd r)" using pos by simp
  show "reg_inv opens interest s3" using reg_inv_release [OF L cf(2) rel] ep pos by simp
  show "create_failed opens interest s {} s3"
    using R(4) [OF v] R(5) [OF v] R(6-11) cf(1,3) nofd fd pos ep by (simp add: create_failed_def)
qed

lemma createTimer_effect:
  assumes L: "kernel_laws K opens interest" and inv: "reg_inv opens interest s"
    and c: "loop_createTimer K ms cb s = (r, s')"
  shows "reg_inv opens interest s' \<and>
    (case r of
       Inr h \<Rightarrow> created opens interest s h (OnTimer (length (fired_flags s)) cb) s' \<and>
         (\<exists>fd. h = mk_timer_handle fd (length (fired_flags s))) \<and> fired_flags s' = fired_flags s @ [False]
     | Inl e \<Rightarrow> create_failed opens interest s {} s')"
proof -
  obtain fd k where f: "k_timerfd_create K (kern s) = (fd, k)" by (cases "k_timerfd_create K (kern s)")
  note mk = law_create [where mk = "k_timerfd_create K", OF L _ f, simplified]
  show ?thesis
  proof (cases "fd < 0")
    case True
    then have "reg_inv opens interest (s\<lparr>kern := k\<rparr>)" using mk by (intro reg_inv_frame [OF inv]) auto
    with True c f mk show ?thesis by (auto simp: loop_createTimer_def create_failed_def)
  next
    case False
    let ?r = "length (fired_flags s)"
    let ?ev = "prepareEvent fd EPOLLIN TIMER (OnTimer ?r cb)"
    let ?s1 = "s\<lparr>kern := snd (k_timerfd_settime K fd (oneShotSpec ms) k), fired_flags := fired_flags s @ [False]\<rparr>"
    obtain r' s2 where r': "registerEvent K ?ev ?s1 = (r', s2)" by (cases "registerEvent K ?ev ?s1")
    have F: "r' = Inr () \<and> created opens interest s (mk_timer_handle fd ?r) (OnTimer ?r cb) s2 \<and>
        reg_inv opens interest s2 \<and> fired_flags s2 = fired_flags s @ [False] \<or>
      (\<exists>e. r' = Inl e) \<and> create_failed opens interest s {fd} s2 \<and> reg_inv opens interest s2 \<and>
        fired_flags s2 = fired_flags s @ [False]"
      using register_fresh [OF L inv _ _ _ r', of "mk_timer_handle fd ?r"] mk False L by (simp add: cb_ok_def)
    show ?thesis
    proof (cases r')
      case (Inr u)
      with c f False r' have "r = Inr (mk_timer_handle fd ?r)" "s' = s2" by (auto simp: loop_createTimer_def Let_def)
      with F Inr show ?thesis by auto
    next
      case (Inl e)
      obtain h3 s3 where rel: "handle_release K (mk_timer_handle fd ?r) s2 = (h3, s3)"
        by (cases "handle_release K (mk_timer_handle fd ?r) s2")
      with c f False r' Inl have rs: "r = Inl e" "s' = s3" by (auto simp: loop_createTimer_def Let_def)
      from F Inl have cf: "create_failed opens interest s {fd} s2" "reg_inv opens interest s2" "fired_flags s2 = fired_flags s @ [False]"
        by auto
      have "fd \<notin> opens (kern s)" using mk(3) False by auto
      with create_unwound [OF L inv cf _ rel] False rs show ?thesis by simp
    qed
  qed
qed

lemma createEvent_effect:
  assumes L: "kernel_laws K opens interest" and inv: "reg_inv opens interest s"
    and c: "createEvent K fd fl ty cb s = (r, s')"
  shows "reg_inv opens interest s' \<and> fired_flags s' = fired_flags s \<and> epollFd s' = epollFd s \<and> run_pc s' = run_pc s \<and>
    loop_stop s' = loop_stop s \<and> event_loop.more s' = event_loop.more s \<and> opens (kern s') = opens (kern s) \<and>
    (case r of
       Inr h \<Rightarrow> h = mk_handle fd False \<and> 0 \<le> fd \<and>
         events_map s' = AList.update fd (prepareEvent fd fl ty (OnEvent cb)) (events_map s)
     | Inl e \<Rightarrow> events_map s' = events_map s)"
proof -
  let ?ev = "prepareEvent fd fl ty (OnEvent cb)"
  obtain r' where r': "registerEvent K ?ev s = (r', s')" "r = map_sum id (\<lambda>_. mk_handle fd False) r'"
    using c by (auto simp: createEvent_def split: sum.splits prod.splits)
  from L r'(1) show ?thesis
  proof (cases rule: registerEvent_cases)
    case (ok k)
    have "reg_inv opens interest s'" unfolding ok(2)
      using ok(3-5) by (intro reg_inv_register [OF inv]) (auto simp: cb_ok_def)
    moreover have "fd \<in> opens (kern s)" using ok(5) inv by (auto simp: reg_inv_def)
    ultimately show ?thesis using ok r'(2) law_open_nonneg [OF L] by auto
  next
    case (err e k)
    have "reg_inv opens interest s'" unfolding err(2) using err(3,4) by (intro reg_inv_frame [OF inv]) auto
    with err r'(2) show ?thesis by auto
  qed
qed

subsection \<open>The invariant of a client\<close>

lemma own_inv_frame:
  "own_inv hs s \<Longrightarrow> fst ` set (events_map s) \<subseteq> fst ` set (events_map s') \<Longrightarrow> epollFd s' = epollFd s \<Longrightarrow> own_inv hs s'"
  unfolding own_inv_def by auto

lemma flags_inv_mono: "flags_inv n hs \<Longrightarrow> n \<le> m \<Longrightarrow> flags_inv m hs"
  unfolding flags_inv_def flag_ok_def by (fastforce split: option.splits)

lemma pc_inv_mono: "pc_inv n pc \<Longrightarrow> n \<le> m \<Longrightarrow> pc_inv m pc"
  by (auto simp: pc_inv_def intro: cb_ok_mono split: loop_pc.splits)

text \<open>A new handle in the list: its descriptor is not in use.\<close>

lemma own_inv_snoc:
  assumes inv: "own_inv hs s" and keys: "fst ` set (events_map s') = insert (handle_fd h) (fst ` set (events_map s))"
    and ep: "epollFd s' = epollFd s" "owns h \<Longrightarrow> handle_fd h \<noteq> epollFd s"
    and new: "\<And>g. g \<in> set hs \<Longrightarrow> owns g \<or> owns h \<and> handle_valid g \<Longrightarrow> handle_fd g \<noteq> handle_fd h"
  shows "own_inv (hs @ [h]) s'"
  using assms unfolding own_inv_def
  by (auto simp: nth_append less_Suc_eq)

lemma inv_handles [simp]:
  "reg_inv opens interest (s\<lparr>handles := hs\<rparr>) = reg_inv opens interest s"
  "own_inv gs (s\<lparr>handles := hs\<rparr>) = own_inv gs s"
  "open_inv opens gs (s\<lparr>handles := hs\<rparr>) = open_inv opens gs s"
  by (simp_all add: reg_inv_def own_inv_def open_inv_def)

lemma flag_ok_None [simp]: "flag_ok n None"
  by (simp add: flag_ok_def)

lemma client_inv_quiet:
  assumes "client_inv opens interest s" "opens k = opens (kern s)" "interest (epollFd s) k = interest (epollFd s) (kern s)"
    "pc_inv (length (fired_flags s)) pc"
  shows "client_inv opens interest (s\<lparr>kern := k, loop_stop := b, run_pc := pc\<rparr>)"
proof -
  have "reg_inv opens interest (s\<lparr>kern := k, loop_stop := b, run_pc := pc\<rparr>)"
    using assms reg_inv_frame [of opens interest s "s\<lparr>kern := k, loop_stop := b, run_pc := pc\<rparr>"]
    by (simp add: client_inv_def)
  with assms show ?thesis by (auto simp: client_inv_def own_inv_def open_inv_def)
qed

lemma client_inv_kern:
  assumes "client_inv opens interest s" "opens k = opens (kern s)" "interest (epollFd s) k = interest (epollFd s) (kern s)"
  shows "client_inv opens interest (s\<lparr>kern := k\<rparr>)"
  using client_inv_quiet [OF assms, of "run_pc s" "loop_stop s"] assms(1) by (simp add: client_inv_def)

lemma flags_inv_append [simp]: "flags_inv n (gs @ hs) \<longleftrightarrow> flags_inv n gs \<and> flags_inv n hs"
  by (auto simp: flags_inv_def)

lemma client_invI:
  assumes "client_inv opens interest s" "reg_inv opens interest s'" "own_inv (handles s') s'" "open_inv opens (handles s') s'"
    "run_pc s' = run_pc s" "length (fired_flags s) \<le> length (fired_flags s')" "flags_inv (length (fired_flags s')) (handles s')"
  shows "client_inv opens interest s'"
  using assms pc_inv_mono by (auto simp: client_inv_def)

lemma client_inv_failed:
  assumes inv: "client_inv opens interest s" and r: "reg_inv opens interest s'" and f: "create_failed opens interest s leak s'"
  shows "client_inv opens interest s'"
proof -
  have "handles s' = handles s" using f by (cases s; cases s') (simp add: create_failed_def)
  moreover have "own_inv (handles s) s'"
    using own_inv_frame [of "handles s" s s'] inv f by (simp add: client_inv_def create_failed_def)
  moreover have "flags_inv (length (fired_flags s')) (handles s)"
    using flags_inv_mono [of "length (fired_flags s)"] inv f by (simp add: client_inv_def create_failed_def)
  ultimately show ?thesis using inv f
    by (intro client_invI [OF inv r]) (auto simp: client_inv_def create_failed_def open_inv_def)
qed

lemma client_inv_created:
  assumes inv: "client_inv opens interest s" and r: "reg_inv opens interest s'" and c: "created opens interest s h cb s'"
    and fl: "length (fired_flags s) \<le> length (fired_flags s')" "flags_inv (length (fired_flags s')) [h]"
  shows "client_inv opens interest (s'\<lparr>handles := handles s' @ [h]\<rparr>)"
proof -
  have hs: "handles s' = handles s" using c by (cases s; cases s') (simp add: created_def)
  have reg: "reg_inv opens interest s" and own: "own_inv (handles s) s" and op: "open_inv opens (handles s) s"
    and fi: "flags_inv (length (fired_flags s)) (handles s)" using inv by (auto simp: client_inv_def)
  have ep: "handle_fd h \<noteq> epollFd s" using c reg by (auto simp: created_def reg_inv_def)
  have new: "handle_fd g \<noteq> handle_fd h" if "g \<in> set (handles s)" "handle_valid g" for g
    using that op c by (auto simp: open_inv_def created_def)
  have "own_inv (handles s @ [h]) s'"
    using c ep new by (intro own_inv_snoc [OF own]) (auto simp: created_def dest: owns_valid)
  moreover have "open_inv opens (handles s @ [h]) s'" using op c by (auto simp: open_inv_def created_def)
  moreover have "flags_inv (length (fired_flags s')) (handles s @ [h])"
    using flags_inv_mono [OF fi fl(1)] fl(2) by (auto simp: flags_inv_def)
  ultimately show ?thesis using r c fl hs
    by (intro client_invI [OF inv]) (auto simp: created_def own_inv_def open_inv_def reg_inv_def)
qed

lemma flags_inv_mk [simp]: "flags_inv n [mk_handle fd own]" "flags_inv n [mk_timer_handle fd r] \<longleftrightarrow> r < n"
  by (simp_all add: flags_inv_def flag_ok_def mk_handle_def mk_timer_handle_def)

lemma client_inv_keep:
  assumes inv: "client_inv opens interest s" and r: "reg_inv opens interest s'"
    and fl: "length (fired_flags s) \<le> length (fired_flags s')"
    and c: "case r of
       Inr h \<Rightarrow> (\<exists>cb. created opens interest s h cb s') \<and> flags_inv (length (fired_flags s')) [h]
     | Inl e \<Rightarrow> \<exists>leak. create_failed opens interest s leak s'"
  shows "client_inv opens interest (keep_handle (r, s'))"
proof (cases r)
  case (Inl e) with c show ?thesis using client_inv_failed [OF inv r] by auto
next
  case (Inr h) with c show ?thesis using client_inv_created [OF inv r _ fl] by auto
qed

lemma not_valid_None [simp]: "\<not> handle_valid None" "\<not> owns None"
  by (simp_all add: handle_valid_def owns_def)

lemma client_inv_release:
  assumes L: "kernel_laws K opens interest" and inv: "client_inv opens interest s" and i: "i < length (handles s)"
    and r: "handle_release K (handles s ! i) s = (h', s')"
  shows "client_inv opens interest (s'\<lparr>handles := (handles s)[i := h']\<rparr>)"
proof -
  note R = handle_release_effect [OF L r]
  have reg: "reg_inv opens interest s" and own: "own_inv (handles s) s" and op: "open_inv opens (handles s) s"
    and fi: "flags_inv (length (fired_flags s)) (handles s)" using inv by (auto simp: client_inv_def)
  have ep: "owns (handles s ! i) \<longrightarrow> handle_fd (handles s ! i) \<noteq> epollFd s" using own i by (auto simp: own_inv_def)
  have "reg_inv opens interest s'" by (rule reg_inv_release [OF L reg r ep])
  moreover have "own_inv ((handles s)[i := h']) s'" by (rule own_inv_release [OF L own i r])
  moreover have "open_inv opens ((handles s)[i := h']) s'" unfolding open_inv_def
  proof (intro ballI impI)
    fix g assume g: "g \<in> set ((handles s)[i := h'])" "handle_valid g"
    then obtain j where "j < length (handles s)" "g = (handles s)[i := h'] ! j" by (metis in_set_conv_nth length_list_update)
    with g(2) R(1) have j: "j < length (handles s)" "j \<noteq> i" "g = handles s ! j" by (cases "j = i"; simp)+
    have "handle_fd g \<in> opens (kern s)" using op j g(2) by (auto simp: open_inv_def)
    moreover have "handle_fd g \<noteq> handle_fd (handles s ! i)" if "owns (handles s ! i)"
      using own i j g(2) that unfolding own_inv_def by metis
    ultimately show "handle_fd g \<in> opens (kern s')" using R(6) by auto
  qed
  moreover have "flags_inv (length (fired_flags s')) ((handles s)[i := h'])" unfolding flags_inv_def
  proof
    fix g assume "g \<in> set ((handles s)[i := h'])"
    then consider "g \<in> set (handles s)" | "g = h'" by (auto dest: set_update_cases)
    then show "flag_ok (length (fired_flags s')) g"
    proof cases
      case 1 with fi R(8) show ?thesis by (auto simp: flags_inv_def)
    next
      case 2
      have "handles s ! i \<in> set (handles s)" using i by simp
      with fi R(8,12) 2 show ?thesis by (cases h'; cases "handles s ! i") (auto simp: flags_inv_def flag_ok_def)
    qed
  qed
  ultimately show ?thesis using R(8,9)
    by (intro client_invI [OF inv]) (auto simp: reg_inv_def own_inv_def open_inv_def)
qed

text \<open>Moving a handle renames its place.\<close>

lemma own_inv_move: "own_inv hs s \<Longrightarrow> i < length hs \<Longrightarrow> own_inv (hs[i := None] @ [hs ! i]) s"
  unfolding own_inv_def by (auto simp: nth_append nth_list_update less_Suc_eq) 

lemma own_inv_move_to:
  assumes "own_inv hs s" "i < length hs" "j < length hs" "i \<noteq> j" "\<not> handle_valid (hs ! i)"
  shows "own_inv (hs[i := hs ! j, j := None]) s"
  using assms unfolding own_inv_def by (auto simp: nth_list_update) 

lemma set_move_to: "j < length hs \<Longrightarrow> set (hs[i := hs ! j, j := None]) \<subseteq> insert None (set hs)"
  by (meson insert_subset nth_mem set_update_subsetI set_update_subset_insert subset_insertI subset_trans insertI1 subset_insertI2 order_refl)

lemma client_inv_permuted:
  assumes inv: "client_inv opens interest s" and o: "own_inv hs s" and sub: "set hs \<subseteq> insert None (set (handles s))"
  shows "client_inv opens interest (s\<lparr>handles := hs\<rparr>)"
proof -
  have "open_inv opens hs s" "flags_inv (length (fired_flags s)) hs"
    using inv sub by (auto simp: client_inv_def open_inv_def flags_inv_def)
  with inv o show ?thesis by (auto simp: client_inv_def reg_inv_def own_inv_def open_inv_def)
qed

lemma client_inv_foreign:
  assumes L: "kernel_laws K opens interest" and inv: "client_inv opens interest s"
    and c: "createEvent K fd fl ty cb s = (r, t)" and free: "own_free fd (handles s)"
  shows "client_inv opens interest (keep_handle (r, t))"
proof -
  have reg: "reg_inv opens interest s" and own: "own_inv (handles s) s" and op: "open_inv opens (handles s) s"
    and fi: "flags_inv (length (fired_flags s)) (handles s)" using inv by (auto simp: client_inv_def)
  note E = createEvent_effect [OF L reg c]
  have hs: "handles t = handles s" using E by (cases s; cases t) simp
  show ?thesis
  proof (cases r)
    case (Inl e)
    then show ?thesis using E hs own op fi
      by (auto intro!: client_invI [OF inv] simp: own_inv_def open_inv_def)
  next
    case (Inr h)
    have keys: "fst ` set (events_map t) = insert (handle_fd h) (fst ` set (events_map s))"
      using E Inr by (simp add: dom_update)
    have "own_inv (handles s @ [h]) t"
      using E Inr keys free by (intro own_inv_snoc [OF own]) (auto simp: own_free_def list_all_iff)
    moreover have "fd \<in> opens (kern t)" using keys E Inr by (auto simp: reg_inv_def)
    ultimately have "open_inv opens (handles s @ [h]) t" using E Inr op by (auto simp: open_inv_def)
    with E Inr hs fi \<open>own_inv (handles s @ [h]) t\<close> show ?thesis
      by (auto intro!: client_invI [OF inv])
  qed
qed

lemma client_inv_move_assign:
  assumes L: "kernel_laws K opens interest" and inv: "client_inv opens interest s" and c: "api_call K (MoveAssign i j) s = Some s'"
  shows "client_inv opens interest s'"
proof -
  have ij: "i < length (handles s)" "j < length (handles s)" using c by auto
  show ?thesis
  proof (cases "i = j")
    case False
    obtain h t where r: "handle_release K (handles s ! i) s = (h, t)" by (cases "handle_release K (handles s ! i) s")
    let ?u = "t\<lparr>handles := (handles s)[i := h]\<rparr>"
    have u: "client_inv opens interest ?u" by (rule client_inv_release [OF L inv ij(1) r])
    have "\<not> handle_valid h" using handle_release_effect(1) [OF L r] .
    then have "own_inv ((handles ?u)[i := handles ?u ! j, j := None]) ?u"
      using u ij False by (intro own_inv_move_to) (simp_all add: client_inv_def)
    then have "client_inv opens interest (?u\<lparr>handles := (handles ?u)[i := handles ?u ! j, j := None]\<rparr>)"
      using ij set_move_to [of j "handles ?u" i] by (intro client_inv_permuted [OF u]) simp_all
    moreover have "s' = ?u\<lparr>handles := (handles ?u)[i := handles ?u ! j, j := None]\<rparr>"
      using c r False by (simp add: handle_move_assign_def)
    ultimately show ?thesis by simp
  qed (use c inv in simp)
qed

lemma fd_unused_iff: "fd_unused fd hs \<longleftrightarrow> fd \<notin> valid_fds hs"
  by (auto simp: fd_unused_def list_all_iff valid_fds_def)

lemma valid_fds_append [simp]: "valid_fds (gs @ hs) = valid_fds gs \<union> valid_fds hs"
  by (auto simp: valid_fds_def)

lemma valid_fds_single [simp]: "valid_fds [h] = (if handle_valid h then {handle_fd h} else {})"
  by (auto simp: valid_fds_def)

lemma valid_fds_update:
  "valid_fds hs - {handle_fd (hs ! i)} \<subseteq> valid_fds (hs[i := h])"
  "\<not> handle_valid (hs ! i) \<Longrightarrow> valid_fds hs \<subseteq> valid_fds (hs[i := h])"
  unfolding valid_fds_def by (auto intro!: imageI in_set_update_other)

lemma valid_fds_nonneg: "fd \<in> valid_fds hs \<Longrightarrow> 0 \<le> fd"
  by (auto simp: valid_fds_def handle_valid_def handle_fd_def split: option.splits)

lemma client_inv_open:
  assumes L: "kernel_laws K opens interest" and inv: "client_inv opens interest s"
  shows "client_inv opens interest (s\<lparr>kern := snd (k_open K (kern s))\<rparr>)"
proof -
  obtain fd k where f: "k_open K (kern s) = (fd, k)" by (cases "k_open K (kern s)")
  note mk = law_create [where mk = "k_open K", OF L _ f, simplified]
  have sub: "opens (kern s) \<subseteq> opens k" using mk(2,4) by (cases "fd < 0") auto
  have reg: "reg_inv opens interest s" using inv by (simp add: client_inv_def)
  have "reg_inv opens interest (s\<lparr>kern := k\<rparr>)" using sub mk(1) by (intro reg_inv_frame [OF reg]) auto
  with inv f sub show ?thesis by (auto simp: client_inv_def own_inv_def open_inv_def)
qed

text \<open>Closing a descriptor that no valid handle is on.\<close>

lemma client_inv_close:
  assumes L: "kernel_laws K opens interest" and inv: "client_inv opens interest s" and cov: "fst ` set (events_map s) \<subseteq> valid_fds (handles s)"
    and un: "fd_unused fd (handles s)" and ep: "fd \<noteq> epollFd s"
  shows "client_inv opens interest (s\<lparr>kern := k_close K fd (kern s)\<rparr>)"
proof -
  have reg: "reg_inv opens interest s" and op: "open_inv opens (handles s) s" using inv by (auto simp: client_inv_def)
  have "fd \<notin> fst ` set (events_map s)" using cov un by (auto simp: fd_unused_iff)
  then have "fd \<notin> interest (epollFd s) (kern s)" using reg by (simp add: reg_inv_def)
  then have "reg_inv opens interest (s\<lparr>kern := k_close K fd (kern s)\<rparr>)"
    using reg L ep by (auto simp: reg_inv_def)
  moreover have "open_inv opens (handles s) (s\<lparr>kern := k_close K fd (kern s)\<rparr>)"
    using op un L by (auto simp: open_inv_def fd_unused_def list_all_iff)
  ultimately show ?thesis using inv by (auto simp: client_inv_def own_inv_def)
qed

lemma api_call_inv:
  assumes L: "kernel_laws K opens interest" and inv: "client_inv opens interest s" and c: "api_call K a s = Some s'"
    and cov: "fst ` set (events_map s) \<subseteq> valid_fds (handles s)" and un: "\<And>fd. a = CloseFd fd \<Longrightarrow> fd_unused fd (handles s)"
  shows "client_inv opens interest s'"
proof -
  have reg: "reg_inv opens interest s" and own: "own_inv (handles s) s" using inv by (auto simp: client_inv_def)
  show ?thesis
  proof (cases a)
    case (CreateTrigger cb)
    obtain r t where rt: "createTrigger K cb s = (r, t)" by (cases "createTrigger K cb s")
    have "client_inv opens interest (keep_handle (r, t))"
      using createTrigger_effect [OF L reg rt] by (intro client_inv_keep [OF inv]) (auto split: sum.splits)
    with rt c CreateTrigger show ?thesis by simp
  next
    case (CreateInterval ms cb)
    obtain r t where rt: "loop_createInterval K ms cb s = (r, t)" by (cases "loop_createInterval K ms cb s")
    have "client_inv opens interest (keep_handle (r, t))"
      using createInterval_effect [OF L reg rt] by (intro client_inv_keep [OF inv]) (auto split: sum.splits)
    with rt c CreateInterval show ?thesis by simp
  next
    case (CreateTimer ms cb)
    obtain r t where rt: "loop_createTimer K ms cb s = (r, t)" by (cases "loop_createTimer K ms cb s")
    have "client_inv opens interest (keep_handle (r, t))"
      using createTimer_effect [OF L reg rt]
      by (intro client_inv_keep [OF inv]) (auto simp: create_failed_def split: sum.splits)
    with rt c CreateTimer show ?thesis by simp
  next
    case (Release i)
    then show ?thesis using c client_inv_release [OF L inv] by (auto split: prod.splits)
  next
    case (Move i)
    then show ?thesis using c own own_inv_move set_update_subset_insert [of "handles s" i None]
      by (auto simp: handle_move_def intro!: client_inv_permuted [OF inv])
  next
    case (Trigger i)
    then show ?thesis using c inv L by (auto simp: trigger_def split: if_splits intro!: client_inv_kern)
  next
    case (ResetInterval i ms)
    then show ?thesis using c inv L
      by (auto simp: resetInterval_def resetTimerInterval_def split: if_splits intro!: client_inv_kern)
  next
    case Stop
    have "client_inv opens interest (s\<lparr>kern := kern s, loop_stop := True, run_pc := run_pc s\<rparr>)"
      by (rule client_inv_quiet [OF inv]) (use inv in \<open>auto simp: client_inv_def\<close>)
    then show ?thesis using c Stop by (simp add: stop_def)
  next
    case (CreateEvent fd fl ty cb)
    obtain r t where rt: "createEvent K fd fl ty cb s = (r, t)" by (cases "createEvent K fd fl ty cb s")
    with c CreateEvent have "own_free fd (handles s)" "s' = keep_handle (r, t)" by auto
    with client_inv_foreign [OF L inv rt] show ?thesis by simp
  next
    case (MoveAssign i j)
    with c client_inv_move_assign [OF L inv] show ?thesis by blast
  next
    case OpenFd
    with c client_inv_open [OF L inv] show ?thesis by simp
  next
    case (CloseFd fd)
    with c client_inv_close [OF L inv cov un, of fd] show ?thesis by auto
  qed
qed

lemma client_inv_pc: "client_inv opens interest s \<Longrightarrow> pc_inv (length (fired_flags s)) pc \<Longrightarrow> client_inv opens interest (s\<lparr>run_pc := pc\<rparr>)"
  using client_inv_quiet [of opens interest s "kern s" pc "loop_stop s"] by simp

lemma readFd_kern: "snd (readFd K fd s) = s\<lparr>kern := snd (k_read K fd (kern s))\<rparr>"
  by (simp add: readFd_def split: prod.splits)

text \<open>A step of the thread in \<open>run\<close>, whatever object the loop is part of.\<close>

lemma cb_enter_frame:
  "\<exists>k pc. cb_enter K cb fd fds s = s\<lparr>kern := k, run_pc := pc\<rparr> \<and> (k = kern s \<or> k = snd (k_read K fd (kern s))) \<and>
     stop_measure pc < 4 * length fds + 5 \<and>
     (pc_inv n (LCall cb fd fds) \<longrightarrow> pc_inv n pc)"
proof (cases "\<exists>f. cb = OnEvent f")
  case True
  then show ?thesis by (intro exI [of _ "kern s"]) (auto simp: cb_enter_def pc_inv_def split: option.splits)
next
  case False
  then show ?thesis by (cases cb)
    (auto simp: cb_enter_def readFd_kern pc_inv_def intro!: exI [of _ "snd (k_read K fd (kern s))"])
qed

lemma run_step_view:
  assumes L: "kernel_laws K opens interest" and c: "run_step K s = Some s'"
  shows "events_map s' = events_map s \<and> epollFd s' = epollFd s \<and> event_loop.more s' = event_loop.more s \<and>
    opens (kern s') = opens (kern s) \<and> interest (epollFd s) (kern s') = interest (epollFd s) (kern s) \<and>
    length (fired_flags s') = length (fired_flags s) \<and> (stop_measure (run_pc s) \<le> 259 \<longrightarrow> stop_measure (run_pc s') \<le> 259)"
proof (cases "run_pc s")
  case LTest
  with c show ?thesis by (auto simp: run_step_def)
next
  case LWait
  obtain r k where w: "k_epoll_wait K (epollFd s) 64 EPOLL_TIMEOUT (kern s) = (r, k)"
    by (cases "k_epoll_wait K (epollFd s) 64 EPOLL_TIMEOUT (kern s)")
  have "opens k = opens (kern s)" "interest (epollFd s) k = interest (epollFd s) (kern s)"
    using law_wait_quiet [OF L w] by auto
  moreover have "length fds \<le> 64" if "r = Inr fds" for fds using law_wait(1) [OF L] w that by metis
  ultimately show ?thesis using LWait c w by (auto simp: run_step_def split: sum.splits if_splits)
next
  case (LFor fds)
  with c show ?thesis by (cases fds) (auto simp: run_step_def split: option.splits)
next
  case (LCall cb fd fds)
  from LCall c have "s' = cb_enter K cb fd fds s" by (simp add: run_step_def)
  with LCall L cb_enter_frame [of K cb fd fds s 0] show ?thesis by auto
next
  case (LAfter cb fds)
  from LAfter c have "s' = cb_leave cb fds s" by (simp add: run_step_def)
  with LAfter show ?thesis by (cases cb) (auto simp: cb_leave_def)
qed (use c in \<open>simp_all add: run_step_def\<close>)

lemma run_step_loop:
  assumes L: "kernel_laws K opens interest" and reg: "reg_inv opens interest s"
    and pc: "pc_inv (length (fired_flags s)) (run_pc s)" and c: "run_step K s = Some s'"
  shows "events_map s' = events_map s \<and> epollFd s' = epollFd s \<and> event_loop.more s' = event_loop.more s \<and>
    opens (kern s') = opens (kern s) \<and> interest (epollFd s) (kern s') = interest (epollFd s) (kern s) \<and>
    length (fired_flags s') = length (fired_flags s) \<and> pc_inv (length (fired_flags s)) (run_pc s')"
proof -
  have "pc_inv (length (fired_flags s)) (run_pc s')"
  proof (cases "run_pc s")
    case LWait
    with c law_wait(1) [OF L, of "epollFd s" 64] show ?thesis
      by (auto simp: run_step_def pc_inv_def split: prod.splits sum.splits if_splits)
  next
    case (LFor fds)
    have "cb_ok (length (fired_flags s)) (ev_callback ev)" if "map_of (events_map s) fd = Some ev" for fd ev
      using reg map_of_SomeD [OF that] by (auto simp: reg_inv_def)
    with LFor c pc show ?thesis by (cases fds) (auto simp: run_step_def pc_inv_def split: option.splits)
  next
    case (LCall cb fd fds)
    from LCall c have "s' = cb_enter K cb fd fds s" by (simp add: run_step_def)
    with LCall pc cb_enter_frame [of K cb fd fds s "length (fired_flags s)"] show ?thesis by auto
  next
    case (LAfter cb fds)
    from LAfter c have "s' = cb_leave cb fds s" by (simp add: run_step_def)
    with LAfter pc show ?thesis by (cases cb) (auto simp: cb_leave_def pc_inv_def)
  qed (use c in \<open>auto simp: run_step_def pc_inv_def\<close>)
  with run_step_view [OF L c] show ?thesis by blast
qed

lemma run_step_inv:
  assumes L: "kernel_laws K opens interest" and inv: "client_inv opens interest s" and c: "run_step K s = Some s'"
  shows "client_inv opens interest s'"
proof -
  have reg: "reg_inv opens interest s" and pc: "pc_inv (length (fired_flags s)) (run_pc s)"
    using inv by (auto simp: client_inv_def)
  note R = run_step_loop [OF L reg pc c]
  have "reg_inv opens interest s'" by (rule reg_inv_frame [OF reg]) (use R in auto)
  moreover have "handles s' = handles s" using R by (cases s; cases s') simp
  ultimately show ?thesis using R inv by (auto simp: client_inv_def own_inv_def open_inv_def)
qed

lemma loop_exec_inv:
  assumes "kernel_laws K opens interest" "client_inv opens interest s" "loop_exec_kept K a s = Some s'" "fst ` set (events_map s) \<subseteq> valid_fds (handles s)"
  shows "client_inv opens interest s'"
proof (cases a)
  case (Api x)
  then have "api_call K x s = Some s'" "\<And>fd. x = CloseFd fd \<Longrightarrow> fd_unused fd (handles s)"
    using assms(3) by (auto simp: loop_exec_kept_def split: api.splits if_splits)
  with api_call_inv [OF assms(1,2)] assms(4) show ?thesis by blast
next
  case Run with assms run_step_inv show ?thesis by (fastforce simp: loop_exec_kept_def)
next
  case BodyReturns
  with assms have "pc_inv (length (fired_flags s)) (run_pc s)" by (simp add: client_inv_def)
  with BodyReturns assms show ?thesis by (auto simp: loop_exec_kept_def pc_inv_def split: loop_pc.splits intro!: client_inv_pc)
next
  case (BodyThrows e)
  with assms show ?thesis by (auto simp: loop_exec_kept_def pc_inv_def split: loop_pc.splits intro!: client_inv_pc)
qed

subsection \<open>What early closing cannot break\<close>

lemma keys_delete: "fst ` set (AList.delete fd xs) = fst ` set xs - {fd}"
  by (auto simp: AList.delete_eq image_iff)

lemma registerEvent_frame:
  assumes "registerEvent K ev s = (r, s')"
  shows "run_pc s' = run_pc s" "loop_stop s' = loop_stop s" "epollFd s' = epollFd s" "event_loop.more s' = event_loop.more s"
  using assms by (auto simp: registerEvent_def Let_def split: prod.splits option.splits errno.splits)

lemma handle_release_frame:
  assumes "handle_release K h s = (h', s')"
  shows "run_pc s' = run_pc s" "loop_stop s' = loop_stop s" "epollFd s' = epollFd s" "event_loop.more s' = event_loop.more s"
  using assms by (auto simp: handle_release_def unregisterEvent_def Let_def split: option.splits if_splits)

lemma register_watched:
  assumes L: "kernel_laws K opens interest" and r: "registerEvent K ev s1 = (r, s')"
    and s1: "events_map s1 = events_map s" "epollFd s1 = epollFd s" "event_loop.more s1 = event_loop.more s"
      "interest (epollFd s) (kern s1) = interest (epollFd s) (kern s)" "epollFd s \<in> opens (kern s1)"
    and w: "interest (epollFd s) (kern s) \<subseteq> fst ` set (events_map s)"
    and h: "handle_fd h = ev_fd ev" "owns h \<longrightarrow> ev_fd ev \<noteq> epollFd s" "r = Inr () \<longrightarrow> handle_valid h"
  shows "watched opens interest s (map_sum id (\<lambda>_. h) r) s'"
  using L r
proof (cases rule: registerEvent_cases)
  case (ok k)
  with s1 w h show ?thesis by (auto simp: watched_def dom_update)
next
  case (err e k)
  with s1 w show ?thesis by (auto simp: watched_def)
qed

lemma created_fd:
  assumes L: "kernel_laws K opens interest" and ep: "epollFd s \<in> opens (kern s)"
    and mk: "mk \<in> {k_epoll_create1 K, k_eventfd K, k_timerfd_create K, k_open K}" "mk (kern s) = (fd, k)"
  shows "epollFd s \<in> opens k" "interest ep k = interest ep (kern s)" "0 \<le> fd \<longrightarrow> fd \<noteq> epollFd s"
  using law_create [OF L mk] ep by (cases "fd < 0"; auto)+

lemma createTrigger_watched:
  assumes L: "kernel_laws K opens interest" and ep: "epollFd s \<in> opens (kern s)"
    and w: "interest (epollFd s) (kern s) \<subseteq> fst ` set (events_map s)" and c: "createTrigger K cb s = (r, s')"
  shows "watched opens interest s r s'"
proof -
  obtain fd k where f: "k_eventfd K (kern s) = (fd, k)" by (cases "k_eventfd K (kern s)")
  note mk = created_fd [where mk = "k_eventfd K", OF L ep _ f, simplified]
  show ?thesis
  proof (cases "fd < 0")
    case True
    with c f mk w show ?thesis by (auto simp: createTrigger_def watched_def)
  next
    case False
    let ?ev = "prepareEvent fd EPOLLIN TRIGGER (OnTrigger cb)"
    obtain r' where r': "registerEvent K ?ev (s\<lparr>kern := k\<rparr>) = (r', s')" "r = map_sum id (\<lambda>_. mk_handle fd True) r'"
      using c f False by (auto simp: createTrigger_def split: sum.splits prod.splits)
    from register_watched [OF L r'(1), of s "mk_handle fd True"] mk w False r'(2) show ?thesis by simp
  qed
qed

lemma createInterval_watched:
  assumes L: "kernel_laws K opens interest" and ep: "epollFd s \<in> opens (kern s)"
    and w: "interest (epollFd s) (kern s) \<subseteq> fst ` set (events_map s)" and c: "loop_createInterval K ms cb s = (r, s')"
  shows "watched opens interest s r s'"
proof -
  obtain fd k where f: "k_timerfd_create K (kern s) = (fd, k)" by (cases "k_timerfd_create K (kern s)")
  note mk = created_fd [where mk = "k_timerfd_create K", OF L ep _ f, simplified]
  show ?thesis
  proof (cases "fd < 0")
    case True
    with c f mk w show ?thesis by (auto simp: loop_createInterval_def watched_def)
  next
    case False
    let ?ev = "prepareEvent fd EPOLLIN TIMER (OnInterval cb)"
    let ?k = "snd (k_timerfd_settime K fd (prepareIntervalSpec ms) k)"
    obtain r' where r': "registerEvent K ?ev (s\<lparr>kern := ?k\<rparr>) = (r', s')" "r = map_sum id (\<lambda>_. mk_handle fd True) r'"
      using c f False by (auto simp: loop_createInterval_def Let_def split: sum.splits prod.splits)
    from register_watched [OF L r'(1), of s "mk_handle fd True"] mk w False r'(2) L show ?thesis by simp
  qed
qed

lemma createTimer_watched:
  assumes L: "kernel_laws K opens interest" and ep: "epollFd s \<in> opens (kern s)"
    and w: "interest (epollFd s) (kern s) \<subseteq> fst ` set (events_map s)" and c: "loop_createTimer K ms cb s = (r, s')"
  shows "watched opens interest s r s'"
proof -
  obtain fd k where f: "k_timerfd_create K (kern s) = (fd, k)" by (cases "k_timerfd_create K (kern s)")
  note mk = created_fd [where mk = "k_timerfd_create K", OF L ep _ f, simplified]
  show ?thesis
  proof (cases "fd < 0")
    case True
    with c f mk w show ?thesis by (auto simp: loop_createTimer_def watched_def)
  next
    case False
    let ?h = "mk_timer_handle fd (length (fired_flags s))"
    let ?ev = "prepareEvent fd EPOLLIN TIMER (OnTimer (length (fired_flags s)) cb)"
    let ?s1 = "s\<lparr>kern := snd (k_timerfd_settime K fd (oneShotSpec ms) k), fired_flags := fired_flags s @ [False]\<rparr>"
    obtain r' s2 where r': "registerEvent K ?ev ?s1 = (r', s2)" by (cases "registerEvent K ?ev ?s1")
    have W: "watched opens interest s (map_sum id (\<lambda>_. ?h) r') s2"
      using register_watched [OF L r', of s ?h] mk w False L by simp
    obtain h3 s3 where rel: "handle_release K ?h s2 = (h3, s3)" by (cases "handle_release K ?h s2")
    note R = handle_release_effect [OF L rel]
    have v: "handle_valid ?h" and o: "owns ?h" and ne: "epollFd s \<noteq> fd" using False mk(3) by auto
    show ?thesis
    proof (cases r')
      case (Inr u)
      with c f False r' W show ?thesis by (auto simp: loop_createTimer_def Let_def)
    next
      case (Inl e)
      with c f False r' rel have "r = Inl e" "s' = s3" by (auto simp: loop_createTimer_def Let_def)
      moreover have "epollFd s2 = epollFd s" using W by (simp add: watched_def)
      ultimately show ?thesis using W Inl R(4,5) [OF v] R(6,7,11) ne o
        by (auto simp: watched_def keys_delete)
    qed
  qed
qed

lemma watch_inv_frame [simp]:
  "watch_inv opens interest (s\<lparr>run_pc := pc\<rparr>) = watch_inv opens interest s"
  "watch_inv opens interest (s\<lparr>loop_stop := b\<rparr>) = watch_inv opens interest s"
  by (simp_all add: watch_inv_def)

lemma watch_inv_kept:
  assumes "watch_inv opens interest s" "watched opens interest s r s'"
  shows "watch_inv opens interest (keep_handle (r, s'))"
proof -
  have "handles s' = handles s" using assms(2) by (cases s; cases s') (simp add: watched_def)
  with assms show ?thesis
    unfolding watch_inv_def watched_def by (cases r) (simp, blast)+
qed

lemma createEvent_watched:
  assumes L: "kernel_laws K opens interest" and inv: "watch_inv opens interest s" and c: "createEvent K fd fl ty cb s = (r, s')"
  shows "watched opens interest s r s'"
proof -
  let ?ev = "prepareEvent fd fl ty (OnEvent cb)"
  obtain r' where r': "registerEvent K ?ev s = (r', s')" "r = map_sum id (\<lambda>_. mk_handle fd False) r'"
    using c by (auto simp: createEvent_def split: sum.splits prod.splits)
  have "0 \<le> fd" if "r' = Inr ()"
    using L r'(1)
  proof (cases rule: registerEvent_cases)
    case (ok k)
    then have "fd \<in> opens (kern s) \<or> fd \<in> fst ` set (events_map s)" using inv by (auto simp: watch_inv_def)
    then show ?thesis
      using inv law_open_nonneg [OF L] valid_fds_nonneg unfolding watch_inv_def by blast
  qed (use that in simp)
  with register_watched [OF L r'(1), of s "mk_handle fd False"] inv r'(2) show ?thesis by (simp add: watch_inv_def)
qed

lemma watch_inv_release:
  assumes L: "kernel_laws K opens interest" and inv: "watch_inv opens interest s" and i: "i < length (handles s)"
    and r: "handle_release K (handles s ! i) s = (h', s')"
  shows "watch_inv opens interest (s'\<lparr>handles := (handles s)[i := h']\<rparr>)"
proof (cases "handle_valid (handles s ! i)")
  case True
  let ?h = "handles s ! i"
  note R = handle_release_effect [OF L r]
  have ep: "epollFd s \<noteq> handle_fd ?h \<or> \<not> owns ?h" using inv i nth_mem by (fastforce simp: watch_inv_def)
  have keys: "fst ` set (events_map s') = fst ` set (events_map s) - {handle_fd ?h}"
    using R(4) [OF True] by (simp add: keys_delete)
  have "fst ` set (events_map s') \<subseteq> valid_fds ((handles s)[i := h'])"
    using inv keys valid_fds_update(1) [of "handles s" i h'] unfolding watch_inv_def by blast
  moreover have "\<forall>h \<in> set ((handles s)[i := h']). owns h \<longrightarrow> handle_fd h \<noteq> epollFd s"
    using inv R(2) by (auto simp: watch_inv_def dest!: set_update_cases)
  moreover have "interest (epollFd s) (kern s') \<subseteq> fst ` set (events_map s')" "epollFd s \<in> opens (kern s')"
    using inv keys R(5) [OF True ep] R(6) ep by (auto simp: watch_inv_def)
  ultimately show ?thesis using R(7) by (simp add: watch_inv_def)
next
  case False
  note R = handle_release_effect [OF L r]
  have "\<forall>h \<in> set ((handles s)[i := h']). owns h \<longrightarrow> handle_fd h \<noteq> epollFd s"
    using inv R(2) by (auto simp: watch_inv_def dest!: set_update_cases)
  moreover have "fst ` set (events_map s) \<subseteq> valid_fds ((handles s)[i := h'])"
    using inv valid_fds_update(2) [OF False, of h'] unfolding watch_inv_def by blast
  ultimately show ?thesis using inv R(3) [OF False] by (simp add: watch_inv_def)
qed

text \<open>Only places without a valid handle are lost when handles move.\<close>

lemma watch_inv_moved:
  assumes "watch_inv opens interest s" "set hs \<subseteq> insert None (set (handles s))" "\<And>h. h \<in> set (handles s) \<Longrightarrow> handle_valid h \<Longrightarrow> h \<in> set hs"
  shows "watch_inv opens interest (s\<lparr>handles := hs\<rparr>)"
proof -
  have "valid_fds (handles s) \<subseteq> valid_fds hs" using assms(3) by (auto simp: valid_fds_def)
  moreover have "\<forall>h \<in> set hs. owns h \<longrightarrow> handle_fd h \<noteq> epollFd s" using assms(1,2) by (auto simp: watch_inv_def)
  ultimately show ?thesis using assms(1) unfolding watch_inv_def by simp blast
qed

lemma watch_inv_kern:
  assumes "watch_inv opens interest s" "epollFd s \<in> opens k" "interest (epollFd s) k \<subseteq> interest (epollFd s) (kern s)"
  shows "watch_inv opens interest (s\<lparr>kern := k\<rparr>)"
  using assms by (simp add: watch_inv_def) blast

lemma watch_inv_move_assign:
  assumes L: "kernel_laws K opens interest" and inv: "watch_inv opens interest s" and c: "api_call K (MoveAssign i j) s = Some s'"
  shows "watch_inv opens interest s'"
proof -
  have ij: "i < length (handles s)" "j < length (handles s)" using c by auto
  show ?thesis
  proof (cases "i = j")
    case False
    obtain h t where r: "handle_release K (handles s ! i) s = (h, t)" by (cases "handle_release K (handles s ! i) s")
    let ?u = "t\<lparr>handles := (handles s)[i := h]\<rparr>" and ?hs = "(handles s)[i := handles s ! j, j := None]"
    have u: "watch_inv opens interest ?u" by (rule watch_inv_release [OF L inv ij(1) r])
    have nv: "\<not> handle_valid h" using handle_release_effect(1) [OF L r] .
    have "g \<in> set ?hs" if g: "g \<in> set (handles ?u)" "handle_valid g" for g
    proof -
      obtain l where l: "l < length (handles s)" "g = (handles s)[i := h] ! l"
        using g(1) by (auto simp: in_set_conv_nth)
      with nv g(2) have "l \<noteq> i" by auto
      with l False ij have "(if l = j then ?hs ! i else ?hs ! l) = g" by auto
      with l ij False show ?thesis by (metis length_list_update nth_mem)
    qed
    moreover have "set ?hs \<subseteq> insert None (set (handles ?u))"
      using set_move_to [of j "(handles s)[i := h]" i] ij False by simp
    ultimately have "watch_inv opens interest (?u\<lparr>handles := ?hs\<rparr>)" by (intro watch_inv_moved [OF u]) auto
    with c r False show ?thesis by (simp add: handle_move_assign_def)
  qed (use c inv in simp)
qed

lemma api_call_watch:
  assumes L: "kernel_laws K opens interest" and inv: "watch_inv opens interest s" and c: "api_call K a s = Some s'"
  shows "watch_inv opens interest s'"
proof -
  have ep: "epollFd s \<in> opens (kern s)" "interest (epollFd s) (kern s) \<subseteq> fst ` set (events_map s)"
    using inv by (auto simp: watch_inv_def)
  show ?thesis
  proof (cases a)
    case (CreateTrigger cb)
    with c watch_inv_kept [OF inv createTrigger_watched [OF L ep]] show ?thesis by (cases "createTrigger K cb s") auto
  next
    case (CreateInterval ms cb)
    with c watch_inv_kept [OF inv createInterval_watched [OF L ep]] show ?thesis by (cases "loop_createInterval K ms cb s") auto
  next
    case (CreateTimer ms cb)
    with c watch_inv_kept [OF inv createTimer_watched [OF L ep]] show ?thesis by (cases "loop_createTimer K ms cb s") auto
  next
    case (CreateEvent fd fl ty cb)
    with c watch_inv_kept [OF inv createEvent_watched [OF L inv]] show ?thesis by (cases "createEvent K fd fl ty cb s") auto
  next
    case (Release i)
    with c watch_inv_release [OF L inv] show ?thesis by (auto split: prod.splits)
  next
    case (Move i)
    then have i: "i < length (handles s)" and s': "s' = s\<lparr>handles := (handles s)[i := None] @ [handles s ! i]\<rparr>"
      using c by (auto simp: handle_move_def)
    have "set ((handles s)[i := None] @ [handles s ! i]) \<subseteq> insert None (set (handles s))"
      using i set_update_subset_insert [of "handles s" i None] by auto
    moreover have "h \<in> set ((handles s)[i := None] @ [handles s ! i])" if "h \<in> set (handles s)" for h
      using in_set_update_other [OF that, of i None] by (cases "handles s ! i = h") auto
    ultimately show ?thesis unfolding s' by (intro watch_inv_moved [OF inv]) auto
  next
    case (MoveAssign i j)
    with c watch_inv_move_assign [OF L inv] show ?thesis by blast
  next
    case (Trigger i)
    then show ?thesis using c inv L ep by (auto simp: trigger_def split: if_splits intro!: watch_inv_kern)
  next
    case (ResetInterval i ms)
    then show ?thesis using c inv L ep
      by (auto simp: resetInterval_def resetTimerInterval_def split: if_splits intro!: watch_inv_kern)
  next
    case Stop
    then show ?thesis using c inv by (auto simp: stop_def)
  next
    case OpenFd
    obtain fd k where f: "k_open K (kern s) = (fd, k)" by (cases "k_open K (kern s)")
    with c OpenFd created_fd [where mk = "k_open K", OF L ep(1) _ f, simplified] show ?thesis
      by (auto intro!: watch_inv_kern [OF inv])
  next
    case (CloseFd fd)
    then show ?thesis using c L ep by (auto intro!: watch_inv_kern [OF inv])
  qed
qed

lemma loop_exec_watch:
  assumes L: "kernel_laws K opens interest" and inv: "watch_inv opens interest s" and c: "loop_exec K a s = Some s'"
  shows "watch_inv opens interest s'"
proof (cases a)
  case (Api x) with c api_call_watch [OF L inv] show ?thesis by simp
next
  case Run
  with c have "run_step K s = Some s'" by simp
  note V = run_step_view [OF L this]
  moreover have "handles s' = handles s" using V by (cases s; cases s') simp
  ultimately show ?thesis using inv by (simp add: watch_inv_def)
qed (use c inv in \<open>auto split: loop_pc.splits\<close>)

lemma loop_exec_kept_exec: "loop_exec_kept K a s = Some s' \<Longrightarrow> loop_exec K a s = Some s'"
  by (auto simp: loop_exec_kept_def split: loop_action.splits api.splits if_splits)

subsection \<open>Reachable states\<close>

lemma client_new_sel:
  assumes "client_new K k = Inr s"
  shows "events_map s = []" "handles s = []" "fired_flags s = []" "run_pc s = LTest" "\<not> loop_stop s"
    and "k_epoll_create1 K k = (epollFd s, kern s)" "0 \<le> epollFd s"
  using assms
  by (auto simp: client_new_def event_loop_new_def event_loop.defs client_loop.defs split: prod.splits if_splits)

lemma client_new_inv:
  assumes L: "kernel_laws K opens interest" and c: "client_new K k = Inr s"
  shows "client_inv opens interest s"
proof -
  note N = client_new_sel [OF c]
  note mk = law_create [where mk = "k_epoll_create1 K", OF L _ N(6), simplified]
  have "interest (epollFd s) (kern s) = {}" using mk(1,3) N(7) law_closed_interest [OF L] by metis
  with N mk(4) show ?thesis
    by (auto simp: client_inv_def reg_inv_def pc_inv_def own_inv_def open_inv_def flags_inv_def)
qed

lemma client_new_watch:
  assumes L: "kernel_laws K opens interest" and c: "client_new K k = Inr s"
  shows "watch_inv opens interest s"
  using client_new_inv [OF assms] client_new_sel(1,2) [OF c]
  by (auto simp: watch_inv_def client_inv_def reg_inv_def)

interpretation ew: invariant_system "\<lambda>s. kernel_laws K opens interest \<and> loop_init K s" "loop_exec K"
    "\<lambda>s. kernel_laws K opens interest \<and> watch_inv opens interest s"
  for K :: "'k kernel_ops" and opens :: "'k \<Rightarrow> int set" and interest :: "int \<Rightarrow> 'k \<Rightarrow> int set"
proof (unfold_locales, goal_cases)
  case (1 s) then show ?case using client_new_watch by (auto simp: loop_init_def)
next
  case (2 s a s') then show ?case using loop_exec_watch by blast
qed

interpretation el: invariant_system "\<lambda>s. kernel_laws K opens interest \<and> loop_init K s" "loop_exec_kept K"
    "\<lambda>s. kernel_laws K opens interest \<and> watch_inv opens interest s \<and> client_inv opens interest s"
  for K :: "'k kernel_ops" and opens :: "'k \<Rightarrow> int set" and interest :: "int \<Rightarrow> 'k \<Rightarrow> int set"
proof (unfold_locales, goal_cases)
  case (1 s) then show ?case using client_new_watch client_new_inv by (auto simp: loop_init_def)
next
  case (2 s a s')
  then have "fst ` set (events_map s) \<subseteq> valid_fds (handles s)" by (simp add: watch_inv_def)
  with 2 loop_exec_inv loop_exec_watch loop_exec_kept_exec show ?case by blast
qed

lemma watch_reachable:
  assumes "kernel_laws K opens interest" "reachable (loop_init K) (loop_exec K) s"
  shows "watch_inv opens interest s"
  using ew.reachable_inv [of K opens interest s]
    reachable_mono [OF assms(2), of "\<lambda>s. kernel_laws K opens interest \<and> loop_init K s" "loop_exec K"] assms(1) by blast

lemma client_reachable_inv:
  assumes "kernel_laws K opens interest" "reachable (loop_init K) (loop_exec_kept K) s"
  shows "client_inv opens interest s"
  using el.reachable_inv [of K opens interest s]
    reachable_mono [OF assms(2), of "\<lambda>s. kernel_laws K opens interest \<and> loop_init K s" "loop_exec_kept K"] assms(1) by blast

lemma kept_reachable: "reachable (loop_init K) (loop_exec_kept K) s \<Longrightarrow> reachable (loop_init K) (loop_exec K) s"
  using reachable_mono [of "loop_init K" "loop_exec_kept K" s "loop_init K" "loop_exec K"] loop_exec_kept_exec by blast

subsection \<open>Termination after stop\<close>

lemma keep_handle_frame [simp]: "run_pc (keep_handle d) = run_pc (snd d)" "loop_stop (keep_handle d) = loop_stop (snd d)"
  by (cases d rule: keep_handle.cases; simp)+

lemma create_frame [simp]:
  "run_pc (snd (createEvent K fd fl ty cb s)) = run_pc s" "loop_stop (snd (createEvent K fd fl ty cb s)) = loop_stop s"
  "run_pc (snd (createTrigger K cb s)) = run_pc s" "loop_stop (snd (createTrigger K cb s)) = loop_stop s"
  "run_pc (snd (loop_createInterval K ms cb s)) = run_pc s" "loop_stop (snd (loop_createInterval K ms cb s)) = loop_stop s"
  by (auto simp: createEvent_def createTrigger_def loop_createInterval_def Let_def
      split: prod.splits sum.splits dest: registerEvent_frame(1,2))

lemma createTimer_frame [simp]:
  "run_pc (snd (loop_createTimer K ms cb s)) = run_pc s" "loop_stop (snd (loop_createTimer K ms cb s)) = loop_stop s"
  by (auto simp: loop_createTimer_def Let_def handle_release_frame(1,2) [OF prod.collapse [symmetric]]
      split: prod.splits sum.splits dest: registerEvent_frame(1,2))

lemma api_call_frame:
  assumes c: "api_call K a s = Some s'"
  shows "run_pc s' = run_pc s \<and> (loop_stop s \<longrightarrow> loop_stop s')"
proof (cases a)
  case (Release i)
  with c handle_release_frame(1,2) [of K "handles s ! i" s] show ?thesis by (auto split: prod.splits)
next
  case (MoveAssign i j)
  with c handle_release_frame(1,2) [of K "handles s ! i" s] show ?thesis
    by (auto simp: handle_move_assign_def split: prod.splits if_splits)
qed (use c in \<open>auto simp: handle_move_def trigger_def resetInterval_def resetTimerInterval_def stop_def split: if_splits\<close>)

lemma run_step_frame:
  assumes "run_step K s = Some s'"
  shows "loop_stop s' = loop_stop s" and "loop_stop s \<Longrightarrow> kernel_laws K opens interest \<Longrightarrow> stop_measure (run_pc s') < stop_measure (run_pc s)"
proof -
  have E: "loop_stop (cb_enter K cb fd fds s) = loop_stop s \<and>
    stop_measure (run_pc (cb_enter K cb fd fds s)) < 4 * length fds + 5" for cb fd fds
    using cb_enter_frame [of K cb fd fds s 0] by auto
  have A: "loop_stop (cb_leave cb fds s) = loop_stop s \<and> run_pc (cb_leave cb fds s) = LFor fds" for cb fds
    by (cases cb) (auto simp: cb_leave_def)
  show "loop_stop s' = loop_stop s" using assms E A
    by (auto simp: run_step_def split: loop_pc.splits list.splits option.splits prod.splits sum.splits if_splits)
  show "stop_measure (run_pc s') < stop_measure (run_pc s)" if "loop_stop s" and L: "kernel_laws K opens interest"
  proof (cases "run_pc s = LWait")
    case True
    have "length fds \<le> 64" if "k_epoll_wait K (epollFd s) 64 EPOLL_TIMEOUT (kern s) = (Inr fds, k)" for fds k
      by (rule law_wait(1) [OF L that])
    with True assms show ?thesis by (fastforce simp: run_step_def split: prod.splits sum.splits if_splits)
  next
    case False
    with assms E A that show ?thesis by (auto simp: run_step_def split: loop_pc.splits list.splits option.splits)
  qed
qed

lemma loop_exec_measure:
  assumes L: "kernel_laws K opens interest" and st: "loop_stop s" and c: "loop_exec K a s = Some s'"
  shows "loop_stop s' \<and> stop_measure (run_pc s') + (if is_run a then 1 else 0) \<le> stop_measure (run_pc s)"
proof (cases a)
  case (Api x) with api_call_frame [of K x s s'] st c show ?thesis by (auto simp: is_run_def)
next
  case Run with run_step_frame(1) [of K s s'] run_step_frame(2) [OF _ st L, of s'] st c show ?thesis by (simp add: is_run_def)
qed (use c st in \<open>auto simp: is_run_def split: loop_pc.splits\<close>)

lemma stop_bounds_run:
  assumes "kernel_laws K opens interest" "loop_stop s" "run (loop_exec K) as s = Some s'"
  shows "loop_stop s' \<and> stop_measure (run_pc s') + length (filter is_run as) \<le> stop_measure (run_pc s)"
  using assms(2-)
proof (induction as arbitrary: s)
  case (Cons a as)
  then obtain u where u: "loop_exec K a s = Some u" "run (loop_exec K) as u = Some s'" by (auto split: option.splits)
  with Cons.IH u(2) loop_exec_measure [OF assms(1) Cons.prems(1) u(1)] show ?case by force
qed simp

lemma stop_measure_bound:
  assumes "kernel_laws K opens interest" "reachable (loop_init K) (loop_exec K) s"
  shows "stop_measure (run_pc s) \<le> 259"
  using assms(2)
proof (induction rule: reachable.induct)
  case (start s)
  then show ?case using client_new_sel(4) by (fastforce simp: loop_init_def)
next
  case (step s a s')
  show ?case
  proof (cases a)
    case (Api x) with api_call_frame [of K x s s'] step show ?thesis by simp
  next
    case Run with run_step_view [OF assms(1), of s s'] step show ?thesis by simp
  qed (use step in \<open>auto split: loop_pc.splits\<close>)
qed

subsection \<open>The concrete kernel follows the laws\<close>

lemma sk_create_laws: "create_laws sk_create sk_open_set sk_interest_set"
proof -
  have ge: "x \<le> foldr max xs (2 :: int)" if "x \<in> set xs" for x xs using that by (induction xs) auto
  have pos: "(2 :: int) \<le> foldr max xs 2" for xs by (induction xs) auto
  have "foldr max (sk_opens k) 2 + 1 \<notin> set (sk_opens k)" for k :: skernel using ge [of _ "sk_opens k"] by force
  moreover have "0 \<le> foldr max (sk_opens k) 2 + 1" for k :: skernel using pos [of "sk_opens k"] by simp
  ultimately show ?thesis
    by (auto simp: create_laws_def sk_create_def sk_open_set_def sk_interest_set_def sk_registered_def sk_open_def Let_def
        split: if_splits)
qed

lemma sk_laws: "kernel_laws sk_ops sk_open_set sk_interest_set"
proof -
  have "ctl_laws sk_ops sk_open_set sk_interest_set"
    by (auto simp: ctl_laws_def sk_ops_def sk_ctl_def sk_open_set_def sk_interest_set_def sk_registered_def sk_open_def
        split: ctl.splits if_splits)
  moreover have "wait_laws sk_ops sk_interest_set"
    by (auto simp: wait_laws_def sk_ops_def sk_wait_def sk_interest_set_def dest: in_set_takeD)
  moreover have "close_laws sk_ops sk_open_set sk_interest_set"
    by (auto simp: close_laws_def sk_ops_def sk_close_def sk_open_set_def sk_interest_set_def sk_registered_def sk_open_def)
  ultimately show ?thesis using sk_create_laws
    by (auto simp: kernel_laws_def sk_ops_def quiet_laws_def sk_wait_def sk_open_set_def sk_interest_set_def
        sk_registered_def sk_open_def)
qed

lemma sample_loop_init: "loop_init sk_ops (sample_loop ready room)"
proof -
  have "client_new sk_ops \<lparr>sk_opens = [0, 1, 2], sk_interest = [], sk_ready = ready, sk_room = room, sk_fds = 8\<rparr> =
      Inr (sample_loop ready room)"
    by (simp add: client_new_def event_loop_new_def sk_ops_def sk_create_def sample_loop_def event_loop.defs client_loop.defs)
  then show ?thesis unfolding loop_init_def by blast
qed

lemma sample_reachable:
  "run (loop_exec sk_ops) as (sample_loop ready room) = Some s \<Longrightarrow> reachable (loop_init sk_ops) (loop_exec sk_ops) s"
  using run_reachable reachable.start sample_loop_init by metis

lemma sample_kept:
  "run (loop_exec_kept sk_ops) as (sample_loop ready room) = Some s \<Longrightarrow> reachable (loop_init sk_ops) (loop_exec_kept sk_ops) s"
  using run_reachable reachable.start sample_loop_init by metis

subsection \<open>Destruction\<close>

lemma loop_destroy_effect:
  fixes s :: "('u, 'k, 'm) event_loop_scheme"
  assumes "kernel_laws K opens interest" "0 \<le> epollFd s"
  shows "loop_stop (loop_destroy K s)" "epollFd (loop_destroy K s) = -1" "interest (epollFd s) (kern (loop_destroy K s)) = {}"
    "opens (kern (loop_destroy K s)) = opens (kern s) - {epollFd s}"
proof -
  have "opens (fold (\<lambda>(fd, ev) k. snd (k_epoll_ctl K (epollFd s) CtlDel fd 0 k)) es k) = opens k"
    for k and es :: "(int \<times> 'u event) list"
    using assms(1) by (induction es arbitrary: k) auto
  with assms show "loop_stop (loop_destroy K s)" "epollFd (loop_destroy K s) = -1" "interest (epollFd s) (kern (loop_destroy K s)) = {}"
    "opens (kern (loop_destroy K s)) = opens (kern s) - {epollFd s}"
    by (simp_all add: loop_destroy_def Let_def stop_def)
qed

section \<open>Properties\<close>

text \<open>C4. As long as the client releases its handles on a descriptor of its own before it closes that
  descriptor, in every reachable state, whatever threads and callbacks do: the registry of the loop has one entry
  per descriptor and its descriptors are exactly those the kernel watches, all of them open, and each
  belongs to a valid handle; every valid handle that owns its descriptor is registered and open, and
  no other valid handle has that descriptor; and the fired flag of every timer handle exists.\<close>

theorem loop_registry_consistent:
  assumes "kernel_laws K opens interest" "reachable (loop_init K) (loop_exec_kept K) s"
  shows "distinct (map fst (events_map s)) \<and>
    fst ` set (events_map s) = interest (epollFd s) (kern s) \<and>
    interest (epollFd s) (kern s) \<subseteq> opens (kern s) \<inter> valid_fds (handles s) \<and>
    (\<forall>i < length (handles s). owns (handles s ! i) \<longrightarrow>
       handle_fd (handles s ! i) \<in> interest (epollFd s) (kern s) \<and>
       (\<forall>j < length (handles s). j \<noteq> i \<longrightarrow> handle_valid (handles s ! j) \<longrightarrow> handle_fd (handles s ! j) \<noteq> handle_fd (handles s ! i))) \<and>
    (\<forall>h \<in> set (handles s). flag_ok (length (fired_flags s)) h)"
proof -
  have "fst ` set (events_map s) \<subseteq> valid_fds (handles s)"
    using watch_reachable [OF assms(1) kept_reachable [OF assms(2)]] by (simp add: watch_inv_def)
  moreover have "distinct (map fst (events_map s))" "fst ` set (events_map s) = interest (epollFd s) (kern s)"
    "interest (epollFd s) (kern s) \<subseteq> opens (kern s)" "own_inv (handles s) s" "flags_inv (length (fired_flags s)) (handles s)"
    using client_reachable_inv [OF assms] by (simp_all add: client_inv_def reg_inv_def)
  ultimately show ?thesis by (simp add: own_inv_def flags_inv_def)
qed

theorem loop_registry_consistent_witness:
  "\<exists>s. run (loop_exec_kept sk_ops) (kept_close_schedule @ timer_schedule) (sample_loop [[5]] 9) = Some s \<and> length (handles s) = 6 \<and>
     map fst (events_map s) = [5, 6, 7, 0] \<and> sk_interest_set 3 (kern s) = {5, 6, 7, 0} \<and> fired_flags s = [True, False]"
proof -
  have "map_option (\<lambda>s. (length (handles s), map fst (events_map s), epollFd s, fired_flags s))
      (run (loop_exec_kept sk_ops) (kept_close_schedule @ timer_schedule) (sample_loop [[5]] 9)) = Some (6, [5, 6, 7, 0], 3, [True, False])"
    by code_simp
  then obtain s where s: "run (loop_exec_kept sk_ops) (kept_close_schedule @ timer_schedule) (sample_loop [[5]] 9) = Some s"
    "length (handles s) = 6" "map fst (events_map s) = [5, 6, 7, 0]" "epollFd s = 3" "fired_flags s = [True, False]" by auto
  have "fst ` set (events_map s) = {5, 6, 7, 0}" using s(3) by (metis list.set(1,2) set_map)
  with loop_registry_consistent [OF sk_laws sample_kept [OF s(1)]] s show ?thesis by auto
qed

text \<open>C15. Whatever the client closes and when: the kernel watches only descriptors that the registry
  has an entry for, and every entry belongs to a valid handle of the client. A descriptor that was
  closed under its handle therefore leaves an entry only until its handles are released.\<close>

theorem loop_watched_has_handle:
  assumes "kernel_laws K opens interest" "reachable (loop_init K) (loop_exec K) s"
  shows "interest (epollFd s) (kern s) \<subseteq> fst ` set (events_map s) \<and>
    fst ` set (events_map s) \<subseteq> valid_fds (handles s) \<and>
    epollFd s \<in> opens (kern s) \<and> (\<forall>h \<in> set (handles s). owns h \<longrightarrow> handle_fd h \<noteq> epollFd s)"
  using watch_reachable [OF assms] unfolding watch_inv_def by blast

theorem loop_watched_has_handle_witness:
  "\<exists>s. run (loop_exec sk_ops) (take 3 early_close_schedule) (sample_loop [] 9) = Some s \<and>
     map handle_valid (handles s) = [True] \<and> map fst (events_map s) = [4] \<and> \<not> sk_open (kern s) 4 \<and>
     fst ` set (events_map s) \<subseteq> valid_fds (handles s)"
proof -
  have "map_option (\<lambda>s. (map handle_valid (handles s), map fst (events_map s), sk_open (kern s) 4))
      (run (loop_exec sk_ops) (take 3 early_close_schedule) (sample_loop [] 9)) = Some ([True], [4], False)" by code_simp
  then obtain s where s: "run (loop_exec sk_ops) (take 3 early_close_schedule) (sample_loop [] 9) = Some s"
    "map handle_valid (handles s) = [True]" "map fst (events_map s) = [4]" "\<not> sk_open (kern s) 4" by auto
  have "fst ` set (events_map s) \<subseteq> valid_fds (handles s)"
    using loop_watched_has_handle [OF sk_laws sample_reachable [OF s(1)]] by (elim conjE)
  with s show ?thesis by metis
qed

text \<open>C33. Round trip, for a client that releases its handles on a descriptor of its own before it closes that
  descriptor: a trigger, timer or interval that was created and then released leaves open descriptors, interest list and registry as they were; the handle is valid in between and not after, and
  releasing it again does nothing.\<close>

theorem loop_create_release_roundtrip:
  assumes "kernel_laws K opens interest" "reachable (loop_init K) (loop_exec_kept K) s"
    and "createTrigger K cb s = (Inr h, s1) \<or> loop_createTimer K ms cb s = (Inr h, s1) \<or>
      loop_createInterval K ms cb s = (Inr h, s1)"
    and "handle_release K h s1 = (h', s2)"
  shows "handle_valid h \<and> \<not> handle_valid h' \<and> loop_view opens interest s2 = loop_view opens interest s \<and>
    handle_release K h' s2 = (h', s2)"
proof -
  have inv: "reg_inv opens interest s" using client_reachable_inv [OF assms(1,2)] by (simp add: client_inv_def)
  have "\<exists>c. created opens interest s h c s1"
    using assms(3) createTrigger_effect [OF assms(1) inv] createTimer_effect [OF assms(1) inv]
      createInterval_effect [OF assms(1) inv] by fastforce
  then obtain c where c: "created opens interest s h c s1" by blast
  have h: "handle_valid h" "owns h" using c owns_valid by (auto simp: created_def)
  have nofd: "handle_fd h \<notin> fst ` set (events_map s)" "handle_fd h \<notin> interest (epollFd s) (kern s)"
      "handle_fd h \<noteq> epollFd s" "handle_fd h \<notin> opens (kern s)"
    using c inv by (auto simp: created_def reg_inv_def)
  note R = handle_release_effect [OF assms(1,4)]
  have "loop_view opens interest s2 = loop_view opens interest s"
    using R(4,5) [OF h(1)] R(6,7) nofd h(2) c by (auto simp: loop_view_def created_def delete_snoc)
  moreover have "handle_release K h' s2 = (h', s2)"
    using R(1) by (auto simp: handle_release_def handle_valid_def split: option.splits)
  ultimately show ?thesis using h R(1) by simp
qed

theorem loop_create_release_roundtrip_witness:
  "\<exists>h s1 h' s2. loop_createTimer sk_ops 5 (Some 7) (sample_loop [] 9) = (Inr h, s1) \<and> handle_release sk_ops h s1 = (h', s2) \<and>
     handle_valid h \<and> loop_view sk_open_set sk_interest_set s2 = loop_view sk_open_set sk_interest_set (sample_loop [] 9)"
proof -
  have "isl (fst (loop_createTimer sk_ops 5 (Some 7) (sample_loop [] 9))) = False" by code_simp
  then obtain h s1 where c: "loop_createTimer sk_ops 5 (Some 7) (sample_loop [] 9) = (Inr h, s1)"
    by (cases "loop_createTimer sk_ops 5 (Some 7) (sample_loop [] 9)"; cases "fst (loop_createTimer sk_ops 5 (Some 7) (sample_loop [] 9))") auto
  obtain h' s2 where r: "handle_release sk_ops h s1 = (h', s2)" by (cases "handle_release sk_ops h s1")
  have "reachable (loop_init sk_ops) (loop_exec_kept sk_ops) (sample_loop [] 9)" by (rule sample_kept [of "[]"]) simp
  from loop_create_release_roundtrip [OF sk_laws this _ r] c r show ?thesis by metis
qed

text \<open>C34. Failures, again for a client that releases its handles before it closes their descriptors: a creation that throws leaves registry and interest list as they were. A timer also leaves
  no descriptor behind, because its handle exists before the registration; a trigger or an
  interval whose registration fails leaves its descriptor open, without an owner.\<close>

theorem loop_create_failures:
  assumes "kernel_laws K opens interest" "reachable (loop_init K) (loop_exec_kept K) s"
  shows "(case createEvent K fd fl ty cb s of
       (Inl e, s') \<Rightarrow> loop_view opens interest s' = loop_view opens interest s
     | _ \<Rightarrow> True) \<and>
    (case loop_createTimer K ms cb s of
       (Inl e, s') \<Rightarrow> loop_view opens interest s' = loop_view opens interest s
     | _ \<Rightarrow> True) \<and>
    (case createTrigger K cb s of
       (Inl e, s') \<Rightarrow> snd (loop_view opens interest s') = snd (loop_view opens interest s) \<and>
         opens (kern s') = opens (kern s) \<union> {x. x = fst (k_eventfd K (kern s)) \<and> 0 \<le> x}
     | _ \<Rightarrow> True) \<and>
    (case loop_createInterval K ms cb s of
       (Inl e, s') \<Rightarrow> snd (loop_view opens interest s') = snd (loop_view opens interest s) \<and>
         opens (kern s') = opens (kern s) \<union> {x. x = fst (k_timerfd_create K (kern s)) \<and> 0 \<le> x}
     | _ \<Rightarrow> True)"
proof -
  have inv: "reg_inv opens interest s" using client_reachable_inv [OF assms] by (simp add: client_inv_def)
  have one: "{x :: int. x = y \<and> 0 \<le> x} = (if 0 \<le> y then {y} else {})" for y by auto
  have ev: "loop_view opens interest s' = loop_view opens interest s" if "createEvent K fd fl ty cb s = (Inl e, s')" for e s'
  proof -
    have "reg_inv opens interest s' \<and> events_map s' = events_map s \<and> epollFd s' = epollFd s \<and> opens (kern s') = opens (kern s)"
      using createEvent_effect [OF assms(1) inv that, unfolded sum.case] by blast
    then show ?thesis using inv unfolding reg_inv_def loop_view_def by metis
  qed
  show ?thesis
  proof (intro conjI)
    show "case createEvent K fd fl ty cb s of (Inl e, s') \<Rightarrow> loop_view opens interest s' = loop_view opens interest s | _ \<Rightarrow> True"
      using ev by (auto split: prod.splits sum.splits)
    show "case loop_createTimer K ms cb s of (Inl e, s') \<Rightarrow> loop_view opens interest s' = loop_view opens interest s | _ \<Rightarrow> True"
      using createTimer_effect [OF assms(1) inv, of ms cb]
      by (auto simp: loop_view_def create_failed_def split: prod.splits sum.splits)
    show "case createTrigger K cb s of
        (Inl e, s') \<Rightarrow> snd (loop_view opens interest s') = snd (loop_view opens interest s) \<and>
          opens (kern s') = opens (kern s) \<union> {x. x = fst (k_eventfd K (kern s)) \<and> 0 \<le> x}
      | _ \<Rightarrow> True"
      using createTrigger_effect [OF assms(1) inv, of cb]
      by (auto simp: loop_view_def create_failed_def one split: prod.splits sum.splits)
    show "case loop_createInterval K ms cb s of
        (Inl e, s') \<Rightarrow> snd (loop_view opens interest s') = snd (loop_view opens interest s) \<and>
          opens (kern s') = opens (kern s) \<union> {x. x = fst (k_timerfd_create K (kern s)) \<and> 0 \<le> x}
      | _ \<Rightarrow> True"
      using createInterval_effect [OF assms(1) inv, of ms cb]
      by (auto simp: loop_view_def create_failed_def one split: prod.splits sum.splits)
  qed
qed

theorem loop_create_failures_witness:
  "\<exists>e s'. createTrigger sk_ops (Some 7) (sample_loop [] 0) = (Inl e, s') \<and>
     4 \<in> sk_open_set (kern s') \<and> 4 \<notin> sk_open_set (kern (sample_loop [] 0)) \<and> events_map s' = []"
proof -
  have "isl (fst (createTrigger sk_ops (Some 7) (sample_loop [] 0)))" by code_simp
  then obtain e s' where c: "createTrigger sk_ops (Some 7) (sample_loop [] 0) = (Inl e, s')"
    by (cases "createTrigger sk_ops (Some 7) (sample_loop [] 0)"; cases "fst (createTrigger sk_ops (Some 7) (sample_loop [] 0))") auto
  have fd: "fst (k_eventfd sk_ops (kern (sample_loop [] 0))) = 4" by code_simp
  have "\<not> sk_open (kern (sample_loop [] 0)) 4" "events_map (sample_loop [] 0) = []" by code_simp+
  moreover have "reachable (loop_init sk_ops) (loop_exec_kept sk_ops) (sample_loop [] 0)" by (rule sample_kept [of "[]"]) simp
  from loop_create_failures [OF sk_laws this, of 0 0 SOCKET "Some 7" 0] c fd
  have "snd (loop_view sk_open_set sk_interest_set s') = snd (loop_view sk_open_set sk_interest_set (sample_loop [] 0))"
    "4 \<in> sk_open_set (kern s')" by auto
  ultimately show ?thesis using c by (simp add: sk_open_set_def loop_view_def)
qed

text \<open>C19. Once \<open>stop\<close> has been called, \<open>run\<close> takes at most 259 more steps of its own, whatever the other threads
  and the callbacks call or close meanwhile, and the flag stays set; as long as it has neither returned nor
  thrown, it can take its next step (a running user function being able to return).\<close>

theorem loop_stop_terminates:
  assumes "kernel_laws K opens interest" "reachable (loop_init K) (loop_exec K) s" "loop_stop s"
    and "run (loop_exec K) as s = Some s'"
  shows "loop_stop s' \<and> length (filter is_run as) \<le> 259 \<and>
    (run_pc s' = LReturned \<or> (\<exists>e. run_pc s' = LThrew e) \<or> (\<exists>a. is_run a \<and> loop_exec K a s' \<noteq> None))"
proof -
  have "stop_measure (run_pc s) \<le> 259" by (rule stop_measure_bound [OF assms(1,2)])
  moreover have "run_pc s' = LReturned \<or> (\<exists>e. run_pc s' = LThrew e) \<or> loop_exec K Run s' \<noteq> None \<or> loop_exec K BodyReturns s' \<noteq> None"
    by (cases "run_pc s'") (auto simp: run_step_def split: list.splits)
  moreover have "is_run Run" "is_run BodyReturns" by (simp_all add: is_run_def)
  ultimately show ?thesis using stop_bounds_run [OF assms(1,3,4)] by (metis add_leD2 le_trans)
qed

theorem loop_stop_terminates_witness:
  "\<exists>s s'. run (loop_exec sk_ops) timer_schedule (sample_loop [[4]] 9) = Some s \<and> loop_stop s \<and>
     run (loop_exec sk_ops) [Run, Run] s = Some s' \<and> loop_stop s' \<and> run_pc s' = LReturned"
proof -
  have "map_option (\<lambda>s. (loop_stop s, map_option run_pc (run (loop_exec sk_ops) [Run, Run] s)))
      (run (loop_exec sk_ops) timer_schedule (sample_loop [[4]] 9)) = Some (True, Some LReturned)" by code_simp
  then obtain s s' where s: "run (loop_exec sk_ops) timer_schedule (sample_loop [[4]] 9) = Some s" "loop_stop s"
    "run (loop_exec sk_ops) [Run, Run] s = Some s'" "run_pc s' = LReturned" by auto
  from loop_stop_terminates [OF sk_laws sample_reachable [OF s(1)] s(2,3)] s show ?thesis by blast
qed

text \<open>The destructor of the loop stops it, closes the epoll descriptor and nothing else, and leaves no
  interest list.\<close>

theorem loop_destroy_clean:
  assumes "kernel_laws K opens interest" "reachable (loop_init K) (loop_exec K) s"
  shows "loop_stop (loop_destroy K s) \<and> epollFd (loop_destroy K s) = -1 \<and>
    opens (kern (loop_destroy K s)) = opens (kern s) - {epollFd s} \<and> interest (epollFd s) (kern (loop_destroy K s)) = {}"
proof -
  have "0 \<le> epollFd s" using watch_reachable [OF assms] law_open_nonneg [OF assms(1)] by (auto simp: watch_inv_def)
  from loop_destroy_effect [OF assms(1) this] show ?thesis by simp
qed

text \<open>The callback runs after its handle was destroyed by another thread: the function copied under the
  lock is called after the lock is given back, with a descriptor that is closed.\<close>

theorem loop_callback_after_release:
  "case run (loop_exec sk_ops) late_call_schedule (sample_loop [[4]] 9) of
     None \<Rightarrow> False
   | Some s \<Rightarrow> run_pc s = LBody (OnTimer 0 (Some 7)) 4 [] \<and> events_map s = [] \<and> map handle_valid (handles s) = [False]"
  by code_simp

text \<open>An event of a released descriptor reaches the next registration that gets the same number: a timer of one
  minute created in the middle of the batch is called in that batch and marked as fired.\<close>

theorem loop_stale_event_fires_new_timer:
  "case run (loop_exec sk_ops) stale_event_schedule (sample_loop [[4, 5]] 9) of
     None \<Rightarrow> False
   | Some s \<Rightarrow> map handle_valid (handles s) = [True, False, True] \<and> fired_flags s = [True, False, True] \<and>
       timer_fired (handles s ! 2) s = Some True"
  by code_simp

text \<open>Two handles on one user descriptor: releasing the first removes the registration of the second, which
  still reports that it is valid.\<close>

theorem loop_shared_fd_unregistered:
  "case run (loop_exec sk_ops) shared_fd_schedule (sample_loop [] 9) of
     None \<Rightarrow> False
   | Some s \<Rightarrow> map handle_valid (handles s) = [False, True] \<and> events_map s = [] \<and> sk_interest (kern s) = []"
  by code_simp

text \<open>A client that closes a descriptor under its handle: the registry keeps the entry although the kernel has
  dropped the descriptor, the next timer gets the same number, and destroying the old handle
  unregisters that timer, whose handle still reports that it is valid and which never fires.\<close>

theorem loop_early_close_unregisters:
  "case run (loop_exec sk_ops) (take 3 early_close_schedule) (sample_loop [] 9) of
     None \<Rightarrow> False
   | Some s \<Rightarrow> map fst (events_map s) = [4] \<and> sk_interest (kern s) = []"
  "case run (loop_exec sk_ops) early_close_schedule (sample_loop [] 9) of
     None \<Rightarrow> False
   | Some s \<Rightarrow> map owns (handles s) = [False, True] \<and> map handle_fd (handles s) = [-1, 4] \<and> sk_open (kern s) 4 \<and>
       events_map s = [] \<and> sk_interest (kern s) = []"
  by code_simp+

end
