(* ===== verification/TaskScheduler.thy ===== *)
theory TaskScheduler
  imports EventLoop FuturePromise SharedValue DynamicThreadPool
begin

text \<open>
  \<^verbatim>\<open>src/scheduler/taskscheduler.cpp\<close> and \<^verbatim>\<open>include/miniruntime/scheduler/taskscheduler.h\<close>: the scheduler, which
  composes the event loop, the thread pool, futures and shared values.

  Its state \<open>sched\<close> extends the state of the event loop by a pool over the bounded queue, by the promises and
  shared values handed out so far (numbered in the order of their creation), by the members of
  \<open>TaskScheduler::Impl\<close>, and by the calls in progress. A user's callable is opaque: when a task ends, the schedule
  chooses the value or the exception of its callable (\<open>ATask\<close>). The pool takes its own steps (\<open>pool_exec\<close>), so
  that \<open>execute\<close> and the callback of a timer may block in \<open>enqueue\<close>; the loop takes its own steps (\<open>run_step\<close>).

  \<open>schedule\<close>, \<open>scheduleInterval\<close> and \<open>cancel\<close> are defined twice: sequentially, as the source writes them, and as
  sections that exclude others (\<open>schedule_begin\<close>, \<open>scheduleInterval_begin\<close>, \<open>cancel_begin\<close>, \<open>call_step\<close>): the registration
  with the loop, the insertion under the scheduler's mutex, the \<open>setId\<close>; the removal under the mutex, the
  \<open>onCancel\<close>. Any number of calls can be between two of their sections while the loop, the pool and other
  calls go on, so that a timer may fire before its entry exists. \<open>init\<close> and the clean-up (wholly under the
  mutex) are one transition each.
\<close>

section \<open>State\<close>

text \<open>
  The type-erased tasks: the lambdas of \<open>execute\<close> and \<open>schedule\<close> (a promise) and of
  \<open>scheduleInterval\<close> (a shared value), with the user's callable \<open>f\<close>, which is opaque. Promises and
  shared values are numbered in the order of their creation.
\<close>

datatype 'f stask = SetPromise nat 'f | SetShared nat 'f

datatype on_cancel = ClosePromise nat | CloseShared nat

text \<open>The functions the scheduler gives to the event loop.\<close>

datatype 'f sched_cb = EnqueueTask "'f stask" | CleanTimers

type_synonym sched_entry = "handle \<times> on_cancel"

text \<open>
  Where a call of \<open>schedule\<close>, \<open>scheduleInterval\<close> or \<open>cancel\<close> is, between the sections that exclude others: the handle
  of the loop is in a local variable and not yet in the map; the identifier is not yet stored in the
  future or shared value; the entry is out of its map and \<open>onCancel\<close> is still to be called.
\<close>

datatype call_pc =
    InsertTimer nat handle
  | InsertInterval nat handle
  | StoreTimerId nat u64
  | StoreSharedId nat u64
  | CallOnCancel on_cancel
  | CallReturned

record ('f, 'a, 'e, 'k) sched = "('f sched_cb, 'k) event_loop" +
  spool :: "('f stask, 'f stask bbq) pool"
  promises :: "('a, 'e) future_state list"
  shareds :: "('a, 'e) sv list"
  timers :: "(u64 \<times> sched_entry) list"
  intervals :: "(u64 \<times> sched_entry) list"
  timerCleaner :: handle
  nextId :: u64
  initialized :: bool
  loop_started :: bool
  enqueuing :: bool
  calls :: "call_pc list"

section \<open>Operations\<close>

definition taskQueueSize :: nat where
  "taskQueueSize = 1000"

text \<open>The constructor; slot 0 of the pool's clients is the thread of the loop, the others are user threads.\<close>

definition sched_new ::
  "'k kernel_ops \<Rightarrow> nat \<Rightarrow> nat \<Rightarrow> nat \<Rightarrow> 'k \<Rightarrow> string + ('f, 'a, 'e, 'k) sched" where
  "sched_new K minTasks maxTasks users k =
     map_sum id (\<lambda>l. event_loop.extend l (sched.fields
         (pool_new (bbq_new taskQueueSize) minTasks maxTasks (Suc users)) [] [] [] [] None 1 False False False []))
       (event_loop_new K k)"

definition run_on_cancel :: "on_cancel \<Rightarrow> ('f, 'a, 'e, 'k) sched \<Rightarrow> ('f, 'a, 'e, 'k) sched" where
  "run_on_cancel oc s =
     (case oc of
        ClosePromise p \<Rightarrow> s\<lparr>promises := (promises s)[p := promise_close (promises s ! p)]\<rparr>
      | CloseShared v \<Rightarrow> s\<lparr>shareds := (shareds s)[v := sv_close (shareds s ! v)]\<rparr>)"

text \<open>
  The sections of \<open>createTimer\<close> and \<open>createInterval\<close> under the mutex. \<open>try_emplace\<close> with a key in use destroys the
  new entry.
\<close>

definition insert_timer ::
  "'k kernel_ops \<Rightarrow> handle \<Rightarrow> on_cancel \<Rightarrow> ('f, 'a, 'e, 'k) sched \<Rightarrow> u64 \<times> ('f, 'a, 'e, 'k) sched" where
  "insert_timer K h oc s =
     (let i = nextId s; s1 = s\<lparr>nextId := i + 1\<rparr> in
      (i, if map_of (timers s1) i = None then s1\<lparr>timers := timers s1 @ [(i, h, oc)]\<rparr> else snd (handle_release K h s1)))"

definition insert_interval ::
  "'k kernel_ops \<Rightarrow> handle \<Rightarrow> on_cancel \<Rightarrow> ('f, 'a, 'e, 'k) sched \<Rightarrow> u64 \<times> ('f, 'a, 'e, 'k) sched" where
  "insert_interval K h oc s =
     (let i = nextId s; s1 = s\<lparr>nextId := i + 1\<rparr> in
      (i, if map_of (intervals s1) i = None then s1\<lparr>intervals := intervals s1 @ [(i, h, oc)]\<rparr> else snd (handle_release K h s1)))"

definition sched_createTimer ::
  "'k kernel_ops \<Rightarrow> int \<Rightarrow> 'f stask \<Rightarrow> on_cancel \<Rightarrow> ('f, 'a, 'e, 'k) sched \<Rightarrow> (string + u64) \<times> ('f, 'a, 'e, 'k) sched" where
  "sched_createTimer K ms task oc s =
     (case loop_createTimer K ms (Some (EnqueueTask task)) s of
        (Inl e, s1) \<Rightarrow> (Inl e, s1)
      | (Inr h, s1) \<Rightarrow> apfst Inr (insert_timer K h oc s1))"

definition sched_createInterval ::
  "'k kernel_ops \<Rightarrow> int \<Rightarrow> 'f stask \<Rightarrow> on_cancel \<Rightarrow> ('f, 'a, 'e, 'k) sched \<Rightarrow> (string + u64) \<times> ('f, 'a, 'e, 'k) sched" where
  "sched_createInterval K ms task oc s =
     (case loop_createInterval K ms (Some (EnqueueTask task)) s of
        (Inl e, s1) \<Rightarrow> (Inl e, s1)
      | (Inr h, s1) \<Rightarrow> apfst Inr (insert_interval K h oc s1))"

definition store_timer_id :: "nat \<Rightarrow> u64 \<Rightarrow> ('f, 'a, 'e, 'k) sched \<Rightarrow> ('f, 'a, 'e, 'k) sched" where
  "store_timer_id p i s = s\<lparr>promises := (promises s)[p := promise_setId i (promises s ! p)]\<rparr>"

definition store_shared_id :: "nat \<Rightarrow> u64 \<Rightarrow> ('f, 'a, 'e, 'k) sched \<Rightarrow> ('f, 'a, 'e, 'k) sched" where
  "store_shared_id v i s = s\<lparr>shareds := (shareds s)[v := sv_setId i (shareds s ! v)]\<rparr>"

text \<open>\<open>schedule\<close> and \<open>scheduleInterval\<close> as one thread executes them; the result is the number of the future or shared value.\<close>

definition schedule :: "'k kernel_ops \<Rightarrow> int \<Rightarrow> 'f \<Rightarrow> ('f, 'a, 'e, 'k) sched \<Rightarrow> nat \<times> ('f, 'a, 'e, 'k) sched" where
  "schedule K delay f s =
     (let p = length (promises s); s1 = s\<lparr>promises := promises s @ [future_state_new]\<rparr> in
      (p, case sched_createTimer K delay (SetPromise p f) (ClosePromise p) s1 of
            (Inr i, s2) \<Rightarrow> store_timer_id p i s2
          | (Inl e, s2) \<Rightarrow> s2\<lparr>promises := (promises s2)[p := promise_close (promises s2 ! p)]\<rparr>))"

definition scheduleInterval :: "'k kernel_ops \<Rightarrow> int \<Rightarrow> 'f \<Rightarrow> ('f, 'a, 'e, 'k) sched \<Rightarrow> nat \<times> ('f, 'a, 'e, 'k) sched" where
  "scheduleInterval K interval f s =
     (let v = length (shareds s); s1 = s\<lparr>shareds := shareds s @ [sv_new]\<rparr> in
      (v, case sched_createInterval K interval (SetShared v f) (CloseShared v) s1 of
            (Inr i, s2) \<Rightarrow> store_shared_id v i s2
          | (Inl e, s2) \<Rightarrow> s2\<lparr>shareds := (shareds s2)[v := sv_close (shareds s2 ! v)]\<rparr>))"

text \<open>\<open>enqueue\<close>: thread \<open>c\<close> enters the pool's \<open>enqueue\<close>, whose steps are those of the pool.\<close>

definition enqueue :: "nat \<Rightarrow> 'f stask \<Rightarrow> ('f, 'a, 'e, 'k) sched \<Rightarrow> ('f, 'a, 'e, 'k) sched option" where
  "enqueue c task s = map_option (\<lambda>q. s\<lparr>spool := q\<rparr>) (pool_exec bbq_ops (PCall c task) (spool s))"

definition execute :: "nat \<Rightarrow> 'f \<Rightarrow> ('f, 'a, 'e, 'k) sched \<Rightarrow> (nat \<times> ('f, 'a, 'e, 'k) sched) option" where
  "execute c f s =
     (let p = length (promises s) in
      map_option (Pair p) (enqueue c (SetPromise p f) (s\<lparr>promises := promises s @ [future_state_new]\<rparr>)))"

text \<open>The section of \<open>cancel\<close> under the mutex: the entry leaves its map, its handle is destroyed, \<open>onCancel\<close> is kept.\<close>

definition erase_entry :: "'k kernel_ops \<Rightarrow> u64 \<Rightarrow> ('f, 'a, 'e, 'k) sched \<Rightarrow> on_cancel option \<times> ('f, 'a, 'e, 'k) sched" where
  "erase_entry K i s =
     (case map_of (timers s) i of
        Some (h, oc) \<Rightarrow> (Some oc, snd (handle_release K h (s\<lparr>timers := AList.delete i (timers s)\<rparr>)))
      | None \<Rightarrow>
          (case map_of (intervals s) i of
             Some (h, oc) \<Rightarrow> (Some oc, snd (handle_release K h (s\<lparr>intervals := AList.delete i (intervals s)\<rparr>)))
           | None \<Rightarrow> (None, s)))"

definition cancel :: "'k kernel_ops \<Rightarrow> u64 option \<Rightarrow> ('f, 'a, 'e, 'k) sched \<Rightarrow> bool \<times> ('f, 'a, 'e, 'k) sched" where
  "cancel K ido s =
     (case ido of
        None \<Rightarrow> (False, s)
      | Some i \<Rightarrow>
          (case erase_entry K i s of
             (Some oc, s') \<Rightarrow> (True, run_on_cancel oc s')
           | (None, s') \<Rightarrow> (False, s')))"

text \<open>The periodic clean-up: \<open>erase_if\<close> destroys the entries that have fired or are not valid.\<close>

definition expired :: "('f, 'a, 'e, 'k) sched \<Rightarrow> u64 \<times> sched_entry \<Rightarrow> bool" where
  "expired s e \<longleftrightarrow> timer_fired (fst (snd e)) s = Some True \<or> \<not> handle_valid (fst (snd e))"

definition clean_timers :: "'k kernel_ops \<Rightarrow> ('f, 'a, 'e, 'k) sched \<Rightarrow> ('f, 'a, 'e, 'k) sched" where
  "clean_timers K s =
     (let s' = fold (\<lambda>e t. snd (handle_release K (fst (snd e)) t)) (filter (expired s) (timers s)) s in
      s'\<lparr>timers := filter (\<lambda>e. \<not> expired s e) (timers s)\<rparr>)"

fun run_over :: "'u loop_pc \<Rightarrow> bool" where
  "run_over LReturned = True"
| "run_over (LThrew e) = True"
| "run_over _ = False"

text \<open>
  \<open>init\<close>: the loop thread, then the clean-up timer. A second call after a failed one assigns to the
  thread object and so waits for the loop to end (\<open>None\<close> while it runs).
\<close>

definition ts_init :: "'k kernel_ops \<Rightarrow> ('f, 'a, 'e, 'k) sched \<Rightarrow> ((string + unit) \<times> ('f, 'a, 'e, 'k) sched) option" where
  "ts_init K s =
     (if initialized s then Some (Inr (), s)
      else if loop_started s \<and> \<not> run_over (run_pc s) then None
      else Some (case loop_createInterval K 5000 (Some CleanTimers) (s\<lparr>loop_started := True, run_pc := LTest\<rparr>) of
                   (Inl e, s') \<Rightarrow> (Inl e, s')
                 | (Inr h, s') \<Rightarrow> (Inr (), s'\<lparr>timerCleaner := h, initialized := True\<rparr>)))"

definition sched_stop :: "('f, 'a, 'e, 'k) sched \<Rightarrow> ('f, 'a, 'e, 'k) sched" where
  "sched_stop s = stop s"

text \<open>
  The destructor up to the pool, when no call is in progress: stop the loop, join its thread, then the members in reverse order:
  intervals, timers, the clean-up timer, the loop. (The destructor of the pool is the pool's own.)
\<close>

definition release_all :: "'k kernel_ops \<Rightarrow> handle list \<Rightarrow> ('f, 'a, 'e, 'k) sched \<Rightarrow> ('f, 'a, 'e, 'k) sched" where
  "release_all K hs s = fold (\<lambda>h t. snd (handle_release K h t)) hs s"

definition entry_handles :: "(u64 \<times> sched_entry) list \<Rightarrow> handle list" where
  "entry_handles es = map (\<lambda>e. fst (snd e)) es"

definition sched_destroy :: "'k kernel_ops \<Rightarrow> ('f, 'a, 'e, 'k) sched \<Rightarrow> ('f, 'a, 'e, 'k) sched option" where
  "sched_destroy K s =
     guarded (loop_stop s \<and> (loop_started s \<longrightarrow> run_over (run_pc s)) \<and> (\<forall>c \<in> set (calls s). c = CallReturned))
       (loop_destroy K ((release_all K (entry_handles (intervals s) @ entry_handles (timers s) @ [timerCleaner s]) s)
          \<lparr>intervals := [], timers := [], timerCleaner := None\<rparr>))"

section \<open>Interleaving\<close>

text \<open>What a task does when the user's callable gave an outcome (\<open>SharedValue<void>\<close> delivers \<open>True\<close>).\<close>

definition task_effect :: "'f stask \<Rightarrow> ('a, 'e) payload \<Rightarrow> ('f, 'a, 'e, 'k) sched \<Rightarrow> ('f, 'a, 'e, 'k) sched option" where
  "task_effect k out s =
     (case k of
        SetPromise p f \<Rightarrow> Some (s\<lparr>promises := (promises s)[p := promise_set out (promises s ! p)]\<rparr>)
      | SetShared v f \<Rightarrow>
          (case out of
             PValue x \<Rightarrow> Some (s\<lparr>shareds := (shareds s)[v := sv_set x (shareds s ! v)]\<rparr>)
           | PException e \<Rightarrow> Some (s\<lparr>shareds := (shareds s)[v := sv_setException e (shareds s ! v)]\<rparr>)
           | PVoid \<Rightarrow> None))"

definition pool_step :: "'f stask pool_act \<Rightarrow> ('f, 'a, 'e, 'k) sched \<Rightarrow> ('f, 'a, 'e, 'k) sched option" where
  "pool_step a s = map_option (\<lambda>q. s\<lparr>spool := q\<rparr>) (pool_exec bbq_ops a (spool s))"

text \<open>
  A call up to the end of its first section: the registration with the loop, or the removal of the
  entry. The exception of a failed registration is caught and closes the object. Then the remaining sections.
\<close>

definition schedule_begin :: "'k kernel_ops \<Rightarrow> int \<Rightarrow> 'f \<Rightarrow> ('f, 'a, 'e, 'k) sched \<Rightarrow> ('f, 'a, 'e, 'k) sched" where
  "schedule_begin K ms f s =
     (let p = length (promises s) in
      case loop_createTimer K ms (Some (EnqueueTask (SetPromise p f))) (s\<lparr>promises := promises s @ [future_state_new]\<rparr>) of
        (Inr h, s1) \<Rightarrow> s1\<lparr>calls := calls s1 @ [InsertTimer p h]\<rparr>
      | (Inl e, s1) \<Rightarrow> s1\<lparr>promises := (promises s1)[p := promise_close (promises s1 ! p)], calls := calls s1 @ [CallReturned]\<rparr>)"

definition scheduleInterval_begin :: "'k kernel_ops \<Rightarrow> int \<Rightarrow> 'f \<Rightarrow> ('f, 'a, 'e, 'k) sched \<Rightarrow> ('f, 'a, 'e, 'k) sched" where
  "scheduleInterval_begin K ms f s =
     (let v = length (shareds s) in
      case loop_createInterval K ms (Some (EnqueueTask (SetShared v f))) (s\<lparr>shareds := shareds s @ [sv_new]\<rparr>) of
        (Inr h, s1) \<Rightarrow> s1\<lparr>calls := calls s1 @ [InsertInterval v h]\<rparr>
      | (Inl e, s1) \<Rightarrow> s1\<lparr>shareds := (shareds s1)[v := sv_close (shareds s1 ! v)], calls := calls s1 @ [CallReturned]\<rparr>)"

definition cancel_begin :: "'k kernel_ops \<Rightarrow> u64 option \<Rightarrow> ('f, 'a, 'e, 'k) sched \<Rightarrow> ('f, 'a, 'e, 'k) sched" where
  "cancel_begin K ido s =
     (case ido of
        None \<Rightarrow> s\<lparr>calls := calls s @ [CallReturned]\<rparr>
      | Some i \<Rightarrow>
          (case erase_entry K i s of
             (Some oc, s') \<Rightarrow> s'\<lparr>calls := calls s' @ [CallOnCancel oc]\<rparr>
           | (None, s') \<Rightarrow> s'\<lparr>calls := calls s' @ [CallReturned]\<rparr>))"

definition call_goto :: "nat \<Rightarrow> call_pc \<Rightarrow> ('f, 'a, 'e, 'k) sched \<Rightarrow> ('f, 'a, 'e, 'k) sched" where
  "call_goto j c s = s\<lparr>calls := (calls s)[j := c]\<rparr>"

fun call_step :: "'k kernel_ops \<Rightarrow> nat \<Rightarrow> call_pc \<Rightarrow> ('f, 'a, 'e, 'k) sched \<Rightarrow> ('f, 'a, 'e, 'k) sched option" where
  "call_step K j (InsertTimer p h) s =
     (case insert_timer K h (ClosePromise p) s of (i, s') \<Rightarrow> Some (call_goto j (StoreTimerId p i) s'))"
| "call_step K j (InsertInterval v h) s =
     (case insert_interval K h (CloseShared v) s of (i, s') \<Rightarrow> Some (call_goto j (StoreSharedId v i) s'))"
| "call_step K j (StoreTimerId p i) s = Some (call_goto j CallReturned (store_timer_id p i s))"
| "call_step K j (StoreSharedId v i) s = Some (call_goto j CallReturned (store_shared_id v i s))"
| "call_step K j (CallOnCancel oc) s = Some (call_goto j CallReturned (run_on_cancel oc s))"
| "call_step K j CallReturned s = None"

text \<open>
  Actions: the calls of user threads, which may be tasks (\<open>ACall j\<close> is the next section of the \<open>j\<close>-th call), the thread of the loop (\<open>ALoop\<close>, \<open>ABody\<close>, \<open>ABodyEnd\<close>: its own
  steps, the start and the end of a scheduler's function), the steps of the pool, and the end of a task with the outcome of
  its callable. The pool is not destroyed here.
\<close>

datatype ('f, 'a, 'e) sched_action =
    AExecute nat 'f
  | ASchedule int 'f
  | AScheduleInterval int 'f
  | ACancel "u64 option"
  | ACall nat
  | AInit
  | AStop
  | ALoop
  | ABody
  | ABodyEnd
  | APool "'f stask pool_act"
  | ATask tid "('a, 'e) payload"

fun pool_internal :: "'f stask pool_act \<Rightarrow> ('f stask, 'f stask bbq) pool \<Rightarrow> bool" where
  "pool_internal (PClient c) s = True"
| "pool_internal (PWorker t) s = (t < length (wpcs s) \<and> running (wpcs s ! t) = [])"
| "pool_internal (PTimeout t) s = True"
| "pool_internal _ s = False"

fun sched_exec ::
  "'k kernel_ops \<Rightarrow> ('f, 'a, 'e) sched_action \<Rightarrow> ('f, 'a, 'e, 'k) sched \<Rightarrow> ('f, 'a, 'e, 'k) sched option" where
  "sched_exec K (AExecute c f) s = (if 0 < c then map_option snd (execute c f s) else None)"
| "sched_exec K (ASchedule ms f) s = Some (schedule_begin K ms f s)"
| "sched_exec K (AScheduleInterval ms f) s = Some (scheduleInterval_begin K ms f s)"
| "sched_exec K (ACancel i) s = Some (cancel_begin K i s)"
| "sched_exec K (ACall j) s = (if j < length (calls s) then call_step K j (calls s ! j) s else None)"
| "sched_exec K AInit s = map_option snd (ts_init K s)"
| "sched_exec K AStop s = Some (sched_stop s)"
| "sched_exec K ALoop s = (if loop_started s then run_step K s else None)"
| "sched_exec K ABody s =
     (case run_pc s of
        LBody cb fd fds \<Rightarrow>
          (case cb_fun cb of
             Some (EnqueueTask k) \<Rightarrow>
               if enqueuing s then None else map_option (\<lambda>s'. s'\<lparr>enqueuing := True\<rparr>) (enqueue 0 k s)
           | Some CleanTimers \<Rightarrow> Some ((clean_timers K s)\<lparr>run_pc := LAfter cb fds\<rparr>)
           | None \<Rightarrow> None)
      | _ \<Rightarrow> None)"
| "sched_exec K ABodyEnd s =
     (case run_pc s of
        LBody cb fd fds \<Rightarrow>
          guarded (enqueuing s \<and> cpcs (spool s) ! 0 = CIdle) (s\<lparr>enqueuing := False, run_pc := LAfter cb fds\<rparr>)
      | _ \<Rightarrow> None)"
| "sched_exec K (APool a) s = (if pool_internal a (spool s) then pool_step a s else None)"
| "sched_exec K (ATask t out) s =
     (if t < length (wpcs (spool s)) then
        (case running (wpcs (spool s) ! t) of
           k # ks \<Rightarrow> (case task_effect k out s of None \<Rightarrow> None | Some s' \<Rightarrow> pool_step (PWorker t) s')
         | [] \<Rightarrow> None)
      else None)"

definition sched_init :: "'k kernel_ops \<Rightarrow> ('f, 'a, 'e, 'k) sched \<Rightarrow> bool" where
  "sched_init K s \<longleftrightarrow> (\<exists>mn mx users k. sched_new K mn mx users k = Inr s)"

section \<open>Example runs\<close>

text \<open>A scheduler with one user thread and one worker; the readiness reports are scripted.\<close>

definition sample_sched :: "int list list \<Rightarrow> nat \<Rightarrow> (nat, nat, nat, skernel) sched" where
  "sample_sched ready room =
     \<lparr>epollFd = 3, loop_stop = False, events_map = [],
      kern = \<lparr>sk_opens = [3, 0, 1, 2], sk_interest = [], sk_ready = ready, sk_room = room, sk_fds = 8\<rparr>,
      fired_flags = [], run_pc = LTest, spool = pool_new (bbq_new taskQueueSize) 1 2 2, promises = [], shareds = [],
      timers = [], intervals = [], timerCleaner = None, nextId = 1, initialized = False, loop_started = False,
      enqueuing = False, calls = []\<rparr>"

text \<open>From \<open>schedule\<close> to the result: the timer expires before the call has entered its section under the mutex, its
  callback enqueues the task, a worker runs it.\<close>

definition timer_run :: "(nat, nat, nat) sched_action list" where
  "timer_run = [AInit, ASchedule 100 7, AExecute 1 8, ALoop, ALoop, ALoop, ALoop, ABody, ACall 0, APool (PClient 0), APool (PClient 0), ABodyEnd,
     ALoop, ACall 0, APool (PWorker 0), APool (PWorker 0), ATask 0 (PValue 42)]"

text \<open>The clean-up after the timer has fired.\<close>

definition clean_run :: "(nat, nat, nat) sched_action list" where
  "clean_run = [AInit, ASchedule 100 7, ACall 0, ASchedule 900 8, ACall 1, ACall 0, ACall 1, ALoop, ALoop, ALoop, ALoop, ABody,
     APool (PClient 0), APool (PClient 0), ABodyEnd, ALoop]"

section \<open>Lemmas\<close>

lemma sched_more:
  fixes s s' :: "('f, 'a, 'e, 'k) sched"
  assumes "event_loop.more s' = event_loop.more s"
  shows "spool s' = spool s" "promises s' = promises s" "shareds s' = shareds s" "timers s' = timers s"
    "intervals s' = intervals s" "timerCleaner s' = timerCleaner s" "nextId s' = nextId s"
    "initialized s' = initialized s" "loop_started s' = loop_started s" "enqueuing s' = enqueuing s"
    "calls s' = calls s"
  using assms by (cases s; cases s'; simp)+

end
