(* ===== verification/SchedulerInvariant.thy ===== *)
theory SchedulerInvariant
  imports TaskScheduler
begin

text \<open>
  The invariant of the scheduler and its preservation by every step. It ties together the maps of the
  scheduler, the registry of the loop and the kernel's interest list (\<open>handles_inv\<close>), the identifiers
  (\<open>ids_inv\<close>, \<open>uniq_inv\<close>), entries, calls in progress, callbacks and the objects they belong to (\<open>links_inv\<close>,
  \<open>calls_inv\<close>), and the tasks in the pool with the futures (\<open>tasks_inv\<close>). Identifiers are 64-bit words;
  \<open>sched_exec_ids\<close> restricts the runs to those in which \<open>nextId\<close> has not wrapped.
\<close>

section \<open>Invariant\<close>

text \<open>Every identifier is used once as long as the counter does not wrap.\<close>

definition sched_exec_ids ::
  "'k kernel_ops \<Rightarrow> ('f, 'a, 'e) sched_action \<Rightarrow> ('f, 'a, 'e, 'k) sched \<Rightarrow> ('f, 'a, 'e, 'k) sched option" where
  "sched_exec_ids K a s = (if nextId s = -1 then None else sched_exec K a s)"

definition cleaner_handles :: "('f, 'a, 'e, 'k) sched \<Rightarrow> handle list" where
  "cleaner_handles s = (case timerCleaner s of None \<Rightarrow> [] | Some x \<Rightarrow> [Some x])"

text \<open>What a call in progress holds: a handle, the object whose identifier it will store, and that identifier.\<close>

fun call_handles :: "call_pc \<Rightarrow> handle list" where
  "call_handles (InsertTimer p h) = [h]"
| "call_handles (InsertInterval v h) = [h]"
| "call_handles _ = []"

fun call_promises :: "call_pc \<Rightarrow> nat list" where
  "call_promises (InsertTimer p h) = [p]"
| "call_promises (StoreTimerId p i) = [p]"
| "call_promises _ = []"

fun call_shareds :: "call_pc \<Rightarrow> nat list" where
  "call_shareds (InsertInterval v h) = [v]"
| "call_shareds (StoreSharedId v i) = [v]"
| "call_shareds _ = []"

fun call_pids :: "call_pc \<Rightarrow> (nat \<times> u64) list" where
  "call_pids (StoreTimerId p i) = [(p, i)]"
| "call_pids _ = []"

fun call_vids :: "call_pc \<Rightarrow> (nat \<times> u64) list" where
  "call_vids (StoreSharedId v i) = [(v, i)]"
| "call_vids _ = []"

definition gather :: "(call_pc \<Rightarrow> 'b list) \<Rightarrow> ('f, 'a, 'e, 'k) sched \<Rightarrow> 'b list" where
  "gather g s = concat (map g (calls s))"

definition sched_handles :: "('f, 'a, 'e, 'k) sched \<Rightarrow> handle list" where
  "sched_handles s = cleaner_handles s @ entry_handles (timers s) @ entry_handles (intervals s) @ gather call_handles s"

text \<open>The identifier of a future or shared value: stored, or about to be stored by the call that got it.\<close>

definition promise_has_id :: "('f, 'a, 'e, 'k) sched \<Rightarrow> nat \<Rightarrow> u64 \<Rightarrow> bool" where
  "promise_has_id s p i \<longleftrightarrow> p < length (promises s) \<and>
     (future_getId (promises s ! p) = Some i \<or> (p, i) \<in> set (gather call_pids s))"

definition shared_has_id :: "('f, 'a, 'e, 'k) sched \<Rightarrow> nat \<Rightarrow> u64 \<Rightarrow> bool" where
  "shared_has_id s v i \<longleftrightarrow> v < length (shareds s) \<and>
     (sv_getId (shareds s ! v) = Some i \<or> (v, i) \<in> set (gather call_vids s))"

text \<open>A future of \<open>schedule\<close>, as opposed to one of \<open>execute\<close>.\<close>

definition timed :: "('f, 'a, 'e, 'k) sched \<Rightarrow> nat \<Rightarrow> bool" where
  "timed s p \<longleftrightarrow> idSetted (promises s ! p) \<or> p \<in> set (gather call_promises s)"

text \<open>The registered descriptors are exactly those of the handles the scheduler and the calls in progress hold.\<close>

definition handles_inv :: "('f, 'a, 'e, 'k) sched \<Rightarrow> bool" where
  "handles_inv s \<longleftrightarrow> (\<forall>h \<in> set (sched_handles s). owns h) \<and>
     mset (map handle_fd (sched_handles s)) = mset (map fst (events_map s)) \<and>
     epollFd s \<notin> fst ` set (events_map s) \<and> (\<not> initialized s \<longrightarrow> timerCleaner s = None)"

definition sched_ids :: "('f, 'a, 'e, 'k) sched \<Rightarrow> u64 list" where
  "sched_ids s = map fst (timers s) @ map fst (intervals s)"

definition ids_inv :: "('f, 'a, 'e, 'k) sched \<Rightarrow> bool" where
  "ids_inv s \<longleftrightarrow> distinct (sched_ids s) \<and> (\<forall>i \<in> set (sched_ids s). 0 < i \<and> i < nextId s) \<and> 0 < nextId s"

text \<open>The callback registered for a handle enqueues the task of this future, of this shared value.\<close>

definition timer_cb :: "('f, 'a, 'e, 'k) sched \<Rightarrow> handle \<Rightarrow> nat \<Rightarrow> bool" where
  "timer_cb s h p \<longleftrightarrow> (\<exists>f r ev. map_option h_fired h = Some (Some r) \<and> r < length (fired_flags s) \<and>
     map_of (events_map s) (handle_fd h) = Some ev \<and> ev_callback ev = OnTimer r (Some (EnqueueTask (SetPromise p f))))"

definition interval_cb :: "('f, 'a, 'e, 'k) sched \<Rightarrow> handle \<Rightarrow> nat \<Rightarrow> bool" where
  "interval_cb s h v \<longleftrightarrow> (\<exists>f ev. map_of (events_map s) (handle_fd h) = Some ev \<and>
     ev_callback ev = OnInterval (Some (EnqueueTask (SetShared v f))))"

text \<open>An entry, the object it closes and the callback of its descriptor belong together.\<close>

definition timer_link :: "('f, 'a, 'e, 'k) sched \<Rightarrow> u64 \<times> sched_entry \<Rightarrow> bool" where
  "timer_link s e = (case e of (i, h, oc) \<Rightarrow> (\<exists>p. oc = ClosePromise p \<and> promise_has_id s p i \<and> timer_cb s h p))"

definition interval_link :: "('f, 'a, 'e, 'k) sched \<Rightarrow> u64 \<times> sched_entry \<Rightarrow> bool" where
  "interval_link s e = (case e of (i, h, oc) \<Rightarrow> (\<exists>v. oc = CloseShared v \<and> shared_has_id s v i \<and> interval_cb s h v))"

text \<open>A call in progress and its object belong together.\<close>

fun call_link :: "('f, 'a, 'e, 'k) sched \<Rightarrow> call_pc \<Rightarrow> bool" where
  "call_link s (InsertTimer p h) = timer_cb s h p"
| "call_link s (InsertInterval v h) = interval_cb s h v"
| "call_link s (CallOnCancel oc) = (case oc of ClosePromise p \<Rightarrow> p < length (promises s) \<and> timed s p | CloseShared v \<Rightarrow> v < length (shareds s))"
| "call_link s _ = True"

definition links_inv :: "('f, 'a, 'e, 'k) sched \<Rightarrow> bool" where
  "links_inv s \<longleftrightarrow> (\<forall>e \<in> set (timers s). timer_link s e) \<and> (\<forall>e \<in> set (intervals s). interval_link s e) \<and>
     (\<forall>c \<in> set (calls s). call_link s c)"

text \<open>Every object is in at most one call, and has no identifier before that call stores it.\<close>

definition calls_inv :: "('f, 'a, 'e, 'k) sched \<Rightarrow> bool" where
  "calls_inv s \<longleftrightarrow> distinct (gather call_promises s) \<and> distinct (gather call_shareds s) \<and>
     (\<forall>p \<in> set (gather call_promises s). p < length (promises s) \<and> \<not> idSetted (promises s ! p)) \<and>
     (\<forall>v \<in> set (gather call_shareds s). v < length (shareds s) \<and> sv_getId (shareds s ! v) = None)"

text \<open>The tasks in the pool, wherever they are, and those of one promise.\<close>

fun entering :: "'t pclient_pc \<Rightarrow> 't list" where
  "entering CIdle = []"
| "entering (CAdjust k) = [k]"
| "entering (CPush k) = [k]"

definition pool_tasks :: "('t, 't bbq) pool \<Rightarrow> 't multiset" where
  "pool_tasks q = mset (concat (map entering (cpcs q))) + mset (m_deque (taskQueue q)) + mset (in_progress q) + mset (completed q)"

fun task_promise :: "'f stask \<Rightarrow> nat option" where
  "task_promise (SetPromise p f) = Some p"
| "task_promise (SetShared v f) = None"

definition places :: "nat \<Rightarrow> 'f stask multiset \<Rightarrow> nat" where
  "places p ts = size (filter_mset (\<lambda>k. task_promise k = Some p) ts)"

fun task_ok :: "'f stask \<Rightarrow> ('f, 'a, 'e, 'k) sched \<Rightarrow> bool" where
  "task_ok (SetPromise p f) s = (p < length (promises s))"
| "task_ok (SetShared v f) s = (v < length (shareds s))"

text \<open>A task that a callback will enqueue belongs to a future of \<open>schedule\<close>.\<close>

definition cb_task_ok :: "('f, 'a, 'e, 'k) sched \<Rightarrow> 'f sched_cb callback \<Rightarrow> bool" where
  "cb_task_ok s cb =
     (case cb_fun cb of
        Some (EnqueueTask k) \<Rightarrow> task_ok k s \<and> (case k of SetPromise p f \<Rightarrow> timed s p | _ \<Rightarrow> True)
      | _ \<Rightarrow> True)"

fun pc_callbacks :: "'u loop_pc \<Rightarrow> 'u callback set" where
  "pc_callbacks (LCall cb fd fds) = {cb}"
| "pc_callbacks (LBody cb fd fds) = {cb}"
| "pc_callbacks (LAfter cb fds) = {cb}"
| "pc_callbacks _ = {}"

definition loop_callbacks :: "('f, 'a, 'e, 'k) sched \<Rightarrow> 'f sched_cb callback set" where
  "loop_callbacks s = ev_callback ` snd ` set (events_map s) \<union> pc_callbacks (run_pc s)"

definition promise_inv :: "bool \<Rightarrow> ('f stask, 'f stask bbq) pool \<Rightarrow> nat \<Rightarrow> ('a, 'e) future_state \<Rightarrow> bool" where
  "promise_inv td q p x \<longleftrightarrow>
     (blocked x \<longleftrightarrow> (\<exists>k \<in> set (completed q). task_promise k = Some p)) \<and>
     (status x = Ready \<longrightarrow> blocked x) \<and> (blocked x \<longrightarrow> status x \<noteq> Pending) \<and>
     (\<not> td \<and> status x \<noteq> Closed \<longrightarrow> places p (pool_tasks q) = 1) \<and>
     (\<not> td \<and> status x = Closed \<longrightarrow> places p (pool_tasks q) = 0)"

definition tasks_inv :: "('f, 'a, 'e, 'k) sched \<Rightarrow> bool" where
  "tasks_inv s \<longleftrightarrow>
     (\<forall>k \<in># pool_tasks (spool s). task_ok k s) \<and> (\<forall>cb \<in> loop_callbacks s. cb_task_ok s cb) \<and>
     (\<forall>p < length (promises s). promise_inv (timed s p) (spool s) p (promises s ! p)) \<and>
     dpc (spool s) = DNone \<and> \<not> m_closed (taskQueue (spool s)) \<and> 0 < length (cpcs (spool s))"

definition sched_inv :: "('k \<Rightarrow> int set) \<Rightarrow> (int \<Rightarrow> 'k \<Rightarrow> int set) \<Rightarrow> ('f, 'a, 'e, 'k) sched \<Rightarrow> bool" where
  "sched_inv opens interest s \<longleftrightarrow> reg_inv opens interest s \<and> pc_inv (length (fired_flags s)) (run_pc s) \<and>
     handles_inv s \<and> ids_inv s \<and> links_inv s \<and> calls_inv s \<and> tasks_inv s"

text \<open>Futures and shared values are only added; a future of \<open>schedule\<close> stays one, and so does one of \<open>execute\<close>.\<close>

definition grows :: "('f, 'a, 'e, 'k) sched \<Rightarrow> ('f, 'a, 'e, 'k) sched \<Rightarrow> bool" where
  "grows s s' \<longleftrightarrow> length (promises s) \<le> length (promises s') \<and> length (shareds s) \<le> length (shareds s') \<and>
     (\<forall>p < length (promises s). timed s' p = timed s p)"

text \<open>What keeps an entry linked: identifiers of futures and shared values stay, the callback stays.\<close>

definition ids_kept :: "('f, 'a, 'e, 'k) sched \<Rightarrow> ('f, 'a, 'e, 'k) sched \<Rightarrow> bool" where
  "ids_kept s s' \<longleftrightarrow> grows s s' \<and> length (fired_flags s) \<le> length (fired_flags s') \<and>
     (\<forall>p i. promise_has_id s p i \<longrightarrow> promise_has_id s' p i) \<and> (\<forall>v i. shared_has_id s v i \<longrightarrow> shared_has_id s' v i)"

text \<open>The same while the calls stay as they are.\<close>

definition ids_same :: "('f, 'a, 'e, 'k) sched \<Rightarrow> ('f, 'a, 'e, 'k) sched \<Rightarrow> bool" where
  "ids_same s s' \<longleftrightarrow> calls s' = calls s \<and> length (promises s) \<le> length (promises s') \<and> length (shareds s) \<le> length (shareds s') \<and>
     length (fired_flags s) \<le> length (fired_flags s') \<and>
     (\<forall>p < length (promises s). future_getId (promises s' ! p) = future_getId (promises s ! p)) \<and>
     (\<forall>v < length (shareds s). sv_getId (shareds s' ! v) = sv_getId (shareds s ! v))"

text \<open>An entry leaves its map and its handle is released.\<close>

definition drop_timer :: "'k kernel_ops \<Rightarrow> u64 \<times> sched_entry \<Rightarrow> ('f, 'a, 'e, 'k) sched \<Rightarrow> ('f, 'a, 'e, 'k) sched" where
  "drop_timer K e s = snd (handle_release K (fst (snd e)) (s\<lparr>timers := AList.delete (fst e) (timers s)\<rparr>))"

definition drop_interval :: "'k kernel_ops \<Rightarrow> u64 \<times> sched_entry \<Rightarrow> ('f, 'a, 'e, 'k) sched \<Rightarrow> ('f, 'a, 'e, 'k) sched" where
  "drop_interval K e s = snd (handle_release K (fst (snd e)) (s\<lparr>intervals := AList.delete (fst e) (intervals s)\<rparr>))"

text \<open>The identifiers given out so far: of futures and of shared values, stored or about to be stored.\<close>

definition given_ids :: "('f, 'a, 'e, 'k) sched \<Rightarrow> u64 list" where
  "given_ids s = List.map_filter future_getId (promises s) @ List.map_filter sv_getId (shareds s) @
     map snd (gather call_pids s) @ map snd (gather call_vids s)"

definition uniq_inv :: "('f, 'a, 'e, 'k) sched \<Rightarrow> bool" where
  "uniq_inv s \<longleftrightarrow> distinct (given_ids s) \<and> (\<forall>i \<in> set (given_ids s). 0 < i \<and> i < nextId s) \<and> 0 < nextId s"

section \<open>Lemmas\<close>

lemma idSetted_getId: "idSetted x \<longleftrightarrow> future_getId x \<noteq> None"
  by (simp add: future_getId_def)

lemma ids_same_grows: "ids_same s s' \<Longrightarrow> grows s s'"
  by (auto simp: ids_same_def grows_def timed_def gather_def idSetted_getId)

lemma ids_same_kept: "ids_same s s' \<Longrightarrow> ids_kept s s'"
  using ids_same_grows [of s s'] by (auto simp: ids_same_def ids_kept_def promise_has_id_def shared_has_id_def gather_def)

lemma ids_same_refl [simp]: "ids_same s s"
  by (simp add: ids_same_def)

text \<open>A promise at a time that no call and no future knows.\<close>

lemma timed_new: "calls_inv s \<Longrightarrow> p = length (promises s) \<Longrightarrow> p \<notin> set (gather call_promises s)"
  by (auto simp: calls_inv_def)

subsection \<open>The pool\<close>

lemma pool_call:
  assumes "pool_exec bbq_ops (PCall c k) q = Some q'"
  shows "pool_tasks q' = pool_tasks q + {#k#}" "completed q' = completed q" "dpc q' = dpc q" "taskQueue q' = taskQueue q"
    "length (cpcs q') = length (cpcs q)"
proof -
  have c: "c < length (cpcs q)" "cpcs q ! c = CIdle" "q' = cgoto c (CAdjust k) q" using assms by auto
  show "pool_tasks q' = pool_tasks q + {#k#}"
    using c mset_concat_update [OF c(1), of entering "CAdjust k"] by (simp add: pool_tasks_def in_progress_def)
qed (use assms in auto)

lemma pool_internal_tasks:
  assumes e: "pool_exec bbq_ops a q = Some q'" and i: "pool_internal a q" and o: "\<not> m_closed (taskQueue q)"
  shows "pool_tasks q' = pool_tasks q \<and> completed q' = completed q \<and> dpc q' = dpc q \<and>
    m_closed (taskQueue q') = m_closed (taskQueue q) \<and> length (cpcs q') = length (cpcs q)"
proof (cases a)
  case (PClient c)
  with e have c: "c < length (cpcs q)" "pclient_step bbq_ops c (cpcs q ! c) q = Some q'" by (auto split: if_splits)
  show ?thesis
  proof (cases "cpcs q ! c")
    case (CAdjust k)
    have "cpcs (adjustSize bbq_ops q) = cpcs q" "in_progress (adjustSize bbq_ops q) = in_progress q"
      "completed (adjustSize bbq_ops q) = completed q" "taskQueue (adjustSize bbq_ops q) = taskQueue q"
      "dpc (adjustSize bbq_ops q) = dpc q"
      by (auto simp: adjustSize_def Let_def in_progress_def)
    with CAdjust c mset_concat_update [OF c(1), of entering "CPush k"] show ?thesis
      by (auto simp: pool_tasks_def in_progress_def)
  next
    case (CPush k)
    with c o mset_concat_update [OF c(1), of entering CIdle] show ?thesis
      by (auto simp: pool_tasks_def in_progress_def bbq_ops_def bbq_push_def bbq_emplace_def split: if_splits)
  qed (use c in simp)
next
  case (PWorker t)
  with e i have t: "t < length (wpcs q)" "pworker_step bbq_ops t (wpcs q ! t) q = Some q'" "running (wpcs q ! t) = []"
    by (auto split: if_splits)
  show ?thesis
  proof (cases "wpcs q ! t")
    case WTimeoutPop
    with t mset_concat_update [OF t(1), of running "wpcs q' ! t"] show ?thesis
      by (auto simp: pool_tasks_def in_progress_def bbq_ops_def bbq_timeoutPop_def split: if_splits list.splits)
  qed (use t mset_concat_update [OF t(1), of running "wpcs q' ! t"]
      in \<open>auto simp: pool_tasks_def in_progress_def split: if_splits option.splits\<close>)
next
  case (PTimeout t)
  then have t: "t < length (wpcs q)" "wpcs q ! t = WTryLock" "q' = wgoto t WStopCheck q" using e by auto
  with mset_concat_update [OF t(1), of running WStopCheck] show ?thesis by (simp add: pool_tasks_def in_progress_def)
qed (use i in auto)

lemma pool_task_done:
  assumes t: "t < length (wpcs q)" "running (wpcs q ! t) = k # ks" and e: "pool_exec bbq_ops (PWorker t) q = Some q'"
  shows "pool_tasks q' = pool_tasks q" "completed q' = completed q @ [k]" "dpc q' = dpc q" "taskQueue q' = taskQueue q"
    "length (cpcs q') = length (cpcs q)" "k \<in># pool_tasks q"
proof -
  have w: "wpcs q ! t = WRun k" using t(2) by (cases "wpcs q ! t") auto
  then have q': "q' = wgoto t WStopCheck (q\<lparr>completed := completed q @ [k]\<rparr>)" using e t(1) by simp
  have "mset (in_progress q') + {#k#} = mset (in_progress q)"
    using mset_concat_update [OF t(1), of running WStopCheck] w q' by (simp add: in_progress_def)
  then show "pool_tasks q' = pool_tasks q" using q' by (simp add: pool_tasks_def)
  have "k \<in> set (in_progress q)" using t(1) w by (force simp: in_progress_def in_set_conv_nth)
  then show "k \<in># pool_tasks q" by (simp add: pool_tasks_def)
  show "completed q' = completed q @ [k]" "dpc q' = dpc q" "taskQueue q' = taskQueue q" "length (cpcs q') = length (cpcs q)"
    using q' by simp_all
qed

subsection \<open>Futures and their tasks\<close>

lemma task_ok_mono: "grows s s' \<Longrightarrow> task_ok k s \<Longrightarrow> task_ok k s'"
  by (cases k) (auto simp: grows_def)

lemma cb_task_ok_mono: "grows s s' \<Longrightarrow> cb_task_ok s cb \<Longrightarrow> cb_task_ok s' cb"
  by (auto simp: cb_task_ok_def grows_def split: option.splits sched_cb.splits stask.splits)

lemma tasks_invD:
  assumes "tasks_inv s"
  shows "k \<in># pool_tasks (spool s) \<Longrightarrow> task_ok k s" "cb \<in> loop_callbacks s \<Longrightarrow> cb_task_ok s cb"
    "p < length (promises s) \<Longrightarrow> promise_inv (timed s p) (spool s) p (promises s ! p)"
    "dpc (spool s) = DNone" "\<not> m_closed (taskQueue (spool s))" "0 < length (cpcs (spool s))"
  using assms by (auto simp: tasks_inv_def)

text \<open>Preservation, with what may change: the pool, the callbacks of the loop, the futures.\<close>

lemma tasks_invI:
  assumes inv: "tasks_inv s" and g: "grows s s'"
    and pool: "dpc (spool s') = DNone" "\<not> m_closed (taskQueue (spool s'))" "0 < length (cpcs (spool s'))"
    and tasks: "\<And>k. k \<in># pool_tasks (spool s') \<Longrightarrow> k \<in># pool_tasks (spool s) \<or> task_ok k s'"
    and cbs: "\<And>cb. cb \<in> loop_callbacks s' \<Longrightarrow> cb \<in> loop_callbacks s \<or> cb_task_ok s' cb"
    and proms: "\<And>p. p < length (promises s') \<Longrightarrow> promise_inv (timed s' p) (spool s') p (promises s' ! p)"
  shows "tasks_inv s'"
proof -
  have "task_ok k s'" if "k \<in># pool_tasks (spool s')" for k
    using tasks [OF that] tasks_invD(1) [OF inv] task_ok_mono [OF g] by blast
  moreover have "cb_task_ok s' cb" if "cb \<in> loop_callbacks s'" for cb
    using cbs [OF that] tasks_invD(2) [OF inv] cb_task_ok_mono [OF g] by blast
  ultimately show ?thesis using pool proms by (simp add: tasks_inv_def)
qed

lemma promise_inv_pool:
  assumes "promise_inv td q p x" "completed q' = completed q" "places p (pool_tasks q') = places p (pool_tasks q)"
  shows "promise_inv td q' p x"
proof -
  have "promise_inv td q' p x = promise_inv td q p x" using assms(2,3) by (simp add: promise_inv_def)
  with assms(1) show ?thesis by simp
qed

lemma places_add [simp]: "places p (ts + us) = places p ts + places p us" "places p {#} = 0"
  "places p {#k#} = (if task_promise k = Some p then 1 else 0)"
  "places p (add_mset k ts) = (if task_promise k = Some p then Suc (places p ts) else places p ts)"
  by (simp_all add: places_def)

lemma places_pos: "k \<in># ts \<Longrightarrow> task_promise k = Some p \<Longrightarrow> 0 < places p ts"
  by (auto dest!: multi_member_split)

lemma places_out: "tasks_inv s \<Longrightarrow> length (promises s) \<le> p \<Longrightarrow> places p (pool_tasks (spool s)) = 0"
proof -
  assume inv: "tasks_inv s" and p: "length (promises s) \<le> p"
  have "task_promise k \<noteq> Some p" if "k \<in># pool_tasks (spool s)" for k
    using tasks_invD(1) [OF inv that] p by (cases k) auto
  then have "filter_mset (\<lambda>k. task_promise k = Some p) (pool_tasks (spool s)) = {#}" by auto
  then show ?thesis by (simp add: places_def)
qed

lemma completed_tasks: "k \<in> set (completed q) \<Longrightarrow> k \<in># pool_tasks q"
  by (simp add: pool_tasks_def)

lemma loop_callbacks_pc: "run_pc s' = run_pc s \<Longrightarrow> events_map s' = events_map s \<Longrightarrow> loop_callbacks s' = loop_callbacks s"
  by (simp add: loop_callbacks_def)

lemma tasks_inv_pool:
  assumes inv: "tasks_inv s" and e: "pool_step a s = Some s'" and i: "pool_internal a (spool s)"
  shows "tasks_inv s'"
proof -
  obtain q where q: "pool_exec bbq_ops a (spool s) = Some q" "s' = s\<lparr>spool := q\<rparr>" using e by (auto simp: pool_step_def)
  note P = pool_internal_tasks [OF q(1) i tasks_invD(5) [OF inv]]
  have "promise_inv (timed s p) q p (promises s ! p)" if "p < length (promises s)" for p
    using tasks_invD(3) [OF inv that] P by (auto intro: promise_inv_pool)
  then show ?thesis using q(2) P tasks_invD(4-6) [OF inv]
    by (intro tasks_invI [OF inv]) (auto simp: grows_def timed_def gather_def loop_callbacks_def)
qed

lemma tasks_inv_same:
  fixes s s' :: "('f, 'a, 'e, 'k) sched"
  assumes inv: "tasks_inv s" and m: "spool s' = spool s" "promises s' = promises s" "shareds s' = shareds s" "calls s' = calls s"
    and c: "loop_callbacks s' \<subseteq> loop_callbacks s"
  shows "tasks_inv s'"
  using tasks_invD(3-6) [OF inv] c by (intro tasks_invI [OF inv]) (auto simp: grows_def timed_def gather_def m)

text \<open>One more task: of the new future of \<open>execute\<close>, or of a future that has an identifier.\<close>

lemma tasks_inv_execute:
  assumes inv: "tasks_inv s" and ci: "calls_inv s" and e: "execute c f s = Some (p, s')"
  shows "tasks_inv s'"
proof -
  let ?p = "length (promises s)"
  obtain q where q: "pool_exec bbq_ops (PCall c (SetPromise ?p f)) (spool s) = Some q"
    "s' = s\<lparr>promises := promises s @ [future_state_new], spool := q\<rparr>"
    using e by (auto simp: execute_def enqueue_def Let_def)
  note P = pool_call [OF q(1)]
  have td: "timed s' x = (x < ?p \<and> timed s x)" if x: "x < length (promises s')" for x
    using x q(2) timed_new [OF ci] by (cases "x = ?p") (auto simp: timed_def gather_def nth_append future_state_new_def)
  have "promise_inv (timed s' x) q x (promises s' ! x)" if x: "x < length (promises s')" for x
  proof (cases "x = ?p")
    case True
    have "\<forall>k \<in> set (completed (spool s)). task_promise k \<noteq> Some ?p"
      using tasks_invD(1) [OF inv] completed_tasks by (fastforce elim: task_promise.elims)
    with True q(2) P places_out [OF inv, of ?p] td [OF x] show ?thesis
      by (auto simp: promise_inv_def future_state_new_def nth_append)
  next
    case False
    with x q(2) have "x < ?p" by simp
    with tasks_invD(3) [OF inv this] q(2) P td [OF x] show ?thesis
      by (auto simp: nth_append intro: promise_inv_pool)
  qed
  moreover have "grows s s'" using q(2) td by (auto simp: grows_def)
  ultimately show ?thesis using q(2) P tasks_invD(4-6) [OF inv]
    by (intro tasks_invI [OF inv]) (auto simp: loop_callbacks_def)
qed

lemma tasks_inv_enqueue:
  assumes inv: "tasks_inv s" and e: "enqueue 0 k s = Some s'" and cb: "cb \<in> loop_callbacks s" "cb_fun cb = Some (EnqueueTask k)"
  shows "tasks_inv (s'\<lparr>enqueuing := b\<rparr>)"
proof -
  obtain q where q: "pool_exec bbq_ops (PCall 0 k) (spool s) = Some q" "s' = s\<lparr>spool := q\<rparr>"
    using e by (auto simp: enqueue_def)
  note P = pool_call [OF q(1)]
  have k: "task_ok k s" "case k of SetPromise p f \<Rightarrow> timed s p | _ \<Rightarrow> True"
    using tasks_invD(2) [OF inv cb(1)] cb(2) by (auto simp: cb_task_ok_def)
  have "promise_inv (timed s x) q x (promises s ! x)" if x: "x < length (promises s)" for x
    using tasks_invD(3) [OF inv x] P k by (cases k) (auto simp: promise_inv_def)
  moreover have "task_ok k (s\<lparr>spool := q, enqueuing := b\<rparr>)" using k(1) by (cases k) auto
  ultimately show ?thesis using q(2) P tasks_invD(4-6) [OF inv]
    by (intro tasks_invI [OF inv]) (auto simp: grows_def timed_def gather_def loop_callbacks_def)
qed

lemma promise_set_sel [simp]:
  "idSetted (promise_set out x) = idSetted x" "fid (promise_set out x) = fid x" "blocked (promise_set out x)"
  "status (promise_set out x) = (if blocked x then status x else Ready)"
  by (auto simp: promise_set_def claim_def)

lemma promise_close_sel [simp]:
  "idSetted (promise_close x) = idSetted x" "fid (promise_close x) = fid x" "blocked (promise_close x) = blocked x"
  "status (promise_close x) = Closed" "result (promise_close x) = result x"
  by (simp_all add: promise_close_def)

lemma promise_setId_sel [simp]:
  "idSetted (promise_setId i x)" "fid (promise_setId i x) = i" "blocked (promise_setId i x) = blocked x"
  "status (promise_setId i x) = status x" "result (promise_setId i x) = result x"
  by (simp_all add: promise_setId_def claim_def)

lemma promise_inv_task:
  assumes "promise_inv td q p x" "completed q' = completed q @ [SetPromise p f]" "pool_tasks q' = pool_tasks q"
    and "SetPromise p f \<in># pool_tasks q"
  shows "promise_inv td q' p (promise_set out x)"
proof -
  have "0 < places p (pool_tasks q)" using assms(4) by (rule places_pos) simp
  then have "td \<or> status x \<noteq> Closed" using assms(1) by (auto simp: promise_inv_def)
  with assms show ?thesis by (auto simp: promise_inv_def)
qed

lemma nth_update_keeps: "p < length xs \<Longrightarrow> P (f (xs ! i)) = P (xs ! i) \<Longrightarrow> P (xs[i := f (xs ! i)] ! p) = P (xs ! p)"
  by (cases "i = p") simp_all

lemma tasks_inv_task:
  assumes inv: "tasks_inv s" and e: "sched_exec K (ATask t out) s = Some s'"
  shows "tasks_inv s'"
proof -
  obtain k ks u q where t: "t < length (wpcs (spool s))" "running (wpcs (spool s) ! t) = k # ks" "task_effect k out s = Some u"
    "pool_exec bbq_ops (PWorker t) (spool u) = Some q" "s' = u\<lparr>spool := q\<rparr>"
    using e by (auto simp: pool_step_def split: if_splits list.splits option.splits)
  have u: "spool u = spool s" "run_pc u = run_pc s" "events_map u = events_map s" "calls u = calls s"
    "length (promises u) = length (promises s)" "length (shareds u) = length (shareds s)"
    using t(3) by (auto simp: task_effect_def split: stask.splits payload.splits)
  have td: "timed u x = timed s x" if "x < length (promises s)" for x
    using t(3) that by (auto simp: task_effect_def timed_def gather_def nth_update_keeps [where P = idSetted] split: stask.splits payload.splits)
  note P = pool_task_done [OF t(1,2) t(4) [unfolded u(1)]]
  have kok: "task_ok k s" by (rule tasks_invD(1) [OF inv P(6)])
  have "promise_inv (timed s x) q x (promises u ! x)" if x: "x < length (promises s)" for x
  proof -
    note I = tasks_invD(3) [OF inv x]
    show ?thesis
    proof (cases "task_promise k = Some x")
      case True
      then obtain f where k: "k = SetPromise x f" by (cases k) auto
      with t(3) have "promises u ! x = promise_set out (promises s ! x)" using x by (auto simp: task_effect_def)
      with promise_inv_task [OF I, of q f] P k show ?thesis by simp
    next
      case False
      with t(3) have "promises u ! x = promises s ! x"
        by (auto simp: task_effect_def split: stask.splits payload.splits)
      with I False P show ?thesis by (auto simp: promise_inv_def)
    qed
  qed
  moreover have "timed s' x = timed u x" for x using t(5) by (simp add: timed_def gather_def)
  ultimately show ?thesis using t(5) u td P tasks_invD(4-6) [OF inv]
    by (intro tasks_invI [OF inv]) (auto simp: grows_def loop_callbacks_def)
qed

text \<open>Only one object is closed.\<close>

lemma tasks_inv_on_cancel:
  assumes inv: "tasks_inv s" and p: "case oc of ClosePromise p \<Rightarrow> p < length (promises s) \<longrightarrow> timed s p | _ \<Rightarrow> True"
  shows "tasks_inv (run_on_cancel oc s)"
proof (cases oc)
  case (ClosePromise p)
  have "promise_inv (timed s x) (spool s) x ((promises s)[p := promise_close (promises s ! p)] ! x)" if x: "x < length (promises s)" for x
  proof (cases "x = p")
    case True
    have "timed s p" using assms(2) x True ClosePromise by simp
    with tasks_invD(3) [OF inv x] True x show ?thesis by (simp add: promise_inv_def)
  qed (use tasks_invD(3) [OF inv x] in simp)
  moreover have "timed (run_on_cancel oc s) x = timed s x" if "x < length (promises s)" for x
    using ClosePromise that by (simp add: run_on_cancel_def timed_def gather_def nth_update_keeps [where P = idSetted])
  ultimately show ?thesis using ClosePromise tasks_invD(4-6) [OF inv]
    by (intro tasks_invI [OF inv]) (auto simp: run_on_cancel_def grows_def loop_callbacks_def)
next
  case (CloseShared v)
  with tasks_invD(3-6) [OF inv] show ?thesis
    by (intro tasks_invI [OF inv]) (auto simp: run_on_cancel_def grows_def timed_def gather_def loop_callbacks_def)
qed

text \<open>A new future without a task: of a call in progress, or closed.\<close>

lemma tasks_inv_new_promise:
  fixes s u :: "('f, 'a, 'e, 'k) sched"
  assumes inv: "tasks_inv s" and u: "spool u = spool s" "shareds u = shareds s" "promises u = promises s @ [x]"
    and td: "\<And>y. y < length (promises s) \<Longrightarrow> timed u y = timed s y"
    and x: "\<not> blocked x" "timed u (length (promises s)) \<and> status x \<noteq> Ready \<or> status x = Closed"
    and cbs: "\<And>cb. cb \<in> loop_callbacks u \<Longrightarrow> cb \<in> loop_callbacks s \<or>
      timed u (length (promises s)) \<and> (\<exists>f. cb_fun cb = Some (EnqueueTask (SetPromise (length (promises s)) f)))"
  shows "tasks_inv u"
proof -
  let ?p = "length (promises s)"
  have "\<forall>k \<in> set (completed (spool s)). task_promise k \<noteq> Some ?p"
    using tasks_invD(1) [OF inv] completed_tasks by (fastforce elim: task_promise.elims)
  then have "promise_inv (timed u ?p) (spool s) ?p x" using places_out [OF inv, of ?p] x by (auto simp: promise_inv_def)
  then have "promise_inv (timed u y) (spool u) y (promises u ! y)" if "y < length (promises u)" for y
    using that u td tasks_invD(3) [OF inv, of y] by (auto simp: nth_append less_Suc_eq)
  moreover have "cb_task_ok u cb" if "timed u ?p" "cb_fun cb = Some (EnqueueTask (SetPromise ?p f))" for cb f
    using that u by (simp add: cb_task_ok_def)
  then have "cb \<in> loop_callbacks s \<or> cb_task_ok u cb" if "cb \<in> loop_callbacks u" for cb
    using cbs [OF that] by blast
  ultimately show ?thesis using u td tasks_invD(4-6) [OF inv]
    by (intro tasks_invI [OF inv]) (auto simp: grows_def)
qed

lemma tasks_inv_new_shared:
  fixes s u :: "('f, 'a, 'e, 'k) sched"
  assumes inv: "tasks_inv s" and u: "spool u = spool s" "promises u = promises s" "shareds u = shareds s @ [x]"
    and td: "\<And>y. timed u y = timed s y"
    and cbs: "\<And>cb. cb \<in> loop_callbacks u \<Longrightarrow> cb \<in> loop_callbacks s \<or> (\<exists>f. cb_fun cb = Some (EnqueueTask (SetShared (length (shareds s)) f)))"
  shows "tasks_inv u"
proof -
  have "cb_task_ok u cb" if "cb_fun cb = Some (EnqueueTask (SetShared (length (shareds s)) f))" for cb f
    using that u by (simp add: cb_task_ok_def)
  then have "cb \<in> loop_callbacks s \<or> cb_task_ok u cb" if "cb \<in> loop_callbacks u" for cb
    using cbs [OF that] by blast
  then show ?thesis using u td tasks_invD(3-6) [OF inv]
    by (intro tasks_invI [OF inv]) (auto simp: grows_def)
qed

text \<open>A call moves on: neither the pool nor the callbacks change, and every future keeps its kind and outcome.\<close>

lemma tasks_inv_calls:
  fixes s u :: "('f, 'a, 'e, 'k) sched"
  assumes inv: "tasks_inv s" and u: "spool u = spool s" "length (shareds u) = length (shareds s)" "length (promises u) = length (promises s)"
    and td: "\<And>p. p < length (promises s) \<Longrightarrow> timed u p = timed s p \<and> blocked (promises u ! p) = blocked (promises s ! p) \<and>
      status (promises u ! p) = status (promises s ! p)"
    and cbs: "loop_callbacks u \<subseteq> loop_callbacks s"
  shows "tasks_inv u"
proof -
  have "promise_inv (timed u p) (spool u) p (promises u ! p)" if "p < length (promises s)" for p
    using tasks_invD(3) [OF inv that] td [OF that] u(1) unfolding promise_inv_def by metis
  with u td cbs tasks_invD(4-6) [OF inv] show ?thesis by (intro tasks_invI [OF inv]) (auto simp: grows_def)
qed

subsection \<open>Entries\<close>

lemma timer_cb_mono:
  assumes "timer_cb s h p" "length (fired_flags s) \<le> length (fired_flags u)"
    "map_of (events_map u) (handle_fd h) = map_of (events_map s) (handle_fd h)"
  shows "timer_cb u h p"
  using assms unfolding timer_cb_def by fastforce

lemma interval_cb_mono:
  assumes "interval_cb s h v" "map_of (events_map u) (handle_fd h) = map_of (events_map s) (handle_fd h)"
  shows "interval_cb u h v"
  using assms unfolding interval_cb_def by simp

lemma entry_in_handles:
  "e \<in> set (timers s) \<Longrightarrow> fst (snd e) \<in> set (sched_handles s)" "e \<in> set (intervals s) \<Longrightarrow> fst (snd e) \<in> set (sched_handles s)"
  "c \<in> set (calls s) \<Longrightarrow> h \<in> set (call_handles c) \<Longrightarrow> h \<in> set (sched_handles s)"
  by (auto simp: sched_handles_def entry_handles_def gather_def)

text \<open>Old entries and calls stay linked, new ones are.\<close>

lemma links_invI:
  fixes s u :: "('f, 'a, 'e, 'k) sched"
  assumes l: "links_inv s" and k: "ids_kept s u"
    and new: "set (timers u) \<subseteq> set (timers s) \<union> {e. timer_link u e}" "set (intervals u) \<subseteq> set (intervals s) \<union> {e. interval_link u e}"
      "set (calls u) \<subseteq> set (calls s) \<union> {c. call_link u c}"
    and fd: "\<And>h. h \<in> set (sched_handles s) \<Longrightarrow> h \<in> set (sched_handles u) \<Longrightarrow>
      map_of (events_map u) (handle_fd h) = map_of (events_map s) (handle_fd h)"
  shows "links_inv u"
proof -
  have f: "length (fired_flags s) \<le> length (fired_flags u)" and g: "grows s u" using k by (auto simp: ids_kept_def)
  have "timer_link u e" if e: "e \<in> set (timers u)" for e
  proof (cases "e \<in> set (timers s)")
    case True
    obtain i h oc where x: "e = (i, h, oc)" by (cases e)
    with True l obtain p where p: "oc = ClosePromise p" "promise_has_id s p i" "timer_cb s h p"
      by (auto simp: links_inv_def timer_link_def)
    have "timer_cb u h p" by (rule timer_cb_mono [OF p(3) f fd]) (use x e True entry_in_handles(1) in force)+
    with p x k show ?thesis by (simp add: timer_link_def ids_kept_def)
  qed (use e new in auto)
  moreover have "interval_link u e" if e: "e \<in> set (intervals u)" for e
  proof (cases "e \<in> set (intervals s)")
    case True
    obtain i h oc where x: "e = (i, h, oc)" by (cases e)
    with True l obtain v where v: "oc = CloseShared v" "shared_has_id s v i" "interval_cb s h v"
      by (auto simp: links_inv_def interval_link_def)
    have "interval_cb u h v" by (rule interval_cb_mono [OF v(3) fd]) (use x e True entry_in_handles(2) in force)+
    with v x k show ?thesis by (simp add: interval_link_def ids_kept_def)
  qed (use e new in auto)
  moreover have "call_link u c" if c: "c \<in> set (calls u)" for c
  proof (cases "c \<in> set (calls s)")
    case True
    then have cl: "call_link s c" using l by (simp add: links_inv_def)
    have m: "map_of (events_map u) (handle_fd h) = map_of (events_map s) (handle_fd h)" if "h \<in> set (call_handles c)" for h
      using that c True entry_in_handles(3) fd by blast
    show ?thesis
    proof (cases c)
      case (InsertTimer p h)
      with cl f m show ?thesis by (auto intro: timer_cb_mono)
    next
      case (InsertInterval v h)
      with cl m show ?thesis by (auto intro: interval_cb_mono)
    next
      case (CallOnCancel oc)
      with cl g show ?thesis by (auto simp: grows_def split: on_cancel.splits)
    qed simp_all
  qed (use c new in auto)
  ultimately show ?thesis by (simp add: links_inv_def)
qed

lemma calls_inv_same:
  fixes s u :: "('f, 'a, 'e, 'k) sched"
  assumes c: "calls_inv s" and k: "ids_same s u"
  shows "calls_inv u"
proof -
  have g: "gather g u = gather g s" for g :: "call_pc \<Rightarrow> nat list" using k by (simp add: ids_same_def gather_def)
  have "p < length (promises u) \<and> \<not> idSetted (promises u ! p)" if "p \<in> set (gather call_promises s)" for p
    using c k that by (auto simp: calls_inv_def ids_same_def idSetted_getId intro: less_le_trans)
  moreover have "v < length (shareds u) \<and> sv_getId (shareds u ! v) = None" if "v \<in> set (gather call_shareds s)" for v
    using c k that by (auto simp: calls_inv_def ids_same_def intro: less_le_trans)
  ultimately show ?thesis using c by (simp add: calls_inv_def g)
qed

text \<open>The registry stays; the handles move at most between the map and the calls.\<close>

lemma sched_inv_move:
  fixes s u :: "('f, 'a, 'e, 'k) sched"
  assumes inv: "sched_inv opens interest s" and reg: "reg_inv opens interest u" and pc: "pc_inv (length (fired_flags u)) (run_pc u)"
    and same: "events_map u = events_map s" "epollFd u = epollFd s" "timerCleaner u = timerCleaner s" "initialized u = initialized s"
    and hs: "mset (sched_handles u) = mset (sched_handles s)"
    and ids: "ids_inv u" and ci: "calls_inv u" and k: "ids_kept s u" and t: "tasks_inv u"
    and new: "set (timers u) \<subseteq> set (timers s) \<union> {e. timer_link u e}" "set (intervals u) \<subseteq> set (intervals s) \<union> {e. interval_link u e}"
      "set (calls u) \<subseteq> set (calls s) \<union> {c. call_link u c}"
  shows "sched_inv opens interest u"
proof -
  have h: "handles_inv s" and l: "links_inv s" using inv by (auto simp: sched_inv_def)
  have "links_inv u" by (rule links_invI [OF l k new]) (simp add: same)
  moreover have "mset (map handle_fd (sched_handles u)) = mset (map handle_fd (sched_handles s))" using hs by simp
  moreover have "set (sched_handles u) = set (sched_handles s)" using hs by (rule mset_eq_setD)
  ultimately show ?thesis using reg pc same h ids ci t by (simp add: sched_inv_def handles_inv_def)
qed

lemma sched_inv_quiet:
  fixes s s' :: "('f, 'a, 'e, 'k) sched"
  assumes inv: "sched_inv opens interest s" and reg: "reg_inv opens interest s'" and pc: "pc_inv (length (fired_flags s')) (run_pc s')"
    and same: "events_map s' = events_map s" "epollFd s' = epollFd s" "timers s' = timers s" "intervals s' = intervals s"
      "timerCleaner s' = timerCleaner s" "nextId s' = nextId s" "initialized s' = initialized s"
    and k: "ids_same s s'" and t: "tasks_inv s'"
  shows "sched_inv opens interest s'"
proof -
  have c: "calls s' = calls s" using k by (simp add: ids_same_def)
  have "calls_inv s'" using calls_inv_same [OF _ k] inv by (simp add: sched_inv_def)
  moreover have "ids_inv s'" using inv same by (simp add: sched_inv_def ids_inv_def sched_ids_def)
  moreover have "sched_handles s' = sched_handles s" using same c by (simp add: sched_handles_def cleaner_handles_def gather_def)
  ultimately show ?thesis using same c ids_same_kept [OF k] t reg pc by (intro sched_inv_move [OF inv]) auto
qed

text \<open>The descriptors of the handles are distinct.\<close>

lemma sched_fds_distinct:
  assumes "sched_inv opens interest s"
  shows "distinct (map handle_fd (sched_handles s))"
proof -
  have "mset (map handle_fd (sched_handles s)) = mset (map fst (events_map s))" "distinct (map fst (events_map s))"
    using assms by (auto simp: sched_inv_def handles_inv_def reg_inv_def)
  then show ?thesis using mset_eq_imp_distinct_iff by blast
qed

lemma sched_fds_keys:
  assumes "sched_inv opens interest s"
  shows "handle_fd ` set (sched_handles s) = fst ` set (events_map s)"
proof -
  have "mset (map handle_fd (sched_handles s)) = mset (map fst (events_map s))"
    using assms by (auto simp: sched_inv_def handles_inv_def)
  then have "set (map handle_fd (sched_handles s)) = set (map fst (events_map s))" using mset_eq_setD by blast
  then show ?thesis by simp
qed

text \<open>A new entry, and the removal of one.\<close>

lemma sched_inv_add:
  fixes s u :: "('f, 'a, 'e, 'k) sched"
  assumes inv: "sched_inv opens interest s" and reg: "reg_inv opens interest u"
    and c: "owns h" "events_map u = events_map s @ [(handle_fd h, ev)]" "handle_fd h \<notin> opens (kern s)" "epollFd u = epollFd s"
      "run_pc u = run_pc s"
    and hs: "mset (sched_handles u) = add_mset h (mset (sched_handles s))"
    and ids: "ids_inv u" and init: "\<not> initialized u \<longrightarrow> timerCleaner u = None"
    and ci: "calls_inv u" and k: "ids_kept s u" and t: "tasks_inv u"
    and new: "set (timers u) \<subseteq> set (timers s)" "set (intervals u) \<subseteq> set (intervals s)" "set (calls u) \<subseteq> set (calls s) \<union> {c. call_link u c}"
  shows "sched_inv opens interest u"
proof -
  have r: "reg_inv opens interest s" and h: "handles_inv s" and l: "links_inv s"
    and pc: "pc_inv (length (fired_flags s)) (run_pc s)" using inv by (auto simp: sched_inv_def)
  have nofd: "handle_fd h \<notin> fst ` set (events_map s)" "handle_fd h \<noteq> epollFd s"
    using r c(3) by (auto simp: reg_inv_def)
  have "links_inv u"
  proof (rule links_invI [OF l k])
    fix x assume "x \<in> set (sched_handles s)"
    then have "handle_fd x \<noteq> handle_fd h" using nofd(1) sched_fds_keys [OF inv] by (metis imageI)
    then show "map_of (events_map u) (handle_fd x) = map_of (events_map s) (handle_fd x)"
      using c(2) by (simp add: map_add_def split: option.split)
  qed (use new in auto)
  moreover have "\<forall>x \<in> set (sched_handles u). owns x"
  proof
    fix x assume "x \<in> set (sched_handles u)"
    then have "x \<in># add_mset h (mset (sched_handles s))" using hs by (metis set_mset_mset)
    then show "owns x" using h c(1) by (auto simp: handles_inv_def)
  qed
  moreover have "mset (map handle_fd (sched_handles u)) = mset (map fst (events_map u))"
    using h c(2) hs by (simp add: handles_inv_def)
  ultimately show ?thesis using reg c nofd h ids init t ci pc_inv_mono [OF pc] k
    by (simp add: sched_inv_def handles_inv_def ids_kept_def)
qed

lemma sched_inv_remove:
  fixes s u :: "('f, 'a, 'e, 'k) sched"
  assumes inv: "sched_inv opens interest s" and reg: "reg_inv opens interest u"
    and c: "events_map u = AList.delete (handle_fd h) (events_map s)" "epollFd u = epollFd s" "run_pc u = run_pc s"
      "fired_flags u = fired_flags s" "initialized u = initialized s" "timerCleaner u = timerCleaner s"
    and hs: "mset (sched_handles s) = add_mset h (mset (sched_handles u))"
    and sub: "set (timers u) \<subseteq> set (timers s)" "set (intervals u) \<subseteq> set (intervals s)"
    and ids: "ids_inv u" and k: "ids_same s u" and t: "tasks_inv u"
  shows "sched_inv opens interest u"
proof -
  have h: "handles_inv s" and l: "links_inv s" and pc: "pc_inv (length (fired_flags s)) (run_pc s)"
    and d: "distinct (map fst (events_map s))"
    using inv by (auto simp: sched_inv_def reg_inv_def)
  have m: "mset (map fst (events_map s)) = add_mset (handle_fd h) (mset (map handle_fd (sched_handles u)))"
    using h hs by (simp add: handles_inv_def)
  have "mset (map fst (events_map u)) = mset (removeAll (handle_fd h) (map fst (events_map s)))"
    using c(1) by (simp add: delete_keys)
  also have "\<dots> = mset (remove1 (handle_fd h) (map fst (events_map s)))" using d by (simp add: distinct_remove1_removeAll)
  also have "\<dots> = mset (map handle_fd (sched_handles u))" using m by simp
  finally have keys: "mset (map fst (events_map u)) = mset (map handle_fd (sched_handles u))" .
  have "handle_fd h \<notin> fst ` set (events_map u)" using c(1) by (simp add: delete_notin_dom)
  moreover have "set (map fst (events_map u)) = set (map handle_fd (sched_handles u))" using keys mset_eq_setD by blast
  ultimately have fd: "handle_fd h \<notin> handle_fd ` set (sched_handles u)" by auto
  have cs: "calls u = calls s" and "calls_inv u"
    using k calls_inv_same [OF _ k] inv by (auto simp: ids_same_def sched_inv_def)
  moreover have "links_inv u"
  proof (rule links_invI [OF l ids_same_kept [OF k]])
    fix x assume "x \<in> set (sched_handles u)"
    with fd have "handle_fd x \<noteq> handle_fd h" by (metis imageI)
    then show "map_of (events_map u) (handle_fd x) = map_of (events_map s) (handle_fd x)" using c(1) by simp
  qed (use sub cs in auto)
  moreover have "set (sched_handles u) \<subseteq> set (sched_handles s)"
    using hs by (metis set_mset_mset set_mset_add_mset_insert subset_insertI)
  moreover have "fst ` set (events_map u) \<subseteq> fst ` set (events_map s)" using c(1) by (simp add: dom_delete_subset)
  ultimately show ?thesis using h pc reg c keys ids t by (auto simp: sched_inv_def handles_inv_def)
qed

subsection \<open>Preservation by the operations\<close>

lemma delete_split:
  assumes "map_of xs i = Some v" "distinct (map fst xs)"
  shows "mset xs = add_mset (i, v) (mset (AList.delete i xs))"
  using assms
proof (induction xs)
  case (Cons x xs)
  show ?case
  proof (cases "fst x = i")
    case True
    with Cons.prems have "i \<notin> fst ` set xs" "x = (i, v)" by (auto split: if_splits)
    with True show ?thesis by simp
  qed (use Cons in \<open>auto split: if_splits\<close>)
qed simp

lemma entry_handles_delete:
  assumes "map_of xs i = Some (h, oc)" "distinct (map fst xs)"
  shows "mset (entry_handles xs) = add_mset h (mset (entry_handles (AList.delete i xs)))"
proof -
  have "image_mset (\<lambda>e. fst (snd e)) (mset xs) = image_mset (\<lambda>e. fst (snd e)) (add_mset (i, h, oc) (mset (AList.delete i xs)))"
    using delete_split [OF assms] by (rule arg_cong)
  then show ?thesis by (simp add: entry_handles_def)
qed

lemma run_on_cancel_sel [simp]:
  "timers (run_on_cancel oc s) = timers s" "intervals (run_on_cancel oc s) = intervals s" "spool (run_on_cancel oc s) = spool s"
  "events_map (run_on_cancel oc s) = events_map s" "epollFd (run_on_cancel oc s) = epollFd s" "run_pc (run_on_cancel oc s) = run_pc s"
  "fired_flags (run_on_cancel oc s) = fired_flags s" "initialized (run_on_cancel oc s) = initialized s"
  "timerCleaner (run_on_cancel oc s) = timerCleaner s" "nextId (run_on_cancel oc s) = nextId s" "kern (run_on_cancel oc s) = kern s"
  "loop_stop (run_on_cancel oc s) = loop_stop s" "calls (run_on_cancel oc s) = calls s"
  by (cases oc; simp add: run_on_cancel_def)+

lemma reg_inv_sched [simp]: "reg_inv opens interest (run_on_cancel oc s) = reg_inv opens interest s"
  by (simp add: reg_inv_def)

lemma getId_simps [simp]: "future_getId (promise_close x) = future_getId x" "future_getId (promise_set out x) = future_getId x"
  "future_getId (promise_setId i x) = Some i" "sv_getId (sv_close y) = sv_getId y" "sv_getId (sv_set a y) = sv_getId y"
  "sv_getId (sv_setException e y) = sv_getId y" "sv_getId (sv_setId i y) = Some i"
  by (simp_all add: future_getId_def sv_getId_def sv_close_def sv_set_def sv_setException_def sv_setId_def)

lemma ids_same_on_cancel: "promises u = promises s \<Longrightarrow> shareds u = shareds s \<Longrightarrow> fired_flags u = fired_flags s \<Longrightarrow> calls u = calls s \<Longrightarrow>
   ids_same s (run_on_cancel oc u)"
  by (cases oc) (auto simp: ids_same_def run_on_cancel_def nth_update_keeps [where P = future_getId] nth_update_keeps [where P = sv_getId])

lemma owns_in_handles: "sched_inv opens interest s \<Longrightarrow> h \<in> set (sched_handles s) \<Longrightarrow> owns h \<and> handle_fd h \<noteq> epollFd s"
  using sched_fds_keys [of opens interest s] unfolding sched_inv_def handles_inv_def by (metis imageI)

text \<open>What the release of a handle held by the scheduler does; the entry is out of its map already.\<close>

lemma sched_release:
  fixes s u :: "('f, 'a, 'e, 'k) sched"
  assumes L: "kernel_laws K opens interest" and inv: "sched_inv opens interest s" and h: "h \<in> set (sched_handles s)"
    and s0: "reg_inv opens interest s0" "events_map s0 = events_map s" "epollFd s0 = epollFd s" "kern s0 = kern s"
    and u: "u = snd (handle_release K h s0)"
  shows "reg_inv opens interest u" "events_map u = AList.delete (handle_fd h) (events_map s)" "epollFd u = epollFd s"
    "run_pc u = run_pc s0" "fired_flags u = fired_flags s0" "event_loop.more u = event_loop.more s0" "loop_stop u = loop_stop s0"
    "opens (kern u) = opens (kern s) - {handle_fd h}"
    "interest (epollFd s) (kern u) = interest (epollFd s) (kern s) - {handle_fd h}"
proof -
  have o: "owns h" "handle_fd h \<noteq> epollFd s" "handle_valid h" using owns_in_handles [OF inv h] owns_valid by auto
  obtain h' where r: "handle_release K h s0 = (h', u)" using u by (metis prod.collapse)
  note R = handle_release_effect [OF L r]
  show "reg_inv opens interest u" using reg_inv_release [OF L s0(1) r] o s0(3) by simp
  show "events_map u = AList.delete (handle_fd h) (events_map s)" using R(4) o s0(2) by simp
  show "epollFd u = epollFd s" "run_pc u = run_pc s0" "fired_flags u = fired_flags s0" "event_loop.more u = event_loop.more s0"
    "loop_stop u = loop_stop s0" using R s0 by simp_all
  show "opens (kern u) = opens (kern s) - {handle_fd h}" using R(6) o s0 by simp
  show "interest (epollFd s) (kern u) = interest (epollFd s) (kern s) - {handle_fd h}" using R(5) o s0 by simp
qed

lemma delete_callbacks:
  "events_map u = AList.delete fd (events_map s) \<Longrightarrow> run_pc u = run_pc s \<Longrightarrow> loop_callbacks u \<subseteq> loop_callbacks s"
  by (auto simp: loop_callbacks_def AList.delete_eq)

lemma ids_inv_delete:
  assumes "ids_inv s" "timers u = AList.delete i (timers s) \<and> intervals u = intervals s \<or> timers u = timers s \<and> intervals u = AList.delete i (intervals s)"
    "nextId u = nextId s"
  shows "ids_inv u"
proof -
  have d: "distinct (map fst (timers s))" "distinct (map fst (intervals s))"
    "set (map fst (timers s)) \<inter> set (map fst (intervals s)) = {}"
    and b: "\<And>i. i \<in> set (sched_ids s) \<Longrightarrow> 0 < i \<and> i < nextId s" "0 < nextId s"
    using assms(1) by (auto simp: ids_inv_def sched_ids_def)
  have sub: "set (map fst (timers u)) \<subseteq> set (map fst (timers s))" "set (map fst (intervals u)) \<subseteq> set (map fst (intervals s))"
    using assms(2) dom_delete_subset [of i "timers s"] dom_delete_subset [of i "intervals s"]
    by (elim disjE conjE; simp)+
  have "distinct (map fst (timers u)) \<and> distinct (map fst (intervals u))"
    using assms(2) d distinct_delete [of "timers s" i] distinct_delete [of "intervals s" i] by auto
  then have "distinct (sched_ids u)" using sub d(3) unfolding sched_ids_def distinct_append by blast
  moreover have "set (sched_ids u) \<subseteq> set (sched_ids s)" using sub unfolding sched_ids_def set_append by blast
  ultimately show ?thesis using b assms(3) unfolding ids_inv_def by auto
qed

lemma drop_timer_inv:
  fixes s :: "('f, 'a, 'e, 'k) sched"
  assumes L: "kernel_laws K opens interest" and inv: "sched_inv opens interest s" and e: "(i, h, oc) \<in> set (timers s)"
  shows "sched_inv opens interest (drop_timer K (i, h, oc) s)"
proof -
  let ?s0 = "s\<lparr>timers := AList.delete i (timers s)\<rparr>" and ?u = "drop_timer K (i, h, oc) s"
  have ids: "ids_inv s" using inv by (simp add: sched_inv_def)
  then have m: "map_of (timers s) i = Some (h, oc)" "distinct (map fst (timers s))"
    using e by (auto simp: ids_inv_def sched_ids_def)
  have h: "h \<in> set (sched_handles s)" using e by (force simp: sched_handles_def entry_handles_def)
  have "reg_inv opens interest ?s0" using inv by (simp add: sched_inv_def reg_inv_def)
  note R = sched_release [OF L inv h this _ _ _ drop_timer_def [of K "(i, h, oc)" s, simplified], simplified]
  note M = sched_more [OF R(6)]
  have t: "tasks_inv ?u"
    by (rule tasks_inv_same [of s]) (use inv M R(2,4) delete_callbacks [of ?u] in \<open>auto simp: sched_inv_def\<close>)
  have "ids_inv ?u" using ids_inv_delete [OF ids, of ?u i] M by simp
  moreover have "mset (sched_handles s) = add_mset h (mset (sched_handles ?u))"
    using entry_handles_delete [OF m] M by (simp add: sched_handles_def cleaner_handles_def gather_def)
  ultimately show ?thesis using R M t
    by (intro sched_inv_remove [OF inv R(1,2)]) (auto simp: ids_same_def AList.delete_eq)
qed

lemma drop_interval_inv:
  fixes s :: "('f, 'a, 'e, 'k) sched"
  assumes L: "kernel_laws K opens interest" and inv: "sched_inv opens interest s" and e: "(i, h, oc) \<in> set (intervals s)"
  shows "sched_inv opens interest (drop_interval K (i, h, oc) s)"
proof -
  let ?s0 = "s\<lparr>intervals := AList.delete i (intervals s)\<rparr>" and ?u = "drop_interval K (i, h, oc) s"
  have ids: "ids_inv s" using inv by (simp add: sched_inv_def)
  then have m: "map_of (intervals s) i = Some (h, oc)" "distinct (map fst (intervals s))"
    using e by (auto simp: ids_inv_def sched_ids_def)
  have h: "h \<in> set (sched_handles s)" using e by (force simp: sched_handles_def entry_handles_def)
  have "reg_inv opens interest ?s0" using inv by (simp add: sched_inv_def reg_inv_def)
  note R = sched_release [OF L inv h this _ _ _ drop_interval_def [of K "(i, h, oc)" s, simplified], simplified]
  note M = sched_more [OF R(6)]
  have t: "tasks_inv ?u"
    by (rule tasks_inv_same [of s]) (use inv M R(2,4) delete_callbacks [of ?u] in \<open>auto simp: sched_inv_def\<close>)
  have "ids_inv ?u" using ids_inv_delete [OF ids, of ?u i] M by simp
  moreover have "mset (sched_handles s) = add_mset h (mset (sched_handles ?u))"
    using entry_handles_delete [OF m] M by (simp add: sched_handles_def cleaner_handles_def gather_def)
  ultimately show ?thesis using R M t
    by (intro sched_inv_remove [OF inv R(1,2)]) (auto simp: ids_same_def AList.delete_eq)
qed

lemma run_on_cancel_inv:
  assumes inv: "sched_inv opens interest s"
    and p: "case oc of ClosePromise p \<Rightarrow> p < length (promises s) \<longrightarrow> timed s p | _ \<Rightarrow> True"
  shows "sched_inv opens interest (run_on_cancel oc s)"
proof -
  have "tasks_inv (run_on_cancel oc s)" using inv p by (intro tasks_inv_on_cancel) (auto simp: sched_inv_def)
  then show ?thesis using inv
    by (intro sched_inv_quiet [OF inv]) (auto simp: sched_inv_def intro: ids_same_on_cancel)
qed

text \<open>A call that starts and holds nothing.\<close>

lemma gather_push [simp]: "gather g (s\<lparr>calls := calls s @ [c]\<rparr>) = gather g s @ g c"
  by (simp add: gather_def)

lemma sched_inv_push:
  assumes inv: "sched_inv opens interest s"
    and c: "c = CallReturned \<or> (\<exists>oc. c = CallOnCancel oc)" "call_link s c"
  shows "sched_inv opens interest (s\<lparr>calls := calls s @ [c]\<rparr>)" (is "sched_inv opens interest ?u")
proof -
  have e: "call_handles c = []" "call_promises c = []" "call_shareds c = []" "call_pids c = []" "call_vids c = []"
    using c(1) by auto
  then have td: "timed ?u p = timed s p" for p by (simp add: timed_def)
  have "call_link ?u c" using c td by (auto split: on_cancel.splits)
  moreover have "ids_kept s ?u" using e td by (simp add: ids_kept_def grows_def promise_has_id_def shared_has_id_def)
  moreover have "calls_inv ?u" using inv e by (simp add: sched_inv_def calls_inv_def)
  moreover have "tasks_inv s" using inv by (simp add: sched_inv_def)
  then have "tasks_inv ?u" by (rule tasks_inv_calls) (simp_all add: td loop_callbacks_def)
  moreover have "reg_inv opens interest ?u" "ids_inv ?u" "pc_inv (length (fired_flags ?u)) (run_pc ?u)"
    using inv by (simp_all add: sched_inv_def reg_inv_def ids_inv_def sched_ids_def)
  ultimately show ?thesis using e
    by (intro sched_inv_move [OF inv]) (auto simp: sched_handles_def cleaner_handles_def)
qed

text \<open>Cancelling: the entry is dropped, then its future or shared value is closed.\<close>

lemma erase_cases:
  fixes s :: "('f, 'a, 'e, 'k) sched"
  obtains (timer) h oc where "map_of (timers s) i = Some (h, oc)" "erase_entry K i s = (Some oc, drop_timer K (i, h, oc) s)"
  | (interval) h oc where "map_of (timers s) i = None" "map_of (intervals s) i = Some (h, oc)"
      "erase_entry K i s = (Some oc, drop_interval K (i, h, oc) s)"
  | (missing) "erase_entry K i s = (None, s)" "i \<notin> set (sched_ids s)"
proof (cases "map_of (timers s) i")
  case None
  show thesis
  proof (cases "map_of (intervals s) i")
    case (Some e)
    with None show thesis by (cases e) (auto simp: erase_entry_def drop_interval_def intro: interval)
  next
    case n: None
    with None have "i \<notin> set (sched_ids s)" by (simp add: sched_ids_def map_of_eq_None_iff)
    with None n show thesis by (intro missing) (auto simp: erase_entry_def)
  qed
next
  case (Some e)
  then show thesis by (cases e) (auto simp: erase_entry_def drop_timer_def intro: timer)
qed

lemma call_pids_promises: "(p, i) \<in> set (gather call_pids s) \<Longrightarrow> p \<in> set (gather call_promises s)"
  and call_vids_shareds: "(v, i) \<in> set (gather call_vids s) \<Longrightarrow> v \<in> set (gather call_shareds s)"
proof -
  have "set (map fst (call_pids c)) \<subseteq> set (call_promises c)" "set (map fst (call_vids c)) \<subseteq> set (call_shareds c)" for c
    by (cases c; simp)+
  then show "(p, i) \<in> set (gather call_pids s) \<Longrightarrow> p \<in> set (gather call_promises s)"
    "(v, i) \<in> set (gather call_vids s) \<Longrightarrow> v \<in> set (gather call_shareds s)" by (force simp: gather_def)+
qed

lemma has_id_timed: "promise_has_id s p i \<Longrightarrow> timed s p"
  using call_pids_promises [of p i s] by (auto simp: promise_has_id_def timed_def idSetted_getId)

lemma drop_sel [simp]:
  fixes s :: "('f, 'a, 'e, 'k) sched"
  shows "promises (drop_timer K e s) = promises s" "shareds (drop_timer K e s) = shareds s" "calls (drop_timer K e s) = calls s"
    "promises (drop_interval K e s) = promises s" "shareds (drop_interval K e s) = shareds s" "calls (drop_interval K e s) = calls s"
  by (simp_all add: drop_timer_def drop_interval_def handle_release_def unregisterEvent_def Let_def split: option.split)

lemma erase_inv:
  fixes s u :: "('f, 'a, 'e, 'k) sched"
  assumes L: "kernel_laws K opens interest" and inv: "sched_inv opens interest s" and e: "erase_entry K i s = (r, u)"
  shows "sched_inv opens interest u" and "r = Some oc \<Longrightarrow> call_link u (CallOnCancel oc)"
proof -
  have "sched_inv opens interest u \<and> (\<forall>oc. r = Some oc \<longrightarrow> call_link u (CallOnCancel oc))"
  proof (cases rule: erase_cases [of s i K])
    case (timer h oc)
    have x: "(i, h, oc) \<in> set (timers s)" using timer(1) by (rule map_of_SomeD)
    then have "timer_link s (i, h, oc)" using inv by (auto simp: sched_inv_def links_inv_def)
    then obtain p where "oc = ClosePromise p" "promise_has_id s p i" by (auto simp: timer_link_def)
    with timer(2) e drop_timer_inv [OF L inv x] has_id_timed [of s p i] show ?thesis
      by (auto simp: timed_def gather_def promise_has_id_def)
  next
    case (interval h oc)
    have x: "(i, h, oc) \<in> set (intervals s)" using interval(2) by (rule map_of_SomeD)
    then have "interval_link s (i, h, oc)" using inv by (auto simp: sched_inv_def links_inv_def)
    with interval(3) e drop_interval_inv [OF L inv x] show ?thesis by (auto simp: interval_link_def shared_has_id_def)
  qed (use inv e in simp)
  then show "sched_inv opens interest u" "r = Some oc \<Longrightarrow> call_link u (CallOnCancel oc)" by auto
qed

lemma cancel_inv:
  fixes s :: "('f, 'a, 'e, 'k) sched"
  assumes L: "kernel_laws K opens interest" and inv: "sched_inv opens interest s"
  shows "sched_inv opens interest (snd (cancel K ido s))"
proof (cases ido)
  case (Some i)
  obtain r u where e: "erase_entry K i s = (r, u)" by (cases "erase_entry K i s")
  show ?thesis
  proof (cases r)
    case None
    with Some e erase_inv(1) [OF L inv e] show ?thesis by (simp add: cancel_def)
  next
    case (Some oc)
    with erase_inv(2) [OF L inv e Some] have "sched_inv opens interest (run_on_cancel oc u)"
      by (intro run_on_cancel_inv erase_inv(1) [OF L inv e]) (auto split: on_cancel.splits)
    with \<open>ido = Some i\<close> e Some show ?thesis by (simp add: cancel_def)
  qed
qed (use inv in \<open>simp add: cancel_def\<close>)

lemma cancel_begin_inv:
  fixes s :: "('f, 'a, 'e, 'k) sched"
  assumes L: "kernel_laws K opens interest" and inv: "sched_inv opens interest s"
  shows "sched_inv opens interest (cancel_begin K ido s)"
proof (cases ido)
  case (Some i)
  obtain r u where e: "erase_entry K i s = (r, u)" by (cases "erase_entry K i s")
  note E = erase_inv [OF L inv e]
  show ?thesis
  proof (cases r)
    case None
    with \<open>ido = Some i\<close> e sched_inv_push [OF E(1), of CallReturned] show ?thesis by (simp add: cancel_begin_def)
  next
    case (Some oc)
    with \<open>ido = Some i\<close> e sched_inv_push [OF E(1), of "CallOnCancel oc"] E(2) [OF Some] show ?thesis
      by (simp add: cancel_begin_def)
  qed
qed (use sched_inv_push [OF inv, of CallReturned] in \<open>simp add: cancel_begin_def\<close>)

text \<open>The clean-up drops its entries one after the other.\<close>

lemma release_sched [simp]:
  fixes s :: "('f, 'a, 'e, 'k) sched"
  shows "snd (handle_release K h (s\<lparr>timers := ts\<rparr>)) = (snd (handle_release K h s))\<lparr>timers := ts\<rparr>"
    and "timers (snd (handle_release K h s)) = timers s" "intervals (snd (handle_release K h s)) = intervals s"
    and "promises (snd (handle_release K h s)) = promises s" "shareds (snd (handle_release K h s)) = shareds s"
    and "spool (snd (handle_release K h s)) = spool s" "fired_flags (snd (handle_release K h s)) = fired_flags s"
    and "nextId (snd (handle_release K h s)) = nextId s" "run_pc (snd (handle_release K h s)) = run_pc s"
    and "calls (snd (handle_release K h s)) = calls s"
  by (simp_all add: handle_release_def unregisterEvent_def Let_def split: option.split)

lemma fold_drop_timer:
  fixes s :: "('f, 'a, 'e, 'k) sched"
  shows "fold (drop_timer K) es s =
    (fold (\<lambda>e t. snd (handle_release K (fst (snd e)) t)) es s)\<lparr>timers := fold (\<lambda>e. AList.delete (fst e)) es (timers s)\<rparr>"
proof (induction es arbitrary: s)
  case (Cons e es)
  have C: "fold (\<lambda>e t. snd (handle_release K (fst (snd e)) t)) es (t\<lparr>timers := ts\<rparr>) =
      (fold (\<lambda>e t. snd (handle_release K (fst (snd e)) t)) es t)\<lparr>timers := ts\<rparr>" for t :: "('f, 'a, 'e, 'k) sched" and ts
    by (induction es arbitrary: t) simp_all
  show ?case using Cons.IH [of "drop_timer K e s"] C by (simp add: drop_timer_def)
qed simp

lemma fold_delete_filter:
  fixes xs :: "('a \<times> 'b) list"
  shows "fold (\<lambda>e. AList.delete (fst e)) es xs = filter (\<lambda>x. fst x \<notin> fst ` set es) xs"
proof -
  have d: "AList.delete k ys = filter (\<lambda>x. fst x \<noteq> k) ys" for k and ys :: "('a \<times> 'b) list"
    unfolding AList.delete_eq by (rule filter_cong) auto
  show ?thesis by (induction es arbitrary: xs) (simp_all add: d)
qed

lemma clean_timers_drop:
  assumes "distinct (map fst (timers s))"
  shows "clean_timers K s = fold (drop_timer K) (filter (expired s) (timers s)) s"
proof -
  have "fst x \<notin> fst ` set (filter (expired s) (timers s)) \<longleftrightarrow> \<not> expired s x" if x: "x \<in> set (timers s)" for x
  proof
    assume "\<not> expired s x"
    moreover have "e = x" if "e \<in> set (timers s)" "fst e = fst x" for e
      using that x assms by (metis eq_key_imp_eq_value prod.collapse)
    ultimately show "fst x \<notin> fst ` set (filter (expired s) (timers s))" by force
  qed (use x in auto)
  then have "filter (\<lambda>x. fst x \<notin> fst ` set (filter (expired s) (timers s))) (timers s) = filter (\<lambda>e. \<not> expired s e) (timers s)"
    by (rule filter_cong [OF refl])
  then show ?thesis by (simp add: clean_timers_def Let_def fold_drop_timer fold_delete_filter)
qed

lemma drop_timers_inv:
  fixes s :: "('f, 'a, 'e, 'k) sched"
  assumes L: "kernel_laws K opens interest"
  shows "sched_inv opens interest s \<Longrightarrow> distinct (map fst es) \<Longrightarrow> set es \<subseteq> set (timers s) \<Longrightarrow>
    sched_inv opens interest (fold (drop_timer K) es s)"
proof (induction es arbitrary: s)
  case (Cons e es)
  obtain i h oc where e: "e = (i, h, oc)" by (cases e)
  have "timers (drop_timer K e s) = AList.delete (fst e) (timers s)" by (simp add: drop_timer_def)
  moreover have "x \<in> set (AList.delete (fst e) (timers s))" if x: "x \<in> set es" for x
  proof -
    have "fst e \<notin> fst ` set es" using Cons.prems(2) by simp
    with x have "fst x \<noteq> fst e" by (metis imageI)
    with x Cons.prems(3) show ?thesis by (cases x) (auto simp: AList.delete_eq)
  qed
  ultimately have "set es \<subseteq> set (timers (drop_timer K e s))" by auto
  with Cons drop_timer_inv [OF L Cons.prems(1), of i h oc] e show ?case by simp
qed simp

lemma clean_timers_inv:
  fixes s :: "('f, 'a, 'e, 'k) sched"
  assumes L: "kernel_laws K opens interest" and inv: "sched_inv opens interest s"
  shows "sched_inv opens interest (clean_timers K s)"
proof -
  have d: "distinct (map fst (timers s))" using inv by (auto simp: sched_inv_def ids_inv_def sched_ids_def)
  then have "distinct (map fst (filter (expired s) (timers s)))" by (rule distinct_map_filter)
  with drop_timers_inv [OF L inv] clean_timers_drop [OF d] show ?thesis by simp
qed

lemma word_less_succ: "(x :: u64) \<noteq> -1 \<Longrightarrow> x < x + 1"
proof -
  assume "x \<noteq> -1"
  then have "1 + x \<noteq> 0" by (metis add_eq_0_iff)
  then have "unat (1 + x) = Suc (unat x)" by (rule unatSuc)
  then show ?thesis by (simp add: word_less_nat_alt add.commute)
qed

lemma ids_inv_add:
  assumes "ids_inv s" "nextId s \<noteq> -1" "nextId u = nextId s + 1" "mset (sched_ids u) = add_mset (nextId s) (mset (sched_ids s))"
  shows "ids_inv u"
proof -
  have b: "\<And>i. i \<in> set (sched_ids s) \<Longrightarrow> 0 < i \<and> i < nextId s" "0 < nextId s" "distinct (sched_ids s)"
    using assms(1) by (auto simp: ids_inv_def)
  have "mset (sched_ids u) = mset (nextId s # sched_ids s)" using assms(4) by simp
  then have "distinct (sched_ids u)" "set (sched_ids u) = insert (nextId s) (set (sched_ids s))"
    using b mset_eq_imp_distinct_iff [of "sched_ids u" "nextId s # sched_ids s"] mset_eq_setD [of "sched_ids u" "nextId s # sched_ids s"]
    by auto
  then show ?thesis using b word_less_succ [OF assms(2)] assms(3)
    by (auto simp: ids_inv_def intro: less_trans)
qed

lemma next_fresh: "ids_inv s \<Longrightarrow> map_of (timers s) (nextId s) = None \<and> map_of (intervals s) (nextId s) = None"
  by (auto simp: ids_inv_def sched_ids_def map_of_eq_None_iff)

text \<open>The first section of \<open>schedule\<close> and of \<open>scheduleInterval\<close>.\<close>

lemma create_more:
  "loop_createTimer K ms cb s = (r, u) \<Longrightarrow> event_loop.more u = event_loop.more s"
  "loop_createInterval K ms cb s = (r, u) \<Longrightarrow> event_loop.more u = event_loop.more s"
proof -
  assume "loop_createTimer K ms cb s = (r, u)"
  then show "event_loop.more u = event_loop.more s"
    by (auto simp: loop_createTimer_def Let_def handle_release_def unregisterEvent_def
        split: prod.splits if_splits sum.splits option.splits dest: registerEvent_frame(4))
next
  assume "loop_createInterval K ms cb s = (r, u)"
  then show "event_loop.more u = event_loop.more s"
    by (auto simp: loop_createInterval_def Let_def split: prod.splits if_splits sum.splits dest: registerEvent_frame(4))
qed

lemma run_step_more: "run_step K s = Some s' \<Longrightarrow> event_loop.more s' = event_loop.more s"
  by (auto simp: run_step_def cb_enter_def cb_leave_def readFd_kern
      split: loop_pc.splits list.splits option.splits prod.splits sum.splits if_splits callback.splits)

lemma schedule_begin_failed:
  fixes s u :: "('f, 'a, 'e, 'k) sched"
  assumes L: "kernel_laws K opens interest" and inv: "sched_inv opens interest s"
    and ru: "loop_createTimer K ms (Some (EnqueueTask (SetPromise (length (promises s)) f))) (s\<lparr>promises := promises s @ [future_state_new]\<rparr>) = (Inl e, u)"
  shows "sched_inv opens interest (schedule_begin K ms f s)"
proof -
  let ?p = "length (promises s)"
  let ?s1 = "s\<lparr>promises := promises s @ [future_state_new]\<rparr>"
  let ?cb = "Some (EnqueueTask (SetPromise ?p f))"
  have tk: "tasks_inv s" and pc: "pc_inv (length (fired_flags s)) (run_pc s)" and reg: "reg_inv opens interest ?s1"
    using inv by (auto simp: sched_inv_def reg_inv_def)
  have f: "create_failed opens interest ?s1 {} u" "reg_inv opens interest u" using createTimer_effect [OF L reg ru] by auto
  then have m: "event_loop.more u = event_loop.more ?s1" by (simp add: create_failed_def)
  note M = sched_more [OF m]
  let ?u = "u\<lparr>promises := promises s @ [promise_close future_state_new]\<rparr>"
  have same: "events_map u = events_map s" "epollFd u = epollFd s" "run_pc u = run_pc s" "length (fired_flags s) \<le> length (fired_flags u)"
    using f(1) by (simp_all add: create_failed_def)
  have td: "timed ?u y = timed s y" if "y < ?p" for y using that M by (simp add: timed_def gather_def nth_append)
  have nb: "\<not> blocked future_state_new" by (simp add: future_state_new_def)
  have "tasks_inv ?u"
    by (rule tasks_inv_new_promise [OF tk, where x = "promise_close future_state_new"]) (use same M td nb in \<open>simp_all add: loop_callbacks_def\<close>)
  then have "sched_inv opens interest ?u"
    using f(2) same M pc_inv_mono [OF pc]
    by (intro sched_inv_quiet [OF inv]) (auto simp: ids_same_def nth_append reg_inv_def)
  from sched_inv_push [OF this, of CallReturned] ru M show ?thesis by (simp add: schedule_begin_def Let_def)
qed

lemma schedule_begin_created:
  fixes s u :: "('f, 'a, 'e, 'k) sched"
  assumes L: "kernel_laws K opens interest" and inv: "sched_inv opens interest s"
    and ru: "loop_createTimer K ms (Some (EnqueueTask (SetPromise (length (promises s)) f))) (s\<lparr>promises := promises s @ [future_state_new]\<rparr>) = (Inr h, u)"
  shows "sched_inv opens interest (schedule_begin K ms f s)"
proof -
  let ?p = "length (promises s)"
  let ?s1 = "s\<lparr>promises := promises s @ [future_state_new]\<rparr>"
  let ?cb = "Some (EnqueueTask (SetPromise ?p f))"
  have ids: "ids_inv s" and tk: "tasks_inv s" and ci: "calls_inv s" and reg: "reg_inv opens interest ?s1"
    using inv by (auto simp: sched_inv_def reg_inv_def)
  have nw: "?p \<notin> set (gather call_promises s)" by (rule timed_new [OF ci refl])
  have c: "created opens interest ?s1 h (OnTimer (length (fired_flags s)) ?cb) u" "reg_inv opens interest u"
    "fired_flags u = fired_flags s @ [False]" "\<exists>fd. h = mk_timer_handle fd (length (fired_flags s))"
    using createTimer_effect [OF L reg ru] by auto
  then have m: "event_loop.more u = event_loop.more ?s1" by (simp add: created_def)
  note M = sched_more [OF m]
  obtain ev where ev: "owns h" "events_map u = events_map s @ [(handle_fd h, ev)]" "handle_fd h \<notin> opens (kern s)"
    "ev_callback ev = OnTimer (length (fired_flags s)) ?cb" "epollFd u = epollFd s" "run_pc u = run_pc s"
    using c(1) by (auto simp: created_def)
  let ?u = "u\<lparr>calls := calls s @ [InsertTimer ?p h]\<rparr>"
  have g: "gather g ?u = gather g s @ g (InsertTimer ?p h)" for g :: "call_pc \<Rightarrow> 'z list" by (simp add: gather_def)
  have td: "timed ?u y = timed s y" if "y < ?p" for y using that M by (auto simp: timed_def g nth_append)
  have "map_of (events_map s) (handle_fd h) = None" using ev(3) reg by (auto simp: reg_inv_def map_of_eq_None_iff)
  then have "call_link ?u (InsertTimer ?p h)" using ev(2,4) c(3,4) by (auto simp: timer_cb_def mk_timer_handle_def map_add_def)
  moreover have "timed ?u ?p" by (simp add: timed_def g)
  then have "tasks_inv ?u"
    by (intro tasks_inv_new_promise [OF tk]) (use ev M td in \<open>auto simp: loop_callbacks_def future_state_new_def\<close>)
  moreover have "ids_kept s ?u" using td c(3) M by (auto simp: ids_kept_def grows_def promise_has_id_def shared_has_id_def g nth_append)
  moreover have "calls_inv ?u" using ci nw M by (auto simp: calls_inv_def g nth_append future_state_new_def sv_getId_def sv_new_def)
  moreover have "ids_inv ?u" using ids M by (simp add: ids_inv_def sched_ids_def)
  moreover have "mset (sched_handles ?u) = add_mset h (mset (sched_handles s))"
    using M by (simp add: sched_handles_def cleaner_handles_def g)
  moreover have "\<not> initialized ?u \<longrightarrow> timerCleaner ?u = None" using inv M by (simp add: sched_inv_def handles_inv_def)
  moreover have "reg_inv opens interest ?u" using c(2) by (simp add: reg_inv_def)
  ultimately have "sched_inv opens interest ?u"
    using ev M by (intro sched_inv_add [OF inv, where h = h and ev = ev]) auto
  with ru M show ?thesis by (simp add: schedule_begin_def Let_def)
qed

lemma schedule_begin_inv:
  fixes s :: "('f, 'a, 'e, 'k) sched"
  assumes "kernel_laws K opens interest" "sched_inv opens interest s"
  shows "sched_inv opens interest (schedule_begin K ms f s)"
proof -
  obtain r u where "loop_createTimer K ms (Some (EnqueueTask (SetPromise (length (promises s)) f)))
      (s\<lparr>promises := promises s @ [future_state_new]\<rparr>) = (r, u)" by fastforce
  with schedule_begin_failed [OF assms] schedule_begin_created [OF assms] show ?thesis by (cases r) blast+
qed

lemma scheduleInterval_begin_failed:
  fixes s u :: "('f, 'a, 'e, 'k) sched"
  assumes L: "kernel_laws K opens interest" and inv: "sched_inv opens interest s"
    and ru: "loop_createInterval K ms (Some (EnqueueTask (SetShared (length (shareds s)) f))) (s\<lparr>shareds := shareds s @ [sv_new]\<rparr>) = (Inl e, u)"
  shows "sched_inv opens interest (scheduleInterval_begin K ms f s)"
proof -
  let ?v = "length (shareds s)"
  let ?s1 = "s\<lparr>shareds := shareds s @ [sv_new]\<rparr>"
  let ?cb = "Some (EnqueueTask (SetShared ?v f))"
  have tk: "tasks_inv s" and pc: "pc_inv (length (fired_flags s)) (run_pc s)" and reg: "reg_inv opens interest ?s1"
    using inv by (auto simp: sched_inv_def reg_inv_def)
  obtain leak where f: "create_failed opens interest ?s1 leak u" "reg_inv opens interest u"
    using createInterval_effect [OF L reg ru] by auto
  then have m: "event_loop.more u = event_loop.more ?s1" by (simp add: create_failed_def)
  note M = sched_more [OF m]
  let ?u = "u\<lparr>shareds := shareds s @ [sv_close sv_new]\<rparr>"
  have same: "events_map u = events_map s" "epollFd u = epollFd s" "run_pc u = run_pc s" "length (fired_flags s) \<le> length (fired_flags u)"
    using f(1) by (simp_all add: create_failed_def)
  have td: "timed ?u y = timed s y" for y using M by (simp add: timed_def gather_def)
  have "tasks_inv ?u"
    by (rule tasks_inv_new_shared [OF tk]) (use same M td in \<open>simp_all add: loop_callbacks_def\<close>)
  then have "sched_inv opens interest ?u"
    using f(2) same M pc_inv_mono [OF pc]
    by (intro sched_inv_quiet [OF inv]) (auto simp: ids_same_def nth_append reg_inv_def)
  from sched_inv_push [OF this, of CallReturned] ru M show ?thesis by (simp add: scheduleInterval_begin_def Let_def)
qed

lemma scheduleInterval_begin_created:
  fixes s u :: "('f, 'a, 'e, 'k) sched"
  assumes L: "kernel_laws K opens interest" and inv: "sched_inv opens interest s"
    and ru: "loop_createInterval K ms (Some (EnqueueTask (SetShared (length (shareds s)) f))) (s\<lparr>shareds := shareds s @ [sv_new]\<rparr>) = (Inr h, u)"
  shows "sched_inv opens interest (scheduleInterval_begin K ms f s)"
proof -
  let ?v = "length (shareds s)"
  let ?s1 = "s\<lparr>shareds := shareds s @ [sv_new]\<rparr>"
  let ?cb = "Some (EnqueueTask (SetShared ?v f))"
  have ids: "ids_inv s" and tk: "tasks_inv s" and ci: "calls_inv s" and reg: "reg_inv opens interest ?s1"
    using inv by (auto simp: sched_inv_def reg_inv_def)
  have nw: "?v \<notin> set (gather call_shareds s)" using ci by (auto simp: calls_inv_def)
  have c: "created opens interest ?s1 h (OnInterval ?cb) u" "reg_inv opens interest u" "fired_flags u = fired_flags s"
    using createInterval_effect [OF L reg ru] by auto
  then have m: "event_loop.more u = event_loop.more ?s1" by (simp add: created_def)
  note M = sched_more [OF m]
  obtain ev where ev: "owns h" "events_map u = events_map s @ [(handle_fd h, ev)]" "handle_fd h \<notin> opens (kern s)"
    "ev_callback ev = OnInterval ?cb" "epollFd u = epollFd s" "run_pc u = run_pc s"
    using c(1) by (auto simp: created_def)
  let ?u = "u\<lparr>calls := calls s @ [InsertInterval ?v h]\<rparr>"
  have g: "gather g ?u = gather g s @ g (InsertInterval ?v h)" for g :: "call_pc \<Rightarrow> 'z list" by (simp add: gather_def)
  have td: "timed ?u y = timed s y" for y using M by (auto simp: timed_def g)
  have "map_of (events_map s) (handle_fd h) = None" using ev(3) reg by (auto simp: reg_inv_def map_of_eq_None_iff)
  then have "call_link ?u (InsertInterval ?v h)" using ev(2,4) by (auto simp: interval_cb_def map_add_def)
  moreover have "tasks_inv ?u"
    by (rule tasks_inv_new_shared [OF tk]) (use ev M td in \<open>auto simp: loop_callbacks_def\<close>)
  moreover have "ids_kept s ?u" using td c(3) M by (auto simp: ids_kept_def grows_def promise_has_id_def shared_has_id_def g nth_append)
  moreover have "calls_inv ?u" using ci nw M by (auto simp: calls_inv_def g nth_append future_state_new_def sv_getId_def sv_new_def)
  moreover have "ids_inv ?u" using ids M by (simp add: ids_inv_def sched_ids_def)
  moreover have "mset (sched_handles ?u) = add_mset h (mset (sched_handles s))"
    using M by (simp add: sched_handles_def cleaner_handles_def g)
  moreover have "\<not> initialized ?u \<longrightarrow> timerCleaner ?u = None" using inv M by (simp add: sched_inv_def handles_inv_def)
  moreover have "reg_inv opens interest ?u" using c(2) by (simp add: reg_inv_def)
  ultimately have "sched_inv opens interest ?u"
    using ev M by (intro sched_inv_add [OF inv, where h = h and ev = ev]) auto
  with ru M show ?thesis by (simp add: scheduleInterval_begin_def Let_def)
qed

lemma scheduleInterval_begin_inv:
  fixes s :: "('f, 'a, 'e, 'k) sched"
  assumes "kernel_laws K opens interest" "sched_inv opens interest s"
  shows "sched_inv opens interest (scheduleInterval_begin K ms f s)"
proof -
  obtain r u where "loop_createInterval K ms (Some (EnqueueTask (SetShared (length (shareds s)) f)))
      (s\<lparr>shareds := shareds s @ [sv_new]\<rparr>) = (r, u)" by fastforce
  with scheduleInterval_begin_failed [OF assms] scheduleInterval_begin_created [OF assms] show ?thesis by (cases r) blast+
qed

text \<open>\<open>init\<close>: the loop thread is started, then the clean-up is registered or not.\<close>

lemma loop_started_inv:
  fixes s :: "('f, 'a, 'e, 'k) sched"
  assumes inv: "sched_inv opens interest s"
  shows "tasks_inv (s\<lparr>loop_started := True, run_pc := LTest\<rparr>)" (is "tasks_inv ?s1")
    and "sched_inv opens interest (s\<lparr>loop_started := True, run_pc := LTest\<rparr>)"
proof -
  show tk1: "tasks_inv ?s1"
    by (rule tasks_inv_same [of s]) (use inv in \<open>auto simp: sched_inv_def loop_callbacks_def\<close>)
  show "sched_inv opens interest ?s1"
    using inv tk1 by (intro sched_inv_quiet [OF inv]) (auto simp: sched_inv_def reg_inv_def pc_inv_def ids_same_def)
qed

lemma ts_init_failed:
  fixes s u :: "('f, 'a, 'e, 'k) sched"
  assumes L: "kernel_laws K opens interest" and inv: "sched_inv opens interest s"
    and ru: "loop_createInterval K 5000 (Some CleanTimers) (s\<lparr>loop_started := True, run_pc := LTest\<rparr>) = (Inl e, u)"
  shows "sched_inv opens interest u"
proof -
  let ?s1 = "s\<lparr>loop_started := True, run_pc := LTest\<rparr>"
  note tk1 = loop_started_inv(1) [OF inv] and inv1 = loop_started_inv(2) [OF inv]
  have reg: "reg_inv opens interest ?s1" using inv1 by (simp add: sched_inv_def)
  obtain leak where f: "create_failed opens interest ?s1 leak u" "reg_inv opens interest u"
    using createInterval_effect [OF L reg ru] by auto
  then have m: "event_loop.more u = event_loop.more ?s1" by (simp add: create_failed_def)
  have same: "events_map u = events_map s" "epollFd u = epollFd s" "run_pc u = LTest" "length (fired_flags s) \<le> length (fired_flags u)"
    using f(1) by (simp_all add: create_failed_def)
  have "tasks_inv u" using same sched_more [OF m] by (intro tasks_inv_same [OF tk1]) (auto simp: loop_callbacks_def)
  then show ?thesis
    using f(2) same sched_more [OF m] by (intro sched_inv_quiet [OF inv1]) (auto simp: ids_same_def pc_inv_def)
qed

lemma ts_init_created:
  fixes s u :: "('f, 'a, 'e, 'k) sched"
  assumes L: "kernel_laws K opens interest" and inv: "sched_inv opens interest s" and n: "\<not> initialized s"
    and ru: "loop_createInterval K 5000 (Some CleanTimers) (s\<lparr>loop_started := True, run_pc := LTest\<rparr>) = (Inr h, u)"
  shows "sched_inv opens interest (u\<lparr>timerCleaner := h, initialized := True\<rparr>)"
proof -
  let ?s1 = "s\<lparr>loop_started := True, run_pc := LTest\<rparr>"
  note tk1 = loop_started_inv(1) [OF inv] and inv1 = loop_started_inv(2) [OF inv]
  have reg: "reg_inv opens interest ?s1" using inv1 by (simp add: sched_inv_def)
  have c: "created opens interest ?s1 h (OnInterval (Some CleanTimers)) u" "reg_inv opens interest u" "fired_flags u = fired_flags s"
    using createInterval_effect [OF L reg ru] by auto
  then have m: "event_loop.more u = event_loop.more ?s1" by (simp add: created_def)
  note M = sched_more [OF m]
  obtain ev where ev: "owns h" "events_map u = events_map s @ [(handle_fd h, ev)]" "handle_fd h \<notin> opens (kern s)"
    "ev_callback ev = OnInterval (Some CleanTimers)" "epollFd u = epollFd s" "run_pc u = LTest"
    using c(1) by (auto simp: created_def)
  let ?u = "u\<lparr>timerCleaner := h, initialized := True\<rparr>"
  obtain x where h: "h = Some x" using ev(1) by (cases h) auto
  have "timerCleaner s = None" using inv n by (simp add: sched_inv_def handles_inv_def)
  then have "mset (sched_handles ?u) = add_mset h (mset (sched_handles ?s1))"
    using M h by (simp add: sched_handles_def cleaner_handles_def gather_def)
  moreover have "tasks_inv ?u"
  proof (rule tasks_invI [OF tk1])
    show "cb \<in> loop_callbacks ?s1 \<or> cb_task_ok ?u cb" if "cb \<in> loop_callbacks ?u" for cb
      using that ev by (auto simp: loop_callbacks_def cb_task_ok_def)
  qed (use M tk1 in \<open>simp_all add: grows_def timed_def gather_def tasks_inv_def\<close>)
  moreover have "ids_inv ?u" using inv M by (simp add: sched_inv_def ids_inv_def sched_ids_def)
  moreover have k: "ids_same ?s1 ?u" using M c(3) by (simp add: ids_same_def)
  moreover have "calls_inv ?s1" using inv1 by (simp add: sched_inv_def)
  then have "calls_inv ?u" using k by (rule calls_inv_same)
  moreover have "ids_kept ?s1 ?u" using k by (rule ids_same_kept)
  moreover have "reg_inv opens interest ?u" using c(2) by (simp add: reg_inv_def)
  ultimately show ?thesis
    using ev M by (intro sched_inv_add [OF inv1, where h = h and ev = ev]) auto
qed

lemma ts_init_inv:
  fixes s :: "('f, 'a, 'e, 'k) sched"
  assumes L: "kernel_laws K opens interest" and inv: "sched_inv opens interest s" and i: "ts_init K s = Some (r, s')"
  shows "sched_inv opens interest s'"
proof (cases "initialized s")
  case False
  obtain q u where ru: "loop_createInterval K 5000 (Some CleanTimers) (s\<lparr>loop_started := True, run_pc := LTest\<rparr>) = (q, u)"
    by fastforce
  show ?thesis
  proof (cases q)
    case (Inl e)
    with i ru False ts_init_failed [OF L inv] show ?thesis by (auto simp: ts_init_def split: if_splits)
  next
    case (Inr h)
    with i ru False ts_init_created [OF L inv False] show ?thesis by (auto simp: ts_init_def split: if_splits)
  qed
qed (use i inv in \<open>simp add: ts_init_def\<close>)

text \<open>The further sections of the calls: what the calls hold before and after a step.\<close>

lemma gather_update:
  assumes "j < length (calls s)" "calls u = (calls s)[j := c]"
  shows "mset (gather g u) + mset (g (calls s ! j)) = mset (gather g s) + mset (g c)"
  using mset_concat_update [OF assms(1), of g c] assms(2) by (simp add: gather_def)

lemma gather_update_same:
  assumes "j < length (calls s)" "calls u = (calls s)[j := c]" "g c = g (calls s ! j)"
  shows "gather g u = gather g s"
proof -
  have "map g ((calls s)[j := c]) = map g (calls s)" using assms(1,3) by (metis list_update_id map_update)
  then show ?thesis using assms(2) by (simp add: gather_def)
qed

lemma call_goto_sel [simp]:
  "promises (call_goto j c s) = promises s" "shareds (call_goto j c s) = shareds s" "timers (call_goto j c s) = timers s"
  "intervals (call_goto j c s) = intervals s" "spool (call_goto j c s) = spool s" "nextId (call_goto j c s) = nextId s"
  "timerCleaner (call_goto j c s) = timerCleaner s" "initialized (call_goto j c s) = initialized s"
  "events_map (call_goto j c s) = events_map s" "epollFd (call_goto j c s) = epollFd s" "kern (call_goto j c s) = kern s"
  "fired_flags (call_goto j c s) = fired_flags s" "run_pc (call_goto j c s) = run_pc s" "calls (call_goto j c s) = (calls s)[j := c]"
  by (simp_all add: call_goto_def)

lemma in_gather: "j < length (calls s) \<Longrightarrow> x \<in> set (g (calls s ! j)) \<Longrightarrow> x \<in> set (gather g s)"
  by (force simp: gather_def)

lemma calls_inv_at:
  assumes "calls_inv s" "j < length (calls s)"
  shows "p \<in> set (call_promises (calls s ! j)) \<Longrightarrow> p < length (promises s) \<and> \<not> idSetted (promises s ! p)"
    and "v \<in> set (call_shareds (calls s ! j)) \<Longrightarrow> v < length (shareds s) \<and> sv_getId (shareds s ! v) = None"
  using assms in_gather [OF assms(2), where g = call_promises] in_gather [OF assms(2), where g = call_shareds]
  by (auto simp: calls_inv_def)

lemma set_update_calls: "set ((calls s)[j := c]) \<subseteq> insert c (set (calls s))"
  by (rule set_update_subset_insert)

lemma call_insert_inv:
  fixes s u :: "('f, 'a, 'e, 'k) sched"
  assumes inv: "sched_inv opens interest s" and n: "nextId s \<noteq> -1" and j: "j < length (calls s)"
    and c: "calls s ! j = InsertTimer p h \<and>
        u = call_goto j (StoreTimerId p (nextId s)) (s\<lparr>nextId := nextId s + 1, timers := timers s @ [(nextId s, h, ClosePromise p)]\<rparr>) \<or>
      calls s ! j = InsertInterval p h \<and>
        u = call_goto j (StoreSharedId p (nextId s)) (s\<lparr>nextId := nextId s + 1, intervals := intervals s @ [(nextId s, h, CloseShared p)]\<rparr>)"
  shows "sched_inv opens interest u"
proof -
  have ids: "ids_inv s" and tk: "tasks_inv s" and ci: "calls_inv s" and l: "call_link s (calls s ! j)"
    and reg: "reg_inv opens interest s" and pc: "pc_inv (length (fired_flags s)) (run_pc s)"
    using inv j by (auto simp: sched_inv_def links_inv_def)
  have cs: "calls u = (calls s)[j := calls u ! j]" and j': "j < length (calls u)" using c j by auto
  have G: "mset (gather g u) + mset (g (calls s ! j)) = mset (gather g s) + mset (g (calls u ! j))" for g :: "call_pc \<Rightarrow> 'z list"
    by (rule gather_update [OF j cs])
  have P: "gather call_promises u = gather call_promises s" "gather call_shareds u = gather call_shareds s"
    using c j by (auto intro!: gather_update_same [OF j cs])
  have ob: "promises u = promises s" "shareds u = shareds s" "spool u = spool s" "events_map u = events_map s" "run_pc u = run_pc s"
    "fired_flags u = fired_flags s" "epollFd u = epollFd s" "kern u = kern s" "timerCleaner u = timerCleaner s" "initialized u = initialized s"
    "nextId u = nextId s + 1" using c by auto
  have td: "timed u x = timed s x" for x by (simp add: timed_def P ob)
  have sub: "set (gather call_pids s) \<subseteq> set (gather call_pids u)" "set (gather call_vids s) \<subseteq> set (gather call_vids u)"
    using G [of call_pids] G [of call_vids] c j
    by (auto dest!: arg_cong [where f = set_mset] simp flip: set_mset_mset)
  have k: "ids_kept s u" using td sub by (auto simp: ids_kept_def grows_def ob promise_has_id_def shared_has_id_def)
  have fr: "timer_cb u = timer_cb s" "interval_cb u = interval_cb s" by (intro ext; simp add: timer_cb_def interval_cb_def ob)+
  have pl: "calls s ! j = InsertTimer p h \<Longrightarrow> p < length (promises s)" "calls s ! j = InsertInterval p h \<Longrightarrow> p < length (shareds s)"
    using calls_inv_at [OF ci j, of p] by simp_all
  have id: "(p, nextId s) \<in> set (gather call_pids u) \<or> calls s ! j = InsertInterval p h"
    "(p, nextId s) \<in> set (gather call_vids u) \<or> calls s ! j = InsertTimer p h"
    using in_gather [OF j', where g = call_pids] in_gather [OF j', where g = call_vids] c j by auto
  have new: "set (timers u) \<subseteq> set (timers s) \<union> {e. timer_link u e}" "set (intervals u) \<subseteq> set (intervals s) \<union> {e. interval_link u e}"
    using c l pl id by (auto simp: timer_link_def interval_link_def promise_has_id_def shared_has_id_def fr ob)
  have "call_link u (calls u ! j)" using c j by auto
  then have "set (calls u) \<subseteq> set (calls s) \<union> {x. call_link u x}"
    using set_update_calls [of s j "calls u ! j"] cs by auto
  moreover have "mset (sched_handles u) = mset (sched_handles s)"
    using G [of call_handles] c j by (auto simp: sched_handles_def cleaner_handles_def entry_handles_def)
  moreover have "ids_inv u" using c by (intro ids_inv_add [OF ids n]) (auto simp: sched_ids_def)
  moreover have "calls_inv u" using ci by (simp add: calls_inv_def P ob)
  moreover have "tasks_inv u" by (rule tasks_inv_calls [OF tk]) (simp_all add: td ob loop_callbacks_def)
  ultimately show ?thesis using k new reg pc
    by (intro sched_inv_move [OF inv]) (simp_all add: ob reg_inv_def)
qed

text \<open>The identifier reaches its object, which no other call is about.\<close>

lemma gather_drop:
  assumes j: "j < length (calls s)" "calls u = (calls s)[j := c]" and e: "g (calls s ! j) = [x]" "g c = []" and d: "distinct (gather g s)"
  shows "distinct (gather g u)" "set (gather g s) = insert x (set (gather g u))" "x \<notin> set (gather g u)"
proof -
  have "mset (gather g s) = mset (x # gather g u)" using gather_update [OF j, of g] e by simp
  then show "distinct (gather g u)" "set (gather g s) = insert x (set (gather g u))" "x \<notin> set (gather g u)"
    using d mset_eq_imp_distinct_iff [of "gather g s" "x # gather g u"] mset_eq_setD [of "gather g s" "x # gather g u"] by auto
qed

lemma store_timer_id_inv:
  fixes s :: "('f, 'a, 'e, 'k) sched"
  assumes inv: "sched_inv opens interest s" and j: "j < length (calls s)" and c: "calls s ! j = StoreTimerId p i"
  shows "sched_inv opens interest (call_goto j CallReturned (store_timer_id p i s))" (is "sched_inv opens interest ?u")
proof -
  have tk: "tasks_inv s" and ci: "calls_inv s" using inv by (auto simp: sched_inv_def)
  have cu: "calls ?u = (calls s)[j := CallReturned]" by (simp add: store_timer_id_def)
  have p: "p < length (promises s)" "\<not> idSetted (promises s ! p)" using calls_inv_at(1) [OF ci j, of p] c by auto
  have pr: "promises ?u = (promises s)[p := promise_setId i (promises s ! p)]" by (simp add: store_timer_id_def)
  note D = gather_drop [OF j cu, where g = call_promises and x = p, simplified c, simplified]
  have d: "distinct (gather call_promises s)" using ci by (simp add: calls_inv_def)
  have P: "mset (gather call_pids s) = add_mset (p, i) (mset (gather call_pids ?u))"
    using gather_update [OF j cu, of call_pids] c by simp
  then have Ps: "set (gather call_pids s) = insert (p, i) (set (gather call_pids ?u))"
    by (metis set_mset_mset set_mset_add_mset_insert)
  have S: "gather call_shareds ?u = gather call_shareds s" "gather call_vids ?u = gather call_vids s" "gather call_handles ?u = gather call_handles s"
    using c by (auto intro!: gather_update_same [OF j cu])
  have td: "timed ?u x = timed s x" if "x < length (promises s)" for x
    using that D(2) [OF d] pr p by (cases "x = p") (auto simp: timed_def)
  have no: "\<not> (\<exists>i'. (p, i') \<in> set (gather call_pids ?u))" using D(3) [OF d] call_pids_promises [of p _ ?u] by blast
  have "promise_has_id ?u x y" if h: "promise_has_id s x y" for x y
  proof (cases "x = p")
    case True
    with h p no Ps have "y = i" by (auto simp: promise_has_id_def idSetted_getId)
    with True p pr show ?thesis by (simp add: promise_has_id_def)
  qed (use h Ps pr in \<open>auto simp: promise_has_id_def\<close>)
  then have k: "ids_kept s ?u"
    using td S pr by (auto simp: ids_kept_def grows_def shared_has_id_def store_timer_id_def)
  have "calls_inv ?u"
    using ci D [OF d] pr S by (auto simp: calls_inv_def store_timer_id_def nth_list_update)
  moreover have "tasks_inv ?u"
    by (rule tasks_inv_calls [OF tk]) (use td p in \<open>auto simp: store_timer_id_def loop_callbacks_def nth_list_update\<close>)
  moreover have "set (calls ?u) \<subseteq> set (calls s) \<union> {x. call_link ?u x}" using set_update_calls [of s j CallReturned] cu by auto
  moreover have "sched_handles ?u = sched_handles s"
    using S by (simp add: sched_handles_def cleaner_handles_def store_timer_id_def)
  ultimately show ?thesis using k inv
    by (intro sched_inv_move [OF inv])
      (simp_all add: store_timer_id_def sched_inv_def reg_inv_def ids_inv_def sched_ids_def)
qed

lemma store_shared_id_inv:
  fixes s :: "('f, 'a, 'e, 'k) sched"
  assumes inv: "sched_inv opens interest s" and j: "j < length (calls s)" and c: "calls s ! j = StoreSharedId v i"
  shows "sched_inv opens interest (call_goto j CallReturned (store_shared_id v i s))" (is "sched_inv opens interest ?u")
proof -
  have tk: "tasks_inv s" and ci: "calls_inv s" using inv by (auto simp: sched_inv_def)
  have cu: "calls ?u = (calls s)[j := CallReturned]" by (simp add: store_shared_id_def)
  have v: "v < length (shareds s)" "sv_getId (shareds s ! v) = None" using calls_inv_at(2) [OF ci j, of v] c by auto
  have pr: "shareds ?u = (shareds s)[v := sv_setId i (shareds s ! v)]" by (simp add: store_shared_id_def)
  note D = gather_drop [OF j cu, where g = call_shareds and x = v, simplified c, simplified]
  have d: "distinct (gather call_shareds s)" using ci by (simp add: calls_inv_def)
  have P: "mset (gather call_vids s) = add_mset (v, i) (mset (gather call_vids ?u))"
    using gather_update [OF j cu, of call_vids] c by simp
  then have Ps: "set (gather call_vids s) = insert (v, i) (set (gather call_vids ?u))"
    by (metis set_mset_mset set_mset_add_mset_insert)
  have S: "gather call_promises ?u = gather call_promises s" "gather call_pids ?u = gather call_pids s" "gather call_handles ?u = gather call_handles s"
    using c by (auto intro!: gather_update_same [OF j cu])
  have td: "timed ?u x = timed s x" for x using S by (simp add: timed_def store_shared_id_def)
  have no: "\<not> (\<exists>i'. (v, i') \<in> set (gather call_vids ?u))" using D(3) [OF d] call_vids_shareds [of v _ ?u] by blast
  have "shared_has_id ?u x y" if h: "shared_has_id s x y" for x y
  proof (cases "x = v")
    case True
    with h v no Ps have "y = i" by (auto simp: shared_has_id_def)
    with True v pr show ?thesis by (simp add: shared_has_id_def)
  qed (use h Ps pr in \<open>auto simp: shared_has_id_def\<close>)
  then have k: "ids_kept s ?u"
    using td S pr by (auto simp: ids_kept_def grows_def promise_has_id_def store_shared_id_def)
  have "calls_inv ?u"
    using ci D [OF d] pr S by (auto simp: calls_inv_def store_shared_id_def nth_list_update)
  moreover have "tasks_inv ?u"
    by (rule tasks_inv_calls [OF tk]) (use td in \<open>auto simp: store_shared_id_def loop_callbacks_def\<close>)
  moreover have "set (calls ?u) \<subseteq> set (calls s) \<union> {x. call_link ?u x}" using set_update_calls [of s j CallReturned] cu by auto
  moreover have "sched_handles ?u = sched_handles s"
    using S by (simp add: sched_handles_def cleaner_handles_def store_shared_id_def)
  ultimately show ?thesis using k inv
    by (intro sched_inv_move [OF inv])
      (simp_all add: store_shared_id_def sched_inv_def reg_inv_def ids_inv_def sched_ids_def)
qed

lemma call_return_inv:
  fixes s :: "('f, 'a, 'e, 'k) sched"
  assumes inv: "sched_inv opens interest s" and j: "j < length (calls s)" and c: "calls s ! j = CallOnCancel oc"
  shows "sched_inv opens interest (call_goto j CallReturned s)" (is "sched_inv opens interest ?u")
proof -
  have cu: "calls ?u = (calls s)[j := CallReturned]" by simp
  have G: "gather call_handles ?u = gather call_handles s" "gather call_promises ?u = gather call_promises s"
    "gather call_shareds ?u = gather call_shareds s" "gather call_pids ?u = gather call_pids s" "gather call_vids ?u = gather call_vids s"
    using c by (auto intro!: gather_update_same [OF j cu])
  have td: "timed ?u x = timed s x" for x by (simp add: timed_def G)
  have tk: "tasks_inv s" using inv by (simp add: sched_inv_def)
  have "tasks_inv ?u" by (rule tasks_inv_calls [OF tk]) (simp_all add: td loop_callbacks_def)
  moreover have "ids_kept s ?u" by (simp add: ids_kept_def grows_def td promise_has_id_def shared_has_id_def G)
  moreover have "calls_inv ?u" using inv by (simp add: sched_inv_def calls_inv_def G)
  moreover have "set (calls ?u) \<subseteq> set (calls s) \<union> {x. call_link ?u x}" using set_update_calls [of s j CallReturned] by auto
  ultimately show ?thesis using inv
    by (intro sched_inv_move [OF inv])
      (simp_all add: G sched_handles_def cleaner_handles_def sched_inv_def reg_inv_def ids_inv_def sched_ids_def)
qed

lemma call_step_inv:
  fixes s s' :: "('f, 'a, 'e, 'k) sched"
  assumes inv: "sched_inv opens interest s" and n: "nextId s \<noteq> -1" and j: "j < length (calls s)"
    and e: "call_step K j (calls s ! j) s = Some s'"
  shows "sched_inv opens interest s'"
proof -
  have f: "map_of (timers s) (nextId s) = None" "map_of (intervals s) (nextId s) = None"
    using next_fresh [of s] inv by (simp_all add: sched_inv_def)
  show ?thesis
  proof (cases "calls s ! j")
    case (InsertTimer p h)
    with e f show ?thesis by (intro call_insert_inv [OF inv n j, of p h]) (simp add: insert_timer_def Let_def)
  next
    case (InsertInterval v h)
    with e f show ?thesis by (intro call_insert_inv [OF inv n j, of v h]) (simp add: insert_interval_def Let_def)
  next
    case (StoreTimerId p i)
    with e store_timer_id_inv [OF inv j StoreTimerId] show ?thesis by simp
  next
    case (StoreSharedId v i)
    with e store_shared_id_inv [OF inv j StoreSharedId] show ?thesis by simp
  next
    case (CallOnCancel oc)
    have "call_link s (CallOnCancel oc)" using inv j nth_mem [OF j] CallOnCancel by (auto simp: sched_inv_def links_inv_def)
    then have "sched_inv opens interest (run_on_cancel oc s)" by (intro run_on_cancel_inv [OF inv]) (auto split: on_cancel.splits)
    from call_return_inv [OF this, of j oc] j CallOnCancel e show ?thesis by simp
  qed (use e in simp)
qed

text \<open>The steps of the loop thread and of the pool.\<close>

lemma run_step_callbacks:
  fixes s s' :: "('f, 'a, 'e, 'k) sched"
  assumes "run_step K s = Some s'" "events_map s' = events_map s"
  shows "loop_callbacks s' \<subseteq> loop_callbacks s"
proof (cases "run_pc s")
  case (LFor fds)
  show ?thesis
  proof (cases fds)
    case (Cons fd gs)
    show ?thesis
    proof (cases "map_of (events_map s) fd")
      case (Some ev)
      then have "(fd, ev) \<in> set (events_map s)" by (rule map_of_SomeD)
      then have "ev_callback ev \<in> ev_callback ` snd ` set (events_map s)" by (metis imageI snd_conv)
      moreover have "run_pc s' = LCall (ev_callback ev) fd gs" using assms LFor Cons Some by (auto simp: run_step_def)
      ultimately show ?thesis using assms(2) by (simp add: loop_callbacks_def)
    qed (use assms LFor Cons in \<open>auto simp: run_step_def loop_callbacks_def\<close>)
  qed (use assms LFor in \<open>auto simp: run_step_def loop_callbacks_def\<close>)
next
  case (LCall cb fd fds)
  then have "run_pc s' \<in> {LThrew ''bad_function_call'', LBody cb fd fds, LAfter cb fds}"
    using assms(1) by (cases cb) (auto simp: run_step_def cb_enter_def split: option.splits if_splits)
  with LCall assms(2) show ?thesis by (auto simp: loop_callbacks_def)
next
  case (LAfter cb fds)
  then have "run_pc s' = LFor fds" using assms(1) by (cases cb) (auto simp: run_step_def cb_leave_def)
  with LAfter assms(2) show ?thesis by (auto simp: loop_callbacks_def)
next
  case LTest
  then have "pc_callbacks (run_pc s') = {}" using assms(1) by (auto simp: run_step_def split: if_splits)
  with LTest assms(2) show ?thesis by (auto simp: loop_callbacks_def)
next
  case LWait
  then have "pc_callbacks (run_pc s') = {}" using assms(1)
    by (auto simp: run_step_def split: prod.splits sum.splits if_splits)
  with LWait assms(2) show ?thesis by (auto simp: loop_callbacks_def)
qed (use assms in \<open>auto simp: run_step_def\<close>)

lemma run_step_sched_inv:
  fixes s s' :: "('f, 'a, 'e, 'k) sched"
  assumes L: "kernel_laws K opens interest" and inv: "sched_inv opens interest s" and c: "run_step K s = Some s'"
  shows "sched_inv opens interest s'"
proof -
  have reg: "reg_inv opens interest s" and pc: "pc_inv (length (fired_flags s)) (run_pc s)" and tk: "tasks_inv s"
    using inv by (auto simp: sched_inv_def)
  note R = run_step_loop [OF L reg pc c]
  then have m: "event_loop.more s' = event_loop.more s" by blast
  note M = sched_more [OF m]
  have "reg_inv opens interest s'" by (rule reg_inv_frame [OF reg]) (use R in auto)
  moreover have "tasks_inv s'" by (rule tasks_inv_same [OF tk M(1-3,11)]) (rule run_step_callbacks [OF c], use R in blast)
  ultimately show ?thesis using R M
    by (intro sched_inv_quiet [OF inv]) (auto simp: ids_same_def)
qed

lemma sched_inv_pc:
  fixes s u :: "('f, 'a, 'e, 'k) sched"
  assumes inv: "sched_inv opens interest s" and t: "tasks_inv u" and pc: "pc_inv (length (fired_flags s)) (run_pc u)"
    and k: "ids_same s u"
    and same: "kern u = kern s" "epollFd u = epollFd s" "fired_flags u = fired_flags s" "events_map u = events_map s"
      "timers u = timers s" "intervals u = intervals s" "timerCleaner u = timerCleaner s" "nextId u = nextId s"
      "initialized u = initialized s"
  shows "sched_inv opens interest u"
proof -
  have "reg_inv opens interest u" using inv same by (simp add: sched_inv_def reg_inv_def)
  with assms show ?thesis by (intro sched_inv_quiet [OF inv]) simp_all
qed

lemma body_callback: "run_pc s = LBody cb fd fds \<Longrightarrow> cb \<in> loop_callbacks s"
  by (simp add: loop_callbacks_def)

lemma clean_timers_frame [simp]:
  fixes s :: "('f, 'a, 'e, 'k) sched"
  shows "run_pc (clean_timers K s) = run_pc s" "fired_flags (clean_timers K s) = fired_flags s"
    "promises (clean_timers K s) = promises s" "shareds (clean_timers K s) = shareds s" "spool (clean_timers K s) = spool s"
    "nextId (clean_timers K s) = nextId s" "intervals (clean_timers K s) = intervals s" "calls (clean_timers K s) = calls s"
proof -
  let ?fold = "fold (\<lambda>e t. snd (handle_release K (fst (snd e)) t))"
  have "run_pc (?fold es t) = run_pc t \<and> fired_flags (?fold es t) = fired_flags t \<and> promises (?fold es t) = promises t \<and>
      shareds (?fold es t) = shareds t \<and> spool (?fold es t) = spool t \<and> nextId (?fold es t) = nextId t \<and>
      intervals (?fold es t) = intervals t \<and> calls (?fold es t) = calls t"
    for es :: "(u64 \<times> sched_entry) list" and t :: "('f, 'a, 'e, 'k) sched"
    by (induction es arbitrary: t) simp_all
  from this [of "filter (expired s) (timers s)" s]
  show "run_pc (clean_timers K s) = run_pc s" "fired_flags (clean_timers K s) = fired_flags s"
    "promises (clean_timers K s) = promises s" "shareds (clean_timers K s) = shareds s" "spool (clean_timers K s) = spool s"
    "nextId (clean_timers K s) = nextId s" "intervals (clean_timers K s) = intervals s" "calls (clean_timers K s) = calls s"
    by (simp_all add: clean_timers_def Let_def)
qed

lemma sched_body_inv:
  fixes s s' :: "('f, 'a, 'e, 'k) sched"
  assumes L: "kernel_laws K opens interest" and inv: "sched_inv opens interest s" and e: "sched_exec K ABody s = Some s'"
  shows "sched_inv opens interest s'"
proof -
  have tk: "tasks_inv s" and pc: "pc_inv (length (fired_flags s)) (run_pc s)" using inv by (auto simp: sched_inv_def)
  obtain cb fd fds where b: "run_pc s = LBody cb fd fds" using e by (auto split: loop_pc.splits)
  have "(\<exists>k u. cb_fun cb = Some (EnqueueTask k) \<and> enqueue 0 k s = Some u \<and> s' = u\<lparr>enqueuing := True\<rparr>) \<or>
      cb_fun cb = Some CleanTimers \<and> s' = (clean_timers K s)\<lparr>run_pc := LAfter cb fds\<rparr>"
    using e b by (auto split: option.splits sched_cb.splits if_splits)
  then show ?thesis
  proof (elim disjE exE conjE)
    fix k u assume k: "cb_fun cb = Some (EnqueueTask k)" "enqueue 0 k s = Some u" "s' = u\<lparr>enqueuing := True\<rparr>"
    have "tasks_inv s'" using tasks_inv_enqueue [OF tk k(2) body_callback [OF b] k(1)] k(3) by simp
    then show ?thesis using k(2,3) pc by (intro sched_inv_pc [OF inv]) (auto simp: enqueue_def ids_same_def)
  next
    assume c: "cb_fun cb = Some CleanTimers" "s' = (clean_timers K s)\<lparr>run_pc := LAfter cb fds\<rparr>"
    let ?u = "clean_timers K s"
    have u: "sched_inv opens interest ?u" by (rule clean_timers_inv [OF L inv])
    have "tasks_inv ?u" using u by (simp add: sched_inv_def)
    then have "tasks_inv s'" by (rule tasks_inv_same) (use c b in \<open>auto simp: loop_callbacks_def\<close>)
    then show ?thesis using c pc b by (intro sched_inv_pc [OF u]) (auto simp: ids_same_def pc_inv_def)
  qed
qed

lemma sched_exec_inv:
  fixes s s' :: "('f, 'a, 'e, 'k) sched"
  assumes L: "kernel_laws K opens interest" and inv: "sched_inv opens interest s" and e: "sched_exec_ids K a s = Some s'"
  shows "sched_inv opens interest s'"
proof -
  have n: "nextId s \<noteq> -1" and x: "sched_exec K a s = Some s'" using e by (auto simp: sched_exec_ids_def split: if_splits)
  have tk: "tasks_inv s" and pc: "pc_inv (length (fired_flags s)) (run_pc s)" using inv by (auto simp: sched_inv_def)
  show ?thesis
  proof (cases a)
    case (AExecute c f)
    with x obtain p where p: "execute c f s = Some (p, s')" by (auto split: if_splits)
    have "calls_inv s" using inv by (simp add: sched_inv_def)
    from tasks_inv_execute [OF tk this p] p pc show ?thesis
      by (intro sched_inv_pc [OF inv]) (auto simp: execute_def enqueue_def Let_def ids_same_def nth_append)
  next
    case (ASchedule ms f) with x schedule_begin_inv [OF L inv] show ?thesis by auto
  next
    case (AScheduleInterval ms f) with x scheduleInterval_begin_inv [OF L inv] show ?thesis by auto
  next
    case (ACancel i) with x cancel_begin_inv [OF L inv] show ?thesis by auto
  next
    case (ACall j) with x call_step_inv [OF inv n, of j] show ?thesis by (auto split: if_splits)
  next
    case AInit with x ts_init_inv [OF L inv] show ?thesis by auto
  next
    case AStop
    have "loop_callbacks s' = loop_callbacks s" using AStop x by (intro loop_callbacks_pc) (auto simp: sched_stop_def stop_def)
    then have "tasks_inv s'" by (intro tasks_inv_same [OF tk]) (use AStop x in \<open>auto simp: sched_stop_def stop_def\<close>)
    then show ?thesis using AStop x pc by (intro sched_inv_pc [OF inv]) (auto simp: sched_stop_def stop_def ids_same_def)
  next
    case ALoop with x run_step_sched_inv [OF L inv] show ?thesis by (auto split: if_splits)
  next
    case ABody with x sched_body_inv [OF L inv] show ?thesis by blast
  next
    case ABodyEnd
    then obtain cb fd fds where b: "run_pc s = LBody cb fd fds" "s' = s\<lparr>enqueuing := False, run_pc := LAfter cb fds\<rparr>"
      using x by (auto split: loop_pc.splits)
    have "tasks_inv s'" by (rule tasks_inv_same [OF tk]) (use b in \<open>auto simp: loop_callbacks_def\<close>)
    then show ?thesis using b pc by (intro sched_inv_pc [OF inv]) (auto simp: pc_inv_def ids_same_def)
  next
    case (APool b)
    with x have p: "pool_internal b (spool s)" "pool_step b s = Some s'" by (auto split: if_splits)
    from tasks_inv_pool [OF tk p(2,1)] p(2) pc show ?thesis
      by (intro sched_inv_pc [OF inv]) (auto simp: pool_step_def ids_same_def)
  next
    case (ATask t out)
    have "tasks_inv s'" using tasks_inv_task [OF tk] x ATask by blast
    then show ?thesis using ATask x pc
      by (intro sched_inv_pc [OF inv])
        (auto simp: pool_step_def task_effect_def ids_same_def nth_update_keeps [where P = future_getId]
          nth_update_keeps [where P = sv_getId] split: if_splits list.splits option.splits stask.splits payload.splits)
  qed
qed

subsection \<open>Identifiers belong to one object\<close>

lemma map_filter_update: "f y = f (xs ! i) \<Longrightarrow> List.map_filter f (xs[i := y]) = List.map_filter f xs"
proof (induction xs arbitrary: i)
  case (Cons a xs)
  then show ?case by (cases i) (simp_all split: option.split)
qed simp

lemma map_filter_snoc [simp]: "List.map_filter f (xs @ [x]) = List.map_filter f xs @ (case f x of None \<Rightarrow> [] | Some y \<Rightarrow> [y])"
  by (induction xs) (auto split: option.splits)

lemma set_map_filter_nth: "i < length xs \<Longrightarrow> f (xs ! i) = Some y \<Longrightarrow> y \<in> set (List.map_filter f xs)"
  by (force simp: List.map_filter_def)

lemma distinct_map_filter_inj:
  "distinct (List.map_filter f xs) \<Longrightarrow> p < length xs \<Longrightarrow> q < length xs \<Longrightarrow> f (xs ! p) = Some i \<Longrightarrow> f (xs ! q) = Some i \<Longrightarrow> p = q"
proof (induction xs arbitrary: p q)
  case (Cons x xs)
  have "i \<notin> set (List.map_filter f xs)" if "f x = Some i" using Cons.prems(1) that by simp
  with Cons set_map_filter_nth [of _ xs f i] show ?case
    by (cases p; cases q) (auto split: option.splits)
qed simp

lemma uniq_inv_same: "uniq_inv s \<Longrightarrow> given_ids s' = given_ids s \<Longrightarrow> nextId s' = nextId s \<Longrightarrow> uniq_inv s'"
  by (simp add: uniq_inv_def)

lemma uniq_inv_mset:
  assumes "uniq_inv s" "mset (given_ids s') = mset (given_ids s)" "nextId s' = nextId s"
  shows "uniq_inv s'"
proof -
  have "distinct (given_ids s') = distinct (given_ids s)" "set (given_ids s') = set (given_ids s)"
    using assms(2) by (rule mset_eq_imp_distinct_iff, rule mset_eq_setD)
  with assms(1,3) show ?thesis by (simp add: uniq_inv_def)
qed

lemma uniq_inv_add:
  assumes "uniq_inv s" "nextId s \<noteq> -1" "nextId u = nextId s + 1" "mset (given_ids u) = add_mset (nextId s) (mset (given_ids s))"
  shows "uniq_inv u"
proof -
  have b: "\<And>i. i \<in> set (given_ids s) \<Longrightarrow> 0 < i \<and> i < nextId s" "0 < nextId s" "distinct (given_ids s)"
    using assms(1) by (auto simp: uniq_inv_def)
  have "mset (given_ids u) = mset (nextId s # given_ids s)" using assms(4) by simp
  then have "distinct (given_ids u)" "set (given_ids u) = insert (nextId s) (set (given_ids s))"
    using b mset_eq_imp_distinct_iff [of "given_ids u" "nextId s # given_ids s"] mset_eq_setD [of "given_ids u" "nextId s # given_ids s"]
    by auto
  then show ?thesis using b word_less_succ [OF assms(2)] assms(3)
    by (auto simp: uniq_inv_def intro: less_trans)
qed

lemma ids_new [simp]: "future_getId future_state_new = None" "sv_getId sv_new = None"
  by (simp_all add: future_getId_def future_state_new_def sv_getId_def sv_new_def)

lemma mset_map_filter_update:
  "p < length xs \<Longrightarrow> f (xs ! p) = None \<Longrightarrow> f y = Some i \<Longrightarrow> mset (List.map_filter f (xs[p := y])) = add_mset i (mset (List.map_filter f xs))"
proof (induction xs arbitrary: p)
  case (Cons a xs)
  then show ?case by (cases p) (simp_all split: option.split)
qed simp

lemma call_step_uniq:
  fixes s s' :: "('f, 'a, 'e, 'k) sched"
  assumes inv: "sched_inv opens interest s" and u: "uniq_inv s" and n: "nextId s \<noteq> -1" and j: "j < length (calls s)"
    and e: "call_step K j (calls s ! j) s = Some s'"
  shows "uniq_inv s'"
proof -
  have ci: "calls_inv s" and f: "map_of (timers s) (nextId s) = None" "map_of (intervals s) (nextId s) = None"
    using next_fresh [of s] inv by (simp_all add: sched_inv_def)
  note at = calls_inv_at [OF ci j]
  have G: "image_mset snd (mset (gather g s')) + image_mset snd (mset (g (calls s ! j))) = image_mset snd (mset (gather g s)) + image_mset snd (mset (g c))"
    if "calls s' = (calls s)[j := c]" for c and g :: "call_pc \<Rightarrow> (nat \<times> u64) list"
    using arg_cong [OF gather_update [OF j that, of g], of "image_mset snd"] by simp
  show ?thesis
  proof (cases "calls s ! j")
    case (InsertTimer p h)
    with e f have "calls s' = (calls s)[j := StoreTimerId p (nextId s)]" "promises s' = promises s" "shareds s' = shareds s"
      "nextId s' = nextId s + 1" by (auto simp: insert_timer_def Let_def)
    with G [of _ call_pids, OF this(1)] G [of _ call_vids, OF this(1)] InsertTimer show ?thesis
      by (intro uniq_inv_add [OF u n]) (simp_all add: given_ids_def)
  next
    case (InsertInterval v h)
    with e f have "calls s' = (calls s)[j := StoreSharedId v (nextId s)]" "promises s' = promises s" "shareds s' = shareds s"
      "nextId s' = nextId s + 1" by (auto simp: insert_interval_def Let_def)
    with G [of _ call_pids, OF this(1)] G [of _ call_vids, OF this(1)] InsertInterval show ?thesis
      by (intro uniq_inv_add [OF u n]) (simp_all add: given_ids_def)
  next
    case (StoreTimerId p i)
    with e have s': "calls s' = (calls s)[j := CallReturned]" "promises s' = (promises s)[p := promise_setId i (promises s ! p)]"
      "shareds s' = shareds s" "nextId s' = nextId s" by (auto simp: store_timer_id_def)
    have "p < length (promises s)" "future_getId (promises s ! p) = None" using at(1) [of p] StoreTimerId by (auto simp: idSetted_getId)
    with s' G [of _ call_pids, OF s'(1)] G [of _ call_vids, OF s'(1)] StoreTimerId u show ?thesis
      by (intro uniq_inv_mset [OF u]) (simp_all add: given_ids_def mset_map_filter_update)
  next
    case (StoreSharedId v i)
    with e have s': "calls s' = (calls s)[j := CallReturned]" "shareds s' = (shareds s)[v := sv_setId i (shareds s ! v)]"
      "promises s' = promises s" "nextId s' = nextId s" by (auto simp: store_shared_id_def)
    have "v < length (shareds s)" "sv_getId (shareds s ! v) = None" using at(2) [of v] StoreSharedId by auto
    with s' G [of _ call_pids, OF s'(1)] G [of _ call_vids, OF s'(1)] StoreSharedId u show ?thesis
      by (intro uniq_inv_mset [OF u]) (simp_all add: given_ids_def mset_map_filter_update)
  next
    case (CallOnCancel oc)
    with e have s': "s' = call_goto j CallReturned (run_on_cancel oc s)" by simp
    have "gather call_pids s' = gather call_pids s" "gather call_vids s' = gather call_vids s"
      by (rule gather_update_same [OF j, where c = CallReturned]; simp add: s' CallOnCancel)+
    then show ?thesis
      by (intro uniq_inv_same [OF u]; cases oc) (simp_all add: s' given_ids_def run_on_cancel_def map_filter_update)
  qed (use e in simp)
qed

lemma given_ids_same:
  "promises s' = promises s \<Longrightarrow> shareds s' = shareds s \<Longrightarrow> calls s' = calls s \<Longrightarrow> given_ids s' = given_ids s"
  by (simp add: given_ids_def gather_def)

lemma schedule_begin_uniq:
  fixes s :: "('f, 'a, 'e, 'k) sched"
  assumes u: "uniq_inv s"
  shows "uniq_inv (schedule_begin K ms f s)"
proof -
  obtain r w where rw: "loop_createTimer K ms (Some (EnqueueTask (SetPromise (length (promises s)) f)))
      (s\<lparr>promises := promises s @ [future_state_new]\<rparr>) = (r, w)" by fastforce
  from rw sched_more [OF create_more(1) [OF rw]] show ?thesis
    by (intro uniq_inv_same [OF u]; cases r) (auto simp: schedule_begin_def given_ids_def gather_def Let_def)
qed

lemma scheduleInterval_begin_uniq:
  fixes s :: "('f, 'a, 'e, 'k) sched"
  assumes u: "uniq_inv s"
  shows "uniq_inv (scheduleInterval_begin K ms f s)"
proof -
  obtain r w where rw: "loop_createInterval K ms (Some (EnqueueTask (SetShared (length (shareds s)) f)))
      (s\<lparr>shareds := shareds s @ [sv_new]\<rparr>) = (r, w)" by fastforce
  from rw sched_more [OF create_more(2) [OF rw]] show ?thesis
    by (intro uniq_inv_same [OF u]; cases r) (auto simp: scheduleInterval_begin_def given_ids_def gather_def Let_def)
qed

lemma ts_init_uniq:
  fixes s s' :: "('f, 'a, 'e, 'k) sched"
  assumes u: "uniq_inv s" and i: "ts_init K s = Some (r, s')"
  shows "uniq_inv s'"
proof (cases "initialized s")
  case False
  obtain q w where qw: "loop_createInterval K 5000 (Some CleanTimers) (s\<lparr>loop_started := True, run_pc := LTest\<rparr>) = (q, w)"
    by fastforce
  from i False qw sched_more [OF create_more(2) [OF qw]] show ?thesis
    by (cases q) (auto simp: ts_init_def split: if_splits intro!: uniq_inv_same [OF u] given_ids_same)
qed (use i u in \<open>simp add: ts_init_def\<close>)

lemma cancel_begin_uniq:
  fixes s :: "('f, 'a, 'e, 'k) sched"
  assumes u: "uniq_inv s"
  shows "uniq_inv (cancel_begin K ido s)"
proof (cases ido)
  case None
  then show ?thesis by (intro uniq_inv_same [OF u]) (auto simp: cancel_begin_def given_ids_def)
next
  case (Some i)
  have d: "given_ids (drop_timer K y s) = given_ids s" "given_ids (drop_interval K y s) = given_ids s"
    "nextId (drop_timer K y s) = nextId s" "nextId (drop_interval K y s) = nextId s" for y
    by (simp_all add: given_ids_def gather_def) (simp_all add: drop_timer_def drop_interval_def)
  have push: "given_ids (t\<lparr>calls := calls s @ [c]\<rparr>) = given_ids t" if "call_pids c = []" "call_vids c = []" "calls t = calls s"
    for c and t :: "('f, 'a, 'e, 'k) sched" using that by (simp add: given_ids_def gather_def)
  show ?thesis
    using Some by (cases rule: erase_cases [of s i K]) (auto simp: cancel_begin_def push d intro: uniq_inv_same [OF u])
qed

lemma task_uniq:
  fixes s s' :: "('f, 'a, 'e, 'k) sched"
  assumes u: "uniq_inv s" and x: "sched_exec K (ATask t out) s = Some s'"
  shows "uniq_inv s'"
proof -
  have "given_ids s' = given_ids s" "nextId s' = nextId s"
    using x by (auto simp: pool_step_def task_effect_def given_ids_def gather_def map_filter_update
        split: if_splits list.splits option.splits stask.splits payload.splits)
  with u show ?thesis by (rule uniq_inv_same)
qed

lemma sched_exec_uniq:
  fixes s s' :: "('f, 'a, 'e, 'k) sched"
  assumes inv: "sched_inv opens interest s" and u: "uniq_inv s"
    and e: "sched_exec_ids K a s = Some s'"
  shows "uniq_inv s'"
proof -
  have n: "nextId s \<noteq> -1" and x: "sched_exec K a s = Some s'" using e by (auto simp: sched_exec_ids_def split: if_splits)
  show ?thesis
  proof (cases a)
    case (AExecute c f)
    with x have "given_ids s' = given_ids s" "nextId s' = nextId s"
      by (auto simp: execute_def enqueue_def Let_def given_ids_def gather_def split: if_splits)
    with u show ?thesis by (rule uniq_inv_same)
  next
    case (ASchedule ms f) with x schedule_begin_uniq [OF u] show ?thesis by auto
  next
    case (AScheduleInterval ms f) with x scheduleInterval_begin_uniq [OF u] show ?thesis by auto
  next
    case (ACancel ido) with x cancel_begin_uniq [OF u] show ?thesis by auto
  next
    case (ACall j) with x call_step_uniq [OF inv u n, of j] show ?thesis by (auto split: if_splits)
  next
    case ALoop
    with x have r: "run_step K s = Some s'" by (auto split: if_splits)
    from sched_more [OF run_step_more [OF r]] show ?thesis by (intro uniq_inv_same [OF u] given_ids_same)
  next
    case AInit with x ts_init_uniq [OF u] show ?thesis by auto
  next
    case ABody
    with x show ?thesis
      by (auto simp: enqueue_def split: loop_pc.splits option.splits sched_cb.splits if_splits
          intro!: uniq_inv_same [OF u] given_ids_same)
  next
    case (ATask t out) with x task_uniq [OF u] show ?thesis by blast
  qed (use x in \<open>auto simp: sched_stop_def stop_def pool_step_def split: loop_pc.splits if_splits
      intro!: uniq_inv_same [OF u] given_ids_same\<close>)
qed

subsection \<open>Reachable states\<close>

lemma sched_new_sel:
  assumes "sched_new K mn mx users k = Inr s"
  shows "events_map s = []" "fired_flags s = []" "run_pc s = LTest" "timers s = []" "intervals s = []" "timerCleaner s = None"
    "promises s = []" "shareds s = []" "nextId s = 1" "\<not> initialized s" "calls s = []"
    "spool s = pool_new (bbq_new taskQueueSize) mn mx (Suc users)" "k_epoll_create1 K k = (epollFd s, kern s)" "0 \<le> epollFd s"
  using assms
  by (auto simp: sched_new_def event_loop_new_def event_loop.defs sched.defs split: prod.splits if_splits)

lemma pool_new_tasks [simp]: "pool_tasks (pool_new (bbq_new c) mn mx users) = {#}"
  by (auto simp: pool_tasks_def in_progress_def pool_new_def createNThreads_def bbq_new_def)

lemma bbq_new_open [simp]: "\<not> m_closed (bbq_new c)"
  by (simp add: bbq_new_def)

lemma pool_new_sel [simp]: "dpc (pool_new q mn mx users) = DNone" "cpcs (pool_new q mn mx users) = replicate users CIdle"
  by (simp_all add: pool_new_def)

lemma sched_new_inv:
  fixes s :: "('f, 'a, 'e, 'k) sched"
  assumes L: "kernel_laws K opens interest" and c: "sched_new K mn mx users k = Inr s"
  shows "sched_inv opens interest s \<and> uniq_inv s"
proof -
  note N = sched_new_sel [OF c]
  note mk = law_create [where mk = "k_epoll_create1 K", OF L _ N(13), simplified]
  have "interest (epollFd s) (kern s) = {}" using mk(1,3) N(14) law_closed_interest [OF L] by metis
  with N mk(4) have "reg_inv opens interest s" by (auto simp: reg_inv_def)
  moreover have "tasks_inv s" using N
    by (auto simp: tasks_inv_def loop_callbacks_def)
  ultimately show ?thesis using N
    by (auto simp: sched_inv_def pc_inv_def handles_inv_def sched_handles_def cleaner_handles_def entry_handles_def
        ids_inv_def sched_ids_def links_inv_def calls_inv_def gather_def uniq_inv_def given_ids_def)
qed

interpretation tsi: invariant_system "\<lambda>s. kernel_laws K opens interest \<and> sched_init K s" "sched_exec_ids K"
    "\<lambda>s. kernel_laws K opens interest \<and> sched_inv opens interest s \<and> uniq_inv s"
  for K :: "'k kernel_ops" and opens :: "'k \<Rightarrow> int set" and interest :: "int \<Rightarrow> 'k \<Rightarrow> int set"
proof (unfold_locales, goal_cases)
  case (1 s)
  then obtain mn mx users k where "sched_new K mn mx users k = Inr s" unfolding sched_init_def by auto
  from sched_new_inv [OF conjunct1 [OF 1] this] 1 show ?case by simp
next
  case (2 s a s')
  then show ?case using sched_exec_inv [of K opens interest s a s'] sched_exec_uniq [of opens interest s K a s'] by simp
qed

lemma sched_reachable_inv:
  assumes "kernel_laws K opens interest" "reachable (sched_init K) (sched_exec_ids K) s"
  shows "sched_inv opens interest s" "uniq_inv s"
proof -
  have "reachable (\<lambda>s. kernel_laws K opens interest \<and> sched_init K s) (sched_exec_ids K) s"
    using assms by (blast intro: reachable_mono)
  then show "sched_inv opens interest s" "uniq_inv s" using tsi.reachable_inv by blast+
qed

end
