(* ===== verification/SchedulerContract.thy ===== *)
theory SchedulerContract
  imports SchedulerInvariant
begin

text \<open>
  What the scheduler promises: its maps, the loop and the kernel agree; a task given to \<open>execute\<close> is in
  exactly one place until it has run and its future is set exactly then; the first outcome of a future
  stays; what \<open>cancel\<close>, \<open>schedule\<close> and the clean-up do on every branch; a call executed section by section without interference does what
  its sequential definition says; the
  destructor closes every descriptor. Further: \<open>cancel\<close> discards a result that is ready, and the destructor
  leaves the futures of timers that have not fired pending.
\<close>

text \<open>What a step may do to a future; \<open>closing\<close> is that a cancellation is about to close it.\<close>

definition promise_moves :: "bool \<Rightarrow> ('a, 'e) future_state \<Rightarrow> ('a, 'e) future_state \<Rightarrow> bool" where
  "promise_moves closing x y \<longleftrightarrow> y = x \<or> closing \<and> y = promise_close x \<or> (\<exists>out. y = promise_set out x) \<or> (\<exists>i. y = promise_setId i x)"

section \<open>Lemmas\<close>

text \<open>Every step of the scheduler is a step of its pool or leaves the pool alone.\<close>

lemma task_effect_spool: "task_effect k out s = Some u \<Longrightarrow> spool u = spool s"
  by (auto simp: task_effect_def split: stask.splits payload.splits)

lemma enqueue_pool: "enqueue c k s = Some s' \<Longrightarrow> pool_exec bbq_ops (PCall c k) (spool s) = Some (spool s')"
  unfolding enqueue_def by (cases "pool_exec bbq_ops (PCall c k) (spool s)") auto

lemma insert_keeps:
  fixes s s' :: "('f, 'a, 'e, 'k) sched"
  shows "insert_timer K h oc s = (i, s') \<Longrightarrow> spool s' = spool s \<and> promises s' = promises s"
    and "insert_interval K h oc s = (i, s') \<Longrightarrow> spool s' = spool s \<and> promises s' = promises s"
  by (auto simp: insert_timer_def insert_interval_def Let_def)

lemma call_step_spool: "call_step K j c s = Some s' \<Longrightarrow> spool s' = spool s"
  by (cases c) (auto simp: store_timer_id_def store_shared_id_def split: prod.splits dest: insert_keeps)

lemma release_keeps [simp]:
  fixes s :: "('f, 'a, 'e, 'k) sched"
  shows "enqueuing (snd (handle_release K h s)) = enqueuing s" "loop_started (snd (handle_release K h s)) = loop_started s"
  by (simp_all add: handle_release_def unregisterEvent_def Let_def split: option.split)

lemma create_pc:
  "loop_createTimer K ms cb s = (r, u) \<Longrightarrow> run_pc u = run_pc s"
  "loop_createInterval K ms cb s = (r, u) \<Longrightarrow> run_pc u = run_pc s"
  using createTimer_frame(1) [of K ms cb s] create_frame(5) [of K ms cb s] by auto

text \<open>The calls of users other than \<open>execute\<close> touch neither the pool nor the thread of the loop.\<close>

lemma user_call_frame:
  fixes s s' :: "('f, 'a, 'e, 'k) sched"
  assumes x: "sched_exec K a s = Some s'"
    and a: "case a of ASchedule ms f \<Rightarrow> True | AScheduleInterval ms f \<Rightarrow> True | ACancel i \<Rightarrow> True | ACall j \<Rightarrow> True | AStop \<Rightarrow> True | _ \<Rightarrow> False"
  shows "spool s' = spool s \<and> run_pc s' = run_pc s \<and> enqueuing s' = enqueuing s \<and> loop_started s' = loop_started s"
proof (cases a)
  case (ASchedule ms f)
  with x show ?thesis using create_pc(1) sched_more(1,9,10) [OF create_more(1)]
    by (fastforce simp: schedule_begin_def Let_def split: prod.splits sum.splits)
next
  case (AScheduleInterval ms f)
  with x show ?thesis using create_pc(2) sched_more(1,9,10) [OF create_more(2)]
    by (fastforce simp: scheduleInterval_begin_def Let_def split: prod.splits sum.splits)
next
  case (ACancel ido)
  with x show ?thesis
    by (auto simp: cancel_begin_def erase_entry_def split: option.splits)
next
  case (ACall j)
  with x have "call_step K j (calls s ! j) s = Some s'" by (auto split: if_splits)
  then show ?thesis
    by (cases "calls s ! j")
      (auto simp: insert_timer_def insert_interval_def store_timer_id_def store_shared_id_def run_on_cancel_def call_goto_def
        Let_def split: option.splits on_cancel.splits if_splits)
qed (use a x in \<open>auto simp: sched_stop_def stop_def\<close>)

lemma sched_exec_pool:
  fixes s s' :: "('f, 'a, 'e, 'k) sched"
  assumes x: "sched_exec K a s = Some s'"
  shows "spool s' = spool s \<or> (\<exists>b. pool_exec bbq_ops b (spool s) = Some (spool s'))"
proof (cases a)
  case AInit
  with x show ?thesis using sched_more(1) [OF create_more(2)]
    by (fastforce simp: ts_init_def split: prod.splits sum.splits if_splits)
next
  case ALoop
  with x sched_more(1) [OF run_step_more, of K s s'] show ?thesis by (auto split: if_splits)
next
  case ABody
  with x show ?thesis
    by (auto simp del: pool_exec.simps split: loop_pc.splits option.splits sched_cb.splits if_splits dest!: enqueue_pool)
next
  case (AExecute c f)
  with x show ?thesis
    by (auto simp: execute_def Let_def simp del: pool_exec.simps split: if_splits dest!: enqueue_pool)
next
  case (ATask t out)
  with x show ?thesis using task_effect_spool
    by (fastforce simp: pool_step_def simp del: pool_exec.simps split: if_splits list.splits option.splits)
next
  case ABodyEnd
  with x show ?thesis by (auto split: loop_pc.splits)
next
  case (APool b)
  with x show ?thesis by (auto simp: pool_step_def simp del: pool_exec.simps split: if_splits)
qed (use user_call_frame [OF x] in simp_all)

lemma sched_reachable_pool:
  fixes s :: "('f, 'a, 'e, 'k) sched"
  assumes "reachable (sched_init K) (sched_exec K) s"
  shows "reachable pool_init (pool_exec bbq_ops) (spool s)"
  using assms
proof (induction rule: reachable.induct)
  case (start s)
  then show ?case using sched_new_sel(12) by (force simp: sched_init_def pool_init_def intro: reachable.start)
next
  case (step s a s')
  then show ?case using sched_exec_pool [OF step.hyps(2)] by (metis reachable.step)
qed

subsection \<open>What the operations do to futures\<close>

lemma id_unique:
  assumes "uniq_inv s" "promise_has_id s p i"
  shows "promise_has_id s q i \<Longrightarrow> q = p" and "\<not> shared_has_id s v i"
proof -
  let ?A = "List.map_filter future_getId (promises s)" and ?B = "List.map_filter sv_getId (shareds s)"
    and ?C = "gather call_pids s" and ?D = "gather call_vids s"
  have d: "distinct ?A" "distinct (map snd ?C)" "set ?A \<inter> set (map snd ?C) = {}" "set ?A \<inter> set ?B = {}" "set ?A \<inter> set (map snd ?D) = {}"
    "set ?B \<inter> set (map snd ?C) = {}" "set (map snd ?C) \<inter> set (map snd ?D) = {}"
    using assms(1) by (auto simp: uniq_inv_def given_ids_def)
  have A: "i \<in> set ?A" if "x < length (promises s)" "future_getId (promises s ! x) = Some i" for x
    using set_map_filter_nth [where f = future_getId, OF that] .
  have B: "i \<in> set ?B" if "x < length (shareds s)" "sv_getId (shareds s ! x) = Some i" for x
    using set_map_filter_nth [where f = sv_getId, OF that] .
  have C: "i \<in> set (map snd ?C)" if "(x, i) \<in> set ?C" for x using that by force
  have D: "i \<in> set (map snd ?D)" if "(x, i) \<in> set ?D" for x using that by force
  have CC: "x = y" if "(x, i) \<in> set ?C" "(y, i) \<in> set ?C" for x y
    using that d(2) inj_onD [of snd "set ?C" "(x, i)" "(y, i)"] by (simp add: distinct_map)
  show "\<not> shared_has_id s v i"
    using assms(2) A B C D d unfolding promise_has_id_def shared_has_id_def by blast
  show "promise_has_id s q i \<Longrightarrow> q = p"
    using assms(2) A C CC d distinct_map_filter_inj [OF d(1), of q p i] unfolding promise_has_id_def by blast
qed

lemma shared_id_unique:
  assumes "uniq_inv s" "shared_has_id s v i"
  shows "shared_has_id s w i \<Longrightarrow> w = v"
proof -
  let ?B = "List.map_filter sv_getId (shareds s)" and ?D = "gather call_vids s"
  have d: "distinct ?B" "distinct (map snd ?D)" "set ?B \<inter> set (map snd ?D) = {}"
    using assms(1) by (auto simp: uniq_inv_def given_ids_def)
  have B: "i \<in> set ?B" if "x < length (shareds s)" "sv_getId (shareds s ! x) = Some i" for x
    using set_map_filter_nth [where f = sv_getId, OF that] .
  have D: "i \<in> set (map snd ?D)" if "(x, i) \<in> set ?D" for x using that by force
  have DD: "x = y" if "(x, i) \<in> set ?D" "(y, i) \<in> set ?D" for x y
    using that d(2) inj_onD [of snd "set ?D" "(x, i)" "(y, i)"] by (simp add: distinct_map)
  show "shared_has_id s w i \<Longrightarrow> w = v"
    using assms(2) B D DD d distinct_map_filter_inj [OF d(1), of w v i] unfolding shared_has_id_def by blast
qed

lemma update_unique:
  assumes "p < length xs" "P p" "\<And>q. q < length xs \<Longrightarrow> P q \<Longrightarrow> q = p"
  shows "xs[p := g (xs ! p)] = map (\<lambda>q. if P q then g (xs ! q) else xs ! q) [0..<length xs]"
proof (rule nth_equalityI)
  fix q assume "q < length (xs[p := g (xs ! p)])"
  then have q: "q < length xs" by simp
  show "xs[p := g (xs ! p)] ! q = map (\<lambda>q. if P q then g (xs ! q) else xs ! q) [0..<length xs] ! q"
  proof (cases "q = p")
    case True
    with assms(2) q show ?thesis by simp
  next
    case False
    then have "\<not> P q" using assms(3) [OF q] by blast
    with False q show ?thesis by simp
  qed
qed simp

text \<open>Closing the object of an entry closes the object that has its identifier.\<close>

lemma run_on_cancel_link:
  assumes u: "uniq_inv s" and l: "timer_link s (i, h, oc) \<or> interval_link s (i, h, oc)"
    and t: "promises t = promises s" "shareds t = shareds s"
  shows "promises (run_on_cancel oc t) = map (\<lambda>p. if promise_has_id s p i then promise_close (promises s ! p) else promises s ! p) [0..<length (promises s)]"
    and "shareds (run_on_cancel oc t) = map (\<lambda>v. if shared_has_id s v i then sv_close (shareds s ! v) else shareds s ! v) [0..<length (shareds s)]"
proof -
  have same: "xs = map (\<lambda>q. if P q then g (xs ! q) else xs ! q) [0..<length xs]" if "\<And>q. q < length xs \<Longrightarrow> \<not> P q"
    for P g and xs :: "'z list" using that by (intro nth_equalityI) auto
  have "promises (run_on_cancel oc t) = map (\<lambda>p. if promise_has_id s p i then promise_close (promises s ! p) else promises s ! p) [0..<length (promises s)] \<and>
      shareds (run_on_cancel oc t) = map (\<lambda>v. if shared_has_id s v i then sv_close (shareds s ! v) else shareds s ! v) [0..<length (shareds s)]"
    using l
  proof
    assume "timer_link s (i, h, oc)"
    then obtain p where p: "oc = ClosePromise p" "promise_has_id s p i" by (auto simp: timer_link_def)
    then have "(promises s)[p := promise_close (promises s ! p)] =
        map (\<lambda>p. if promise_has_id s p i then promise_close (promises s ! p) else promises s ! p) [0..<length (promises s)]"
      by (intro update_unique [where P = "\<lambda>p. promise_has_id s p i"])
        (simp add: promise_has_id_def, rule p(2), rule id_unique(1) [OF u p(2)])
    with p t same [of "shareds s" "\<lambda>v. shared_has_id s v i"] id_unique(2) [OF u p(2)] show ?thesis
      by (simp add: run_on_cancel_def)
  next
    assume "interval_link s (i, h, oc)"
    then obtain v where v: "oc = CloseShared v" "shared_has_id s v i" by (auto simp: interval_link_def)
    then have "(shareds s)[v := sv_close (shareds s ! v)] =
        map (\<lambda>v. if shared_has_id s v i then sv_close (shareds s ! v) else shareds s ! v) [0..<length (shareds s)]"
      by (intro update_unique [where P = "\<lambda>v. shared_has_id s v i"])
        (simp add: shared_has_id_def, rule v(2), rule shared_id_unique [OF u v(2)])
    with v t same [of "promises s" "\<lambda>p. promise_has_id s p i"] id_unique(2) [OF u] show ?thesis
      by (auto simp: run_on_cancel_def)
  qed
  then show "promises (run_on_cancel oc t) = map (\<lambda>p. if promise_has_id s p i then promise_close (promises s ! p) else promises s ! p) [0..<length (promises s)]"
    "shareds (run_on_cancel oc t) = map (\<lambda>v. if shared_has_id s v i then sv_close (shareds s ! v) else shareds s ! v) [0..<length (shareds s)]" by auto
qed

lemma run_on_cancel_promise:
  assumes "p < length (promises t)"
  shows "length (promises (run_on_cancel oc t)) = length (promises t) \<and>
    (promises (run_on_cancel oc t) ! p = promises t ! p \<or>
     oc = ClosePromise p \<and> promises (run_on_cancel oc t) ! p = promise_close (promises t ! p))"
proof (cases oc)
  case (ClosePromise q)
  with assms show ?thesis by (cases "q = p") (simp_all add: run_on_cancel_def)
qed (simp add: run_on_cancel_def)

text \<open>One step on one future: nothing, a result, a close, an identifier.\<close>

lemma call_step_promise:
  assumes c: "call_step K j c s = Some s'" and p: "p < length (promises s)"
  shows "length (promises s') = length (promises s) \<and> promise_moves (c = CallOnCancel (ClosePromise p)) (promises s ! p) (promises s' ! p)"
proof (cases c)
  case (StoreTimerId q i)
  with c p show ?thesis by (cases "q = p") (auto simp: promise_moves_def store_timer_id_def)
next
  case (CallOnCancel oc)
  with c p run_on_cancel_promise [OF p, of oc] show ?thesis by (auto simp: promise_moves_def)
qed (use c p in \<open>auto simp: promise_moves_def store_shared_id_def split: prod.splits dest: insert_keeps\<close>)

lemma task_effect_promise:
  assumes "task_effect k out s = Some u" "p < length (promises s)"
  shows "length (promises u) = length (promises s) \<and> promise_moves b (promises s ! p) (promises u ! p)"
proof (cases k)
  case (SetPromise q f)
  with assms show ?thesis by (cases "q = p") (auto simp: task_effect_def promise_moves_def)
qed (use assms in \<open>auto simp: task_effect_def promise_moves_def split: payload.splits\<close>)

lemma sched_exec_promise:
  fixes s s' :: "('f, 'a, 'e, 'k) sched"
  assumes x: "sched_exec K a s = Some s'" and p: "p < length (promises s)"
  shows "p < length (promises s') \<and> promise_moves (CallOnCancel (ClosePromise p) \<in> set (calls s)) (promises s ! p) (promises s' ! p)"
proof (cases a)
  case (ASchedule ms f)
  then show ?thesis using x p sched_more(2) [OF create_more(1)]
    by (fastforce simp: schedule_begin_def promise_moves_def Let_def nth_append split: prod.splits sum.splits)
next
  case (AScheduleInterval ms f)
  then show ?thesis using x p sched_more(2) [OF create_more(2)]
    by (fastforce simp: scheduleInterval_begin_def promise_moves_def Let_def split: prod.splits sum.splits)
next
  case (ACancel ido)
  have "promises (snd (erase_entry K i s)) = promises s" for i by (simp add: erase_entry_def split: option.split)
  then have "promises s' = promises s" using x ACancel
    by (auto simp: cancel_begin_def split: option.splits prod.splits) (metis snd_conv)+
  with p show ?thesis by (simp add: promise_moves_def)
next
  case (ACall j)
  then have j: "j < length (calls s)" "call_step K j (calls s ! j) s = Some s'" using x by (auto split: if_splits)
  have "CallOnCancel (ClosePromise p) \<in> set (calls s)" if "calls s ! j = CallOnCancel (ClosePromise p)"
    using j(1) that by (metis nth_mem)
  with call_step_promise [OF j(2) p] p show ?thesis by (auto simp: promise_moves_def)
next
  case AInit
  with x p show ?thesis using sched_more(2) [OF create_more(2)]
    by (fastforce simp: ts_init_def promise_moves_def split: prod.splits sum.splits if_splits)
next
  case ALoop
  with x p sched_more(2) [OF run_step_more, of K s s'] show ?thesis by (auto simp: promise_moves_def split: if_splits)
next
  case (AExecute c f)
  with x p show ?thesis by (auto simp: execute_def enqueue_def promise_moves_def Let_def nth_append split: if_splits)
next
  case (ATask t out)
  then obtain k u where "task_effect k out s = Some u" "promises s' = promises u"
    using x by (auto simp: pool_step_def split: if_splits list.splits option.splits)
  with task_effect_promise [of k out s u p] p show ?thesis by simp
qed (use x p in \<open>auto simp: promise_moves_def sched_stop_def stop_def pool_step_def enqueue_def
    split: loop_pc.splits option.splits sched_cb.splits if_splits\<close>)

lemma promise_set_blocked: "blocked x \<Longrightarrow> promise_set out x = x"
  by (simp add: promise_set_def claim_def)

lemma moves_blocked:
  assumes "promise_moves closing x y" "blocked x"
  shows "blocked y" "result y = result x" "status y = status x \<or> closing"
  using assms by (auto simp: promise_moves_def promise_set_blocked)

text \<open>Where a call that will close a future comes from.\<close>

lemma on_cancel_origin:
  fixes s s' :: "('f, 'a, 'e, 'k) sched"
  assumes inv: "sched_inv opens interest s" and x: "sched_exec K a s = Some s'"
    and c: "CallOnCancel (ClosePromise p) \<in> set (calls s')"
  shows "CallOnCancel (ClosePromise p) \<in> set (calls s) \<or> (\<exists>i. a = ACancel (Some i) \<and> promise_has_id s p i)"
proof (cases a)
  case (ASchedule ms f)
  then show ?thesis using x c sched_more(11) [OF create_more(1)]
    by (fastforce simp: schedule_begin_def Let_def split: prod.splits sum.splits)
next
  case (AScheduleInterval ms f)
  then show ?thesis using x c sched_more(11) [OF create_more(2)]
    by (fastforce simp: scheduleInterval_begin_def Let_def split: prod.splits sum.splits)
next
  case (ACancel ido)
  show ?thesis
  proof (cases ido)
    case None
    with ACancel x c show ?thesis by (auto simp: cancel_begin_def)
  next
    case (Some i)
    have l: "(i, e) \<in> set (timers s) \<Longrightarrow> timer_link s (i, e)" "(i, e) \<in> set (intervals s) \<Longrightarrow> interval_link s (i, e)" for e
      using inv by (auto simp: sched_inv_def links_inv_def)
    show ?thesis
    proof (cases rule: erase_cases [of s i K])
      case (timer h oc)
      with ACancel Some x c l(1) [OF map_of_SomeD [OF timer(1)]] show ?thesis
        by (auto simp: cancel_begin_def timer_link_def)
    next
      case (interval h oc)
      with ACancel Some x c l(2) [OF map_of_SomeD [OF interval(2)]] show ?thesis
        by (auto simp: cancel_begin_def interval_link_def)
    next
      case missing
      with ACancel Some x c show ?thesis by (auto simp: cancel_begin_def)
    qed
  qed
next
  case (ACall j)
  then have j: "call_step K j (calls s ! j) s = Some s'" using x by (auto split: if_splits)
  have "\<exists>d. calls s' = (calls s)[j := d] \<and> d \<noteq> CallOnCancel (ClosePromise p)"
    using j by (cases "calls s ! j")
      (auto simp: insert_timer_def insert_interval_def store_timer_id_def store_shared_id_def call_goto_def run_on_cancel_def Let_def
        split: prod.splits on_cancel.splits if_splits)
  with c show ?thesis by (auto dest: set_update_cases)
next
  case AInit
  with x c show ?thesis using sched_more(11) [OF create_more(2)]
    by (fastforce simp: ts_init_def split: prod.splits sum.splits if_splits)
next
  case ALoop
  with x c sched_more(11) [OF run_step_more, of K s s'] show ?thesis by (auto split: if_splits)
next
  case (AExecute t f)
  with x c show ?thesis by (auto simp: execute_def enqueue_def Let_def split: if_splits)
next
  case (ATask t out)
  with x c show ?thesis
    by (auto simp: pool_step_def task_effect_def split: if_splits list.splits option.splits stask.splits payload.splits)
qed (use x c in \<open>auto simp: sched_stop_def stop_def pool_step_def enqueue_def
    split: loop_pc.splits option.splits sched_cb.splits if_splits\<close>)

lemma sched_run_outcome:
  fixes s s' :: "('f, 'a, 'e, 'k) sched"
  assumes L: "kernel_laws K opens interest"
  shows "sched_inv opens interest s \<Longrightarrow> run (sched_exec_ids K) as s = Some s' \<Longrightarrow> p < length (promises s) \<Longrightarrow> blocked (promises s ! p) \<Longrightarrow>
    p < length (promises s') \<and> blocked (promises s' ! p) \<and> result (promises s' ! p) = result (promises s ! p) \<and>
    (status (promises s' ! p) = status (promises s ! p) \<or> CallOnCancel (ClosePromise p) \<in> set (calls s) \<or>
     (\<exists>bs i cs u. as = bs @ ACancel (Some i) # cs \<and> run (sched_exec_ids K) bs s = Some u \<and> promise_has_id u p i))"
proof (induction as arbitrary: s)
  case (Cons a as)
  then obtain u where u: "sched_exec_ids K a s = Some u" "run (sched_exec_ids K) as u = Some s'" by (auto split: option.splits)
  then have x: "sched_exec K a s = Some u" "nextId s \<noteq> -1" by (auto simp: sched_exec_ids_def split: if_splits)
  note M = sched_exec_promise [OF x(1) Cons.prems(3)]
  note B = moves_blocked [OF conjunct2 [OF M] Cons.prems(4)]
  have "sched_inv opens interest u" using sched_exec_inv [OF L Cons.prems(1) u(1)] .
  note IH = Cons.IH [OF this u(2) conjunct1 [OF M] B(1)]
  consider "status (promises s' ! p) = status (promises s ! p)" | "CallOnCancel (ClosePromise p) \<in> set (calls s)"
    | "CallOnCancel (ClosePromise p) \<in> set (calls u)"
    | bs i cs v where "as = bs @ ACancel (Some i) # cs" "run (sched_exec_ids K) bs u = Some v" "promise_has_id v p i"
    using IH B(3) by auto
  then have "status (promises s' ! p) = status (promises s ! p) \<or> CallOnCancel (ClosePromise p) \<in> set (calls s) \<or>
     (\<exists>bs i cs u. a # as = bs @ ACancel (Some i) # cs \<and> run (sched_exec_ids K) bs s = Some u \<and> promise_has_id u p i)"
  proof cases
    case 3
    then consider "CallOnCancel (ClosePromise p) \<in> set (calls s)" | i where "a = ACancel (Some i)" "promise_has_id s p i"
      using on_cancel_origin [OF Cons.prems(1) x(1)] by blast
    then show ?thesis
    proof cases
      case (2 i)
      then have "a # as = [] @ ACancel (Some i) # as" "run (sched_exec_ids K) [] s = Some s" by simp_all
      with 2 show ?thesis by blast
    qed simp
  next
    case (4 bs i cs v)
    then have "a # as = (a # bs) @ ACancel (Some i) # cs" "run (sched_exec_ids K) (a # bs) s = Some v" using u(1) by simp_all
    with 4 show ?thesis by blast
  qed simp_all
  with IH B(2) show ?case by simp
qed simp

lemma cancel_cases:
  fixes s :: "('f, 'a, 'e, 'k) sched"
  obtains (timer) i h oc where "ido = Some i" "map_of (timers s) i = Some (h, oc)"
      "cancel K ido s = (True, run_on_cancel oc (drop_timer K (i, h, oc) s))"
  | (interval) i h oc where "ido = Some i" "map_of (timers s) i = None" "map_of (intervals s) i = Some (h, oc)"
      "cancel K ido s = (True, run_on_cancel oc (drop_interval K (i, h, oc) s))"
  | (missing) "cancel K ido s = (False, s)" "case ido of None \<Rightarrow> True | Some i \<Rightarrow> i \<notin> set (sched_ids s)"
proof (cases ido)
  case (Some i)
  show thesis
    by (cases rule: erase_cases [of s i K])
      (use Some timer [of i] interval [of i] missing in \<open>auto simp: cancel_def\<close>)
qed (auto simp: cancel_def intro: missing)

text \<open>What dropping an entry does to the identifiers and to the kernel.\<close>

lemma drop_entry:
  fixes s u :: "('f, 'a, 'e, 'k) sched"
  assumes L: "kernel_laws K opens interest" and inv: "sched_inv opens interest s"
    and e: "(i, h, oc) \<in> set (timers s) \<and> u = drop_timer K (i, h, oc) s \<or> (i, h, oc) \<in> set (intervals s) \<and> u = drop_interval K (i, h, oc) s"
  shows "set (sched_ids u) = set (sched_ids s) - {i}" "epollFd u = epollFd s" "promises u = promises s" "shareds u = shareds s"
    "opens (kern u) = opens (kern s) - (interest (epollFd s) (kern s) - interest (epollFd s) (kern u))"
proof -
  have d: "distinct (sched_ids s)" using inv by (simp add: sched_inv_def ids_inv_def)
  have h: "h \<in> set (sched_handles s)" using e by (force simp: sched_handles_def entry_handles_def)
  have fd: "handle_fd h \<in> interest (epollFd s) (kern s)"
    using sched_fds_keys [OF inv] h inv by (auto simp: sched_inv_def reg_inv_def)
  have del: "fst ` set (AList.delete i xs) = fst ` set xs - {i}" for xs :: "(u64 \<times> sched_entry) list"
    by (auto simp: AList.delete_eq image_iff)
  have i: "(i, h, oc) \<in> set (timers s) \<Longrightarrow> i \<notin> fst ` set (intervals s)" "(i, h, oc) \<in> set (intervals s) \<Longrightarrow> i \<notin> fst ` set (timers s)"
    using d by (auto simp: sched_ids_def) (metis IntI empty_iff fst_conv imageI)+
  have r0: "reg_inv opens interest (s\<lparr>timers := AList.delete i (timers s)\<rparr>)"
    "reg_inv opens interest (s\<lparr>intervals := AList.delete i (intervals s)\<rparr>)"
    using inv by (simp_all add: sched_inv_def reg_inv_def)
  note T = sched_release [OF L inv h r0(1) _ _ _ drop_timer_def [of K "(i, h, oc)" s, unfolded fst_conv snd_conv], simplified]
    and V = sched_release [OF L inv h r0(2) _ _ _ drop_interval_def [of K "(i, h, oc)" s, unfolded fst_conv snd_conv], simplified]
  note MT = sched_more [OF T(6)] and MV = sched_more [OF V(6)]
  show "set (sched_ids u) = set (sched_ids s) - {i}" using e
  proof (elim disjE conjE)
    assume "(i, h, oc) \<in> set (timers s)" "u = drop_timer K (i, h, oc) s"
    then show ?thesis using i(1) MT(4,5) del by (simp add: sched_ids_def Un_Diff)
  next
    assume "(i, h, oc) \<in> set (intervals s)" "u = drop_interval K (i, h, oc) s"
    then show ?thesis using i(2) MV(4,5) del by (simp add: sched_ids_def Un_Diff)
  qed
  show "epollFd u = epollFd s" "promises u = promises s" "shareds u = shareds s"
    using e T(3) V(3) MT(2,3) MV(2,3) by auto
  have "opens (kern u) = opens (kern s) - {handle_fd h}" "interest (epollFd s) (kern u) = interest (epollFd s) (kern s) - {handle_fd h}"
    using e T(8,9) V(8,9) by auto
  with fd show "opens (kern u) = opens (kern s) - (interest (epollFd s) (kern s) - interest (epollFd s) (kern u))" by auto
qed

text \<open>The new state of \<open>schedule\<close>, with what the loop did.\<close>

lemma schedule_state:
  fixes s :: "('f, 'a, 'e, 'k) sched"
  assumes inv: "ids_inv s" and c: "loop_createTimer K ms (Some (EnqueueTask (SetPromise (length (promises s)) f)))
      (s\<lparr>promises := promises s @ [future_state_new]\<rparr>) = (r, u)"
    and m: "event_loop.more u = event_loop.more (s\<lparr>promises := promises s @ [future_state_new]\<rparr>)"
  shows "snd (schedule K ms f s) =
    (case r of
       Inl e \<Rightarrow> u\<lparr>promises := promises s @ [promise_close future_state_new]\<rparr>
     | Inr h \<Rightarrow> u\<lparr>nextId := nextId s + 1, timers := timers s @ [(nextId s, h, ClosePromise (length (promises s)))],
         promises := promises s @ [promise_setId (nextId s) future_state_new]\<rparr>)"
  using c next_fresh [OF inv] sched_more [OF m]
  by (simp add: schedule_def sched_createTimer_def insert_timer_def store_timer_id_def Let_def split: sum.split)

lemma sched_promise_inv:
  assumes "kernel_laws K opens interest" "reachable (sched_init K) (sched_exec_ids K) s" "p < length (promises s)"
  shows "promise_inv (timed s p) (spool s) p (promises s ! p)"
  using sched_reachable_inv(1) [OF assms(1,2)] assms(3) by (auto simp: sched_inv_def tasks_inv_def)

lemma release_all_opens:
  fixes s :: "('f, 'a, 'e, 'k) sched"
  assumes L: "kernel_laws K opens interest"
  shows "opens (kern (release_all K hs s)) = opens (kern s) - handle_fd ` {h \<in> set hs. owns h} \<and>
    epollFd (release_all K hs s) = epollFd s \<and> promises (release_all K hs s) = promises s \<and> shareds (release_all K hs s) = shareds s"
proof (induction hs arbitrary: s)
  case (Cons h hs)
  obtain h' u where r: "handle_release K h s = (h', u)" by (cases "handle_release K h s")
  note R = handle_release_effect [OF L r] and M = sched_more [OF handle_release_effect(11) [OF L r]]
  show ?case using Cons.IH [of u] R(6,7) M r by (auto simp: release_all_def)
qed (simp add: release_all_def)

lemma sample_sched_init: "sched_init sk_ops (sample_sched ready room)"
proof -
  have "sched_new sk_ops 1 2 1 \<lparr>sk_opens = [0, 1, 2], sk_interest = [], sk_ready = ready, sk_room = room, sk_fds = 8\<rparr> =
      Inr (sample_sched ready room)"
    by (simp add: sched_new_def event_loop_new_def sk_ops_def sk_create_def sample_sched_def event_loop.defs sched.defs eval_nat_numeral)
  then show ?thesis unfolding sched_init_def by blast
qed

lemma sample_sched_reachable:
  "run (sched_exec_ids sk_ops) as (sample_sched ready room) = Some s \<Longrightarrow> reachable (sched_init sk_ops) (sched_exec_ids sk_ops) s"
  using run_reachable reachable.start sample_sched_init by metis

subsection \<open>Calls without interference\<close>

lemma release_calls [simp]:
  fixes s :: "('f, 'a, 'e, 'k) sched"
  shows "snd (handle_release K h (s\<lparr>calls := c\<rparr>)) = (snd (handle_release K h s))\<lparr>calls := c\<rparr>"
    and "snd (handle_release K h (s\<lparr>calls := c, nextId := i\<rparr>)) = (snd (handle_release K h (s\<lparr>nextId := i\<rparr>)))\<lparr>calls := c\<rparr>"
  by (simp_all add: handle_release_def unregisterEvent_def Let_def split: option.split)

lemma insert_calls [simp]:
  fixes s :: "('f, 'a, 'e, 'k) sched"
  shows "insert_timer K h oc (s\<lparr>calls := c\<rparr>) = apsnd (calls_update (\<lambda>_. c)) (insert_timer K h oc s)"
    and "insert_interval K h oc (s\<lparr>calls := c\<rparr>) = apsnd (calls_update (\<lambda>_. c)) (insert_interval K h oc s)"
  by (simp_all add: insert_timer_def insert_interval_def Let_def apsnd_def)

lemma solo_schedule:
  fixes s :: "('f, 'a, 'e, 'k) sched"
  shows "\<exists>n. run (sched_exec K) (ASchedule ms f # replicate n (ACall (length (calls s)))) s =
    Some ((snd (schedule K ms f s))\<lparr>calls := calls s @ [CallReturned]\<rparr>)"
proof -
  let ?p = "length (promises s)" and ?s1 = "s\<lparr>promises := promises s @ [future_state_new]\<rparr>"
  obtain r u where ru: "loop_createTimer K ms (Some (EnqueueTask (SetPromise ?p f))) ?s1 = (r, u)"
    by (cases "loop_createTimer K ms (Some (EnqueueTask (SetPromise ?p f))) ?s1")
  note M = sched_more [OF create_more(1) [OF ru]]
  show ?thesis
  proof (cases r)
    case (Inl e)
    with ru M show ?thesis
      by (intro exI [of _ 0]) (simp add: schedule_begin_def schedule_def sched_createTimer_def Let_def)
  next
    case (Inr h)
    obtain i v where iv: "insert_timer K h (ClosePromise ?p) u = (i, v)" by fastforce
    with Inr ru M show ?thesis
      by (intro exI [of _ 2])
        (simp add: numeral_2_eq_2 schedule_begin_def schedule_def sched_createTimer_def store_timer_id_def call_goto_def Let_def)
  qed
qed

lemma solo_scheduleInterval:
  fixes s :: "('f, 'a, 'e, 'k) sched"
  shows "\<exists>n. run (sched_exec K) (AScheduleInterval ms f # replicate n (ACall (length (calls s)))) s =
    Some ((snd (scheduleInterval K ms f s))\<lparr>calls := calls s @ [CallReturned]\<rparr>)"
proof -
  let ?v = "length (shareds s)" and ?s1 = "s\<lparr>shareds := shareds s @ [sv_new]\<rparr>"
  obtain r u where ru: "loop_createInterval K ms (Some (EnqueueTask (SetShared ?v f))) ?s1 = (r, u)"
    by (cases "loop_createInterval K ms (Some (EnqueueTask (SetShared ?v f))) ?s1")
  note M = sched_more [OF create_more(2) [OF ru]]
  show ?thesis
  proof (cases r)
    case (Inl e)
    with ru M show ?thesis
      by (intro exI [of _ 0]) (simp add: scheduleInterval_begin_def scheduleInterval_def sched_createInterval_def Let_def)
  next
    case (Inr h)
    obtain i v where iv: "insert_interval K h (CloseShared ?v) u = (i, v)" by fastforce
    with Inr ru M show ?thesis
      by (intro exI [of _ 2])
        (simp add: numeral_2_eq_2 scheduleInterval_begin_def scheduleInterval_def sched_createInterval_def store_shared_id_def call_goto_def Let_def)
  qed
qed

lemma solo_cancel:
  fixes s :: "('f, 'a, 'e, 'k) sched"
  shows "\<exists>n. run (sched_exec K) (ACancel ido # replicate n (ACall (length (calls s)))) s =
    Some ((snd (cancel K ido s))\<lparr>calls := calls s @ [CallReturned]\<rparr>)"
proof (cases ido)
  case None
  then show ?thesis by (intro exI [of _ 0]) (simp add: cancel_begin_def cancel_def)
next
  case (Some i)
  obtain r u where e: "erase_entry K i s = (r, u)" by (cases "erase_entry K i s")
  have c: "calls u = calls s" using e by (auto simp: erase_entry_def split: option.splits)
  show ?thesis
  proof (cases r)
    case None
    with Some e c show ?thesis by (intro exI [of _ 0]) (simp add: cancel_begin_def cancel_def)
  next
    case (Some oc)
    with \<open>ido = Some i\<close> e c show ?thesis
      by (intro exI [of _ 1]; cases oc) (simp_all add: cancel_begin_def cancel_def run_on_cancel_def call_goto_def)
  qed
qed

section \<open>Properties\<close>

text \<open>C1. In every reachable state, as long as the counter of identifiers has not wrapped: timers and intervals
  have different identifiers, all below the next one, and no identifier was given twice; the
  descriptors the kernel watches are exactly those of the handles that the scheduler and the calls
  in progress hold, each held once; and every entry belongs to one future or shared value that has
  its identifier or is about to get it, and to the callback that enqueues the task of that object.\<close>

theorem sched_consistent:
  assumes "kernel_laws K opens interest" "reachable (sched_init K) (sched_exec_ids K) s"
  shows "distinct (sched_ids s) \<and> (\<forall>i \<in> set (sched_ids s). 0 < i \<and> i < nextId s) \<and>
    distinct (given_ids s) \<and>
    handle_fd ` set (sched_handles s) = interest (epollFd s) (kern s) \<and> distinct (map handle_fd (sched_handles s)) \<and>
    (\<forall>e \<in> set (timers s). timer_link s e) \<and> (\<forall>e \<in> set (intervals s). interval_link s e)"
proof -
  note I = sched_reachable_inv [OF assms]
  have "fst ` set (events_map s) = interest (epollFd s) (kern s)" using I(1) by (simp add: sched_inv_def reg_inv_def)
  with I sched_fds_keys [OF I(1)] sched_fds_distinct [OF I(1)] show ?thesis
    by (auto simp: sched_inv_def ids_inv_def links_inv_def uniq_inv_def)
qed

theorem sched_consistent_witness:
  "\<exists>s. run (sched_exec_ids sk_ops) timer_run (sample_sched [[5]] 9) = Some s \<and> sched_ids s = [1] \<and> length (sched_handles s) = 2 \<and>
     handle_fd ` set (sched_handles s) = sk_interest_set (epollFd s) (kern s)"
proof -
  have "map_option (\<lambda>s. (sched_ids s, length (sched_handles s))) (run (sched_exec_ids sk_ops) timer_run (sample_sched [[5]] 9)) = Some ([1], 2)"
    by code_simp
  then obtain s where s: "run (sched_exec_ids sk_ops) timer_run (sample_sched [[5]] 9) = Some s" "sched_ids s = [1]"
    "length (sched_handles s) = 2" by auto
  from sched_consistent [OF sk_laws sample_sched_reachable [OF s(1)]] s show ?thesis by auto
qed

text \<open>C5. Exactly once: the task of a future of \<open>execute\<close> (not of \<open>schedule\<close>, and not closed) is in exactly one
  place, on its way into the queue, in the queue, with one worker, or completed; and the future is ready
  exactly when its task is completed.\<close>

theorem sched_execute_exactly_once:
  assumes "kernel_laws K opens interest" "reachable (sched_init K) (sched_exec_ids K) s" "p < length (promises s)"
    and "\<not> timed s p" "status (promises s ! p) \<noteq> Closed"
  shows "places p (pool_tasks (spool s)) = 1 \<and>
    (future_isReady (promises s ! p) \<longleftrightarrow> (\<exists>k \<in> set (completed (spool s)). task_promise k = Some p))"
proof -
  show ?thesis using sched_promise_inv [OF assms(1-3)] assms(4,5)
    by (cases "status (promises s ! p)") (auto simp: promise_inv_def future_isReady_def)
qed

theorem sched_execute_exactly_once_witness:
  "\<exists>s. run (sched_exec_ids sk_ops) timer_run (sample_sched [[5]] 9) = Some s \<and> places 1 (pool_tasks (spool s)) = 1 \<and>
     \<not> future_isReady (promises s ! 1)"
proof -
  have "map_option (\<lambda>s. (length (promises s), timed s 1, status (promises s ! 1)))
      (run (sched_exec_ids sk_ops) timer_run (sample_sched [[5]] 9)) = Some (2, False, Pending)" by code_simp
  then obtain s where s: "run (sched_exec_ids sk_ops) timer_run (sample_sched [[5]] 9) = Some s" "length (promises s) = 2"
    "\<not> timed s 1" "status (promises s ! 1) = Pending" by auto
  from sched_execute_exactly_once [OF sk_laws sample_sched_reachable [OF s(1)], of 1] s show ?thesis
    by (auto simp: future_isReady_def)
qed

text \<open>C16. The first outcome is final: once a task has delivered to a future, nothing that happens later
  changes the result, whatever timers fire again, tasks end or cancellations come; and what \<open>get\<close> returns
  changes only when a \<open>cancel\<close> closes the future: one in progress that has taken the future's entry already, or one
  called in this run with the identifier that the future had at that moment.\<close>

theorem sched_first_outcome_final:
  assumes "kernel_laws K opens interest" "reachable (sched_init K) (sched_exec_ids K) s" "p < length (promises s)"
    and "future_isReady (promises s ! p)" "run (sched_exec_ids K) as s = Some s'"
  shows "result (promises s' ! p) = result (promises s ! p) \<and>
    (future_get void (promises s' ! p) = future_get void (promises s ! p) \<or>
     future_get void (promises s' ! p) = Some GotNothing \<and>
     (CallOnCancel (ClosePromise p) \<in> set (calls s) \<or>
      (\<exists>bs i cs u. as = bs @ ACancel (Some i) # cs \<and> run (sched_exec_ids K) bs s = Some u \<and> promise_has_id u p i)))"
proof -
  note I = sched_reachable_inv(1) [OF assms(1,2)]
  have b: "blocked (promises s ! p)"
    using sched_promise_inv [OF assms(1-3)] assms(4) unfolding promise_inv_def future_isReady_def by blast
  note R = sched_run_outcome [OF assms(1) I assms(5,3) b]
  have "status (promises s' ! p) \<noteq> Pending"
    using sched_promise_inv [OF assms(1) run_reachable [OF assms(2,5)]] R unfolding promise_inv_def by blast
  with R assms(4) show ?thesis by (cases "status (promises s' ! p)") (simp_all add: future_get_def future_isReady_def)
qed

theorem sched_first_outcome_final_witness:
  "\<exists>s s' u. run (sched_exec_ids sk_ops) timer_run (sample_sched [[5]] 9) = Some s \<and> future_isReady (promises s ! 0) \<and>
     run (sched_exec_ids sk_ops) [ACancel (Some 1), ACall 1, AStop] s = Some s' \<and> result (promises s' ! 0) = Value 42 \<and>
     run (sched_exec_ids sk_ops) [ACancel (Some 2), ACancel None, AStop] s = Some u \<and> future_get False (promises u ! 0) = Some (GotValue 42)"
proof -
  have "map_option (\<lambda>s. (length (promises s), status (promises s ! 0), result (promises s ! 0), calls s,
        run (sched_exec_ids sk_ops) [ACancel (Some 1), ACall 1, AStop] s = None,
        map_option (\<lambda>u. promise_has_id u 0 2) (run (sched_exec_ids sk_ops) [] s),
        run (sched_exec_ids sk_ops) [ACancel (Some 2), ACancel None, AStop] s = None))
      (run (sched_exec_ids sk_ops) timer_run (sample_sched [[5]] 9)) = Some (2, Ready, Value 42, [CallReturned], False, Some False, False)"
    by code_simp
  then obtain s where s: "run (sched_exec_ids sk_ops) timer_run (sample_sched [[5]] 9) = Some s" "length (promises s) = 2"
    "status (promises s ! 0) = Ready" "result (promises s ! 0) = Value 42" "calls s = [CallReturned]" "\<not> promise_has_id s 0 2"
    "run (sched_exec_ids sk_ops) [ACancel (Some 1), ACall 1, AStop] s \<noteq> None"
    "run (sched_exec_ids sk_ops) [ACancel (Some 2), ACancel None, AStop] s \<noteq> None" by auto
  then obtain s' u where s': "run (sched_exec_ids sk_ops) [ACancel (Some 1), ACall 1, AStop] s = Some s'"
    "run (sched_exec_ids sk_ops) [ACancel (Some 2), ACancel None, AStop] s = Some u" by blast
  note T = sched_first_outcome_final [OF sk_laws sample_sched_reachable [OF s(1)], of 0]
  have a: "result (promises s' ! 0) = Value 42" using T [OF _ _ s'(1)] s by (simp add: future_isReady_def)
  have "bs = []" if "[ACancel (Some 2), ACancel None, AStop] = bs @ ACancel (Some i) # cs" for bs i and cs :: "(nat, nat, nat) sched_action list"
    using that by (auto simp: Cons_eq_append_conv)
  then have "\<not> (\<exists>bs i cs u. [ACancel (Some 2), ACancel None, AStop] = bs @ ACancel (Some i) # cs \<and>
      run (sched_exec_ids sk_ops) bs s = Some u \<and> promise_has_id u 0 i)" using s(6) by fastforce
  moreover have "CallOnCancel (ClosePromise 0) \<notin> set (calls s)" using s(5) by simp
  moreover have "0 < length (promises s)" "future_isReady (promises s ! 0)" using s(2,3) by (simp_all add: future_isReady_def)
  ultimately have "future_get False (promises u ! 0) = future_get False (promises s ! 0)"
    using T [OF _ _ s'(2), of False] by blast
  with a s s' show ?thesis by (simp add: future_isReady_def future_get_def)
qed

text \<open>C17. \<open>cancel\<close> reports whether the identifier is that of a timer or an interval, and removes that entry:
  exactly the future or shared value that has the identifier, or whose call is about to store it, is
  closed, its descriptor is neither watched nor open any more, and everything else stays; otherwise nothing
  changes.\<close>

theorem sched_cancel_spec:
  assumes "kernel_laws K opens interest" "reachable (sched_init K) (sched_exec_ids K) s" "cancel K ido s = (b, s')"
  shows "(b \<longleftrightarrow> (\<exists>i. ido = Some i \<and> i \<in> set (sched_ids s))) \<and>
    set (sched_ids s') = set (sched_ids s) - set_option ido \<and>
    promises s' = map (\<lambda>p. if b \<and> promise_has_id s p (the ido) then promise_close (promises s ! p) else promises s ! p) [0..<length (promises s)] \<and>
    shareds s' = map (\<lambda>v. if b \<and> shared_has_id s v (the ido) then sv_close (shareds s ! v) else shareds s ! v) [0..<length (shareds s)] \<and>
    interest (epollFd s) (kern s') = handle_fd ` set (sched_handles s') \<and>
    opens (kern s') = opens (kern s) - (interest (epollFd s) (kern s) - interest (epollFd s) (kern s'))"
proof -
  note I = sched_reachable_inv [OF assms(1,2)]
  have inv': "sched_inv opens interest s'" using cancel_inv [OF assms(1) I(1), of ido] assms(3) by simp
  then have w: "interest (epollFd s') (kern s') = handle_fd ` set (sched_handles s')"
    using sched_fds_keys [OF inv'] by (simp add: sched_inv_def reg_inv_def)
  have links: "e \<in> set (timers s) \<Longrightarrow> timer_link s e" "e \<in> set (intervals s) \<Longrightarrow> interval_link s e" for e
    using I(1) by (auto simp: sched_inv_def links_inv_def)
  have hit: ?thesis
    if c: "ido = Some i" "cancel K ido s = (True, run_on_cancel oc u)"
      and e: "(i, h, oc) \<in> set (timers s) \<and> u = drop_timer K (i, h, oc) s \<or> (i, h, oc) \<in> set (intervals s) \<and> u = drop_interval K (i, h, oc) s"
    for i h oc u
  proof -
    note D = drop_entry [OF assms(1) I(1) e]
    have s': "b" "s' = run_on_cancel oc u" using c(2) assms(3) by auto
    have "i \<in> set (sched_ids s)" using e by (force simp: sched_ids_def)
    moreover have "set (sched_ids s') = set (sched_ids s) - {i}" using D(1) s'(2) by (simp add: sched_ids_def)
    moreover have "kern s' = kern u" "epollFd s' = epollFd s" using s'(2) D(2) by simp_all
    moreover have "timer_link s (i, h, oc) \<or> interval_link s (i, h, oc)" using e links by blast
    note run_on_cancel_link [OF I(2) this D(3,4)]
    ultimately show ?thesis using s' c(1) w D(5) by simp
  qed
  show ?thesis
  proof (cases rule: cancel_cases [of ido s K])
    case (timer i h oc)
    show ?thesis by (rule hit [where h = h, OF timer(1,3)]) (use map_of_SomeD [OF timer(2)] in simp)
  next
    case (interval i h oc)
    show ?thesis by (rule hit [where h = h, OF interval(1,4)]) (use map_of_SomeD [OF interval(3)] in simp)
  next
    case missing
    with assms(3) w show ?thesis by (auto simp: map_nth split: option.splits)
  qed
qed

theorem sched_cancel_spec_witness:
  "\<exists>s s'. run (sched_exec_ids sk_ops) clean_run (sample_sched [[5]] 9) = Some s \<and> cancel sk_ops (Some 2) s = (True, s') \<and>
     set (sched_ids s') = {1} \<and> map status (promises s) = [Pending, Pending] \<and> map status (promises s') = [Pending, Closed]"
proof -
  have "map_option (\<lambda>s. (sched_ids s, length (promises s), map (\<lambda>p. promise_has_id s p 2) [0, 1], map status (promises s), fst (cancel sk_ops (Some 2) s)))
      (run (sched_exec_ids sk_ops) clean_run (sample_sched [[5]] 9)) = Some ([1, 2], 2, [False, True], [Pending, Pending], True)"
    by code_simp
  then obtain s where s: "run (sched_exec_ids sk_ops) clean_run (sample_sched [[5]] 9) = Some s" "sched_ids s = [1, 2]" "length (promises s) = 2"
    "\<not> promise_has_id s 0 2" "promise_has_id s 1 2" "map status (promises s) = [Pending, Pending]" "fst (cancel sk_ops (Some 2) s)"
    by auto
  obtain s' where s': "cancel sk_ops (Some 2) s = (True, s')" using s(7) by (cases "cancel sk_ops (Some 2) s") simp
  obtain x y where "promises s = [x, y]" "status x = Pending" "status y = Pending" using s(6) by (auto simp: map_eq_Cons_conv)
  with sched_cancel_spec [OF sk_laws sample_sched_reachable [OF s(1)] s'] s s' show ?thesis
    by (auto simp: upt_rec)
qed

text \<open>C18. \<open>schedule\<close> returns a new future and throws never. When the timer cannot be created the future is closed,
  and descriptors, registry, entries and identifiers are as before. Otherwise the future is pending,
  its identifier is the next one, which no entry had, and the loop has one more registration, whose
  callback enqueues the task of this future. Other futures and the shared values do not change.\<close>

theorem sched_schedule_spec:
  assumes "kernel_laws K opens interest" "reachable (sched_init K) (sched_exec_ids K) s" "nextId s \<noteq> -1"
    and "schedule K ms f s = (p, s')"
  shows "p = length (promises s) \<and> take p (promises s') = promises s \<and> length (promises s') = Suc p \<and> shareds s' = shareds s \<and>
    (if future_isClosed (promises s' ! p)
     then loop_view opens interest s' = loop_view opens interest s \<and> timers s' = timers s \<and> nextId s' = nextId s
     else status (promises s' ! p) = Pending \<and> future_getId (promises s' ! p) = Some (nextId s) \<and>
       nextId s \<notin> set (sched_ids s) \<and> nextId s' = nextId s + 1 \<and>
       (\<exists>h r ev. timers s' = timers s @ [(nextId s, h, ClosePromise p)] \<and> handle_fd h \<notin> opens (kern s) \<and>
          events_map s' = events_map s @ [(handle_fd h, ev)] \<and> ev_callback ev = OnTimer r (Some (EnqueueTask (SetPromise p f)))))"
proof -
  let ?p = "length (promises s)"
  let ?s1 = "s\<lparr>promises := promises s @ [future_state_new]\<rparr>"
  let ?cb = "Some (EnqueueTask (SetPromise ?p f))"
  note I = sched_reachable_inv [OF assms(1,2)]
  have ids: "ids_inv s" and reg: "reg_inv opens interest ?s1" using I(1) by (auto simp: sched_inv_def reg_inv_def)
  obtain r u where ru: "loop_createTimer K ms ?cb ?s1 = (r, u)" by (cases "loop_createTimer K ms ?cb ?s1")
  note E = createTimer_effect [OF assms(1) reg ru]
  have m: "event_loop.more u = event_loop.more ?s1" by (rule create_more(1) [OF ru])
  note M = sched_more [OF m] and S = schedule_state [OF ids ru m]
  have p: "p = ?p" "s' = snd (schedule K ms f s)" using assms(4) by (auto simp: schedule_def Let_def)
  show ?thesis
  proof (cases r)
    case (Inl e)
    with E S M p show ?thesis by (auto simp: create_failed_def loop_view_def future_isClosed_def nth_append)
  next
    case (Inr h)
    have "nextId s \<notin> set (sched_ids s)" using ids by (auto simp: ids_inv_def)
    with Inr E S M p show ?thesis
      by (auto simp: created_def future_isClosed_def future_state_new_def nth_append)
  qed
qed

theorem sched_schedule_spec_witness:
  "\<exists>s'. schedule sk_ops 100 7 (sample_sched [] 0) = (0, s') \<and> future_isClosed (promises s' ! 0) \<and>
     loop_view sk_open_set sk_interest_set s' = loop_view sk_open_set sk_interest_set (sample_sched [] 0)"
proof -
  have c: "fst (schedule sk_ops 100 7 (sample_sched [] 0)) = 0" "status (promises (snd (schedule sk_ops 100 7 (sample_sched [] 0))) ! 0) = Closed"
    "nextId (sample_sched [] 0) = 1" by code_simp+
  obtain s' where s': "schedule sk_ops 100 7 (sample_sched [] 0) = (0, s')" using c(1) by (cases "schedule sk_ops 100 7 (sample_sched [] 0)") simp
  have "reachable (sched_init sk_ops) (sched_exec_ids sk_ops) (sample_sched [] 0)" by (rule sample_sched_reachable [of "[]"]) simp
  from sched_schedule_spec [OF sk_laws this _ s'] c s' show ?thesis by (simp add: future_isClosed_def)
qed

text \<open>C35. The periodic clean-up removes exactly the timers that have fired, closes their descriptors and no
  others, takes them out of the interest list, and leaves intervals, futures and shared values as they are.\<close>

theorem sched_clean_exact:
  assumes "kernel_laws K opens interest" "reachable (sched_init K) (sched_exec_ids K) s"
  shows "timers (clean_timers K s) = filter (\<lambda>e. timer_fired (fst (snd e)) s = Some False) (timers s) \<and>
    intervals (clean_timers K s) = intervals s \<and> promises (clean_timers K s) = promises s \<and> shareds (clean_timers K s) = shareds s \<and>
    opens (kern (clean_timers K s)) =
      opens (kern s) - (\<lambda>e. handle_fd (fst (snd e))) ` {e \<in> set (timers s). timer_fired (fst (snd e)) s = Some True} \<and>
    interest (epollFd (clean_timers K s)) (kern (clean_timers K s)) = handle_fd ` set (sched_handles (clean_timers K s))"
proof -
  note I = sched_reachable_inv(1) [OF assms]
  have "sched_inv opens interest (clean_timers K s)" by (rule clean_timers_inv [OF assms(1) I])
  then have w: "interest (epollFd (clean_timers K s)) (kern (clean_timers K s)) = handle_fd ` set (sched_handles (clean_timers K s))"
    using sched_fds_keys [of opens interest "clean_timers K s"] by (simp add: sched_inv_def reg_inv_def)
  have own: "owns (fst (snd e))" if e: "e \<in> set (timers s)" for e
    using I e by (auto simp: sched_inv_def handles_inv_def sched_handles_def entry_handles_def)
  have ex: "\<not> expired s e \<longleftrightarrow> timer_fired (fst (snd e)) s = Some False"
      "expired s e \<longleftrightarrow> timer_fired (fst (snd e)) s = Some True" if e: "e \<in> set (timers s)" for e
  proof -
    from own [OF e] have "handle_valid (fst (snd e))" by (rule owns_valid)
    moreover have "timer_link s e" using I e by (auto simp: sched_inv_def links_inv_def)
    ultimately show "\<not> expired s e \<longleftrightarrow> timer_fired (fst (snd e)) s = Some False"
        "expired s e \<longleftrightarrow> timer_fired (fst (snd e)) s = Some True"
      by (auto simp: expired_def timer_fired_def timer_link_def timer_cb_def split: option.splits)
  qed
  let ?hs = "entry_handles (filter (expired s) (timers s))"
  have "kern (clean_timers K s) = kern (release_all K ?hs s)"
    by (simp add: clean_timers_def release_all_def entry_handles_def fold_map comp_def Let_def)
  moreover have "{h \<in> set ?hs. owns h} = (\<lambda>e. fst (snd e)) ` {e \<in> set (timers s). timer_fired (fst (snd e)) s = Some True}"
    using own ex(2) by (auto simp: entry_handles_def)
  ultimately have o: "opens (kern (clean_timers K s)) =
      opens (kern s) - (\<lambda>e. handle_fd (fst (snd e))) ` {e \<in> set (timers s). timer_fired (fst (snd e)) s = Some True}"
    using release_all_opens [OF assms(1), of ?hs s] by (simp add: image_image)
  have "filter (\<lambda>e. \<not> expired s e) (timers s) = filter (\<lambda>e. timer_fired (fst (snd e)) s = Some False) (timers s)"
    using ex(1) by (rule filter_cong [OF refl])
  then have "timers (clean_timers K s) = filter (\<lambda>e. timer_fired (fst (snd e)) s = Some False) (timers s)"
    by (simp add: clean_timers_def Let_def)
  with w o show ?thesis by simp
qed

theorem sched_clean_exact_witness:
  "\<exists>s. run (sched_exec_ids sk_ops) clean_run (sample_sched [[5]] 9) = Some s \<and> map fst (timers s) = [1, 2] \<and>
     map fst (timers (clean_timers sk_ops s)) = [2] \<and> 5 \<in> sk_open_set (kern s) \<and> 5 \<notin> sk_open_set (kern (clean_timers sk_ops s)) \<and>
     map fst (filter (\<lambda>e. timer_fired (fst (snd e)) s = Some False) (timers s)) = [2]"
proof -
  have "map_option (\<lambda>s. (map fst (timers s), map fst (timers (clean_timers sk_ops s)), sk_open (kern s) 5,
        handle_fd (fst (snd (timers s ! 0))), timer_fired (fst (snd (timers s ! 0))) s))
      (run (sched_exec_ids sk_ops) clean_run (sample_sched [[5]] 9)) = Some ([1, 2], [2], True, 5, Some True)" by code_simp
  then obtain s where s: "run (sched_exec_ids sk_ops) clean_run (sample_sched [[5]] 9) = Some s" "map fst (timers s) = [1, 2]"
    "map fst (timers (clean_timers sk_ops s)) = [2]" "sk_open (kern s) 5"
    "handle_fd (fst (snd (timers s ! 0))) = 5" "timer_fired (fst (snd (timers s ! 0))) s = Some True" by auto
  have "timers s ! 0 \<in> set (timers s)" using s(2) by (cases "timers s") simp_all
  then have five: "5 \<in> (\<lambda>e. handle_fd (fst (snd e))) ` {e \<in> set (timers s). timer_fired (fst (snd e)) s = Some True}"
    using s(5,6) by (intro image_eqI [of _ _ "timers s ! 0"]) simp_all
  note T = sched_clean_exact [OF sk_laws sample_sched_reachable [OF s(1)]]
  have "5 \<notin> sk_open_set (kern (clean_timers sk_ops s))" using T five by blast
  moreover have "map fst (filter (\<lambda>e. timer_fired (fst (snd e)) s = Some False) (timers s)) = [2]"
    using conjunct1 [OF T] s(3) by metis
  ultimately show ?thesis using s(1-4) by (auto simp: sk_open_set_def)
qed

text \<open>The destructor, once the loop has returned, closes the descriptors of all timers and intervals, that of
  the clean-up and the epoll descriptor, and no others.\<close>

theorem sched_destroy_closes_all:
  assumes "kernel_laws K opens interest" "reachable (sched_init K) (sched_exec_ids K) s" "sched_destroy K s = Some s'"
  shows "opens (kern s') = opens (kern s) - insert (epollFd s) (interest (epollFd s) (kern s)) \<and> epollFd s' = -1 \<and>
    interest (epollFd s) (kern s') = {} \<and> promises s' = promises s \<and> shareds s' = shareds s"
proof -
  note I = sched_reachable_inv(1) [OF assms(1,2)]
  let ?hs = "entry_handles (intervals s) @ entry_handles (timers s) @ [timerCleaner s]"
  let ?u = "(release_all K ?hs s)\<lparr>intervals := [], timers := [], timerCleaner := None\<rparr>"
  have s': "s' = loop_destroy K ?u" using assms(3) by (simp add: sched_destroy_def)
  have "gather call_handles s = []" using assms(3) by (auto simp: sched_destroy_def gather_def)
  then have "set (sched_handles s) = {h \<in> set ?hs. owns h}"
    using I by (auto simp: sched_inv_def handles_inv_def sched_handles_def cleaner_handles_def split: option.splits)
  then have fds: "handle_fd ` {h \<in> set ?hs. owns h} = interest (epollFd s) (kern s)"
    using sched_fds_keys [OF I] I by (simp add: sched_inv_def reg_inv_def)
  have ep: "0 \<le> epollFd s" using I law_open_nonneg [OF assms(1)] by (auto simp: sched_inv_def reg_inv_def)
  note R = release_all_opens [OF assms(1), of ?hs s]
  have "0 \<le> epollFd ?u" using R ep by simp
  note D = loop_destroy_effect [OF assms(1) this]
  have "opens (kern s') = opens (kern s) - interest (epollFd s) (kern s) - {epollFd s}" using D(4) R fds s' by simp
  moreover have "promises s' = promises s" "shareds s' = shareds s" using R s' by (simp_all add: loop_destroy_def stop_def Let_def)
  moreover have "epollFd s' = -1" "interest (epollFd s) (kern s') = {}" using D(2,3) R s' by simp_all
  ultimately show ?thesis by auto
qed

theorem sched_destroy_closes_all_witness:
  "\<exists>s s'. run (sched_exec_ids sk_ops) [ASchedule 100 7, AScheduleInterval 5 8, ACall 1, ACall 0, ACall 0, ACall 1, AStop] (sample_sched [] 9) = Some s \<and>
     sched_destroy sk_ops s = Some s' \<and> sk_opens (kern s) = [5, 4, 3, 0, 1, 2] \<and>
     sk_opens (kern s') = [0, 1, 2] \<and> sk_interest_set (epollFd s) (kern s') = {} \<and> epollFd s' = -1"
proof -
  have "map_option (\<lambda>s. (sk_opens (kern s), map_option (\<lambda>s'. sk_opens (kern s')) (sched_destroy sk_ops s)))
      (run (sched_exec_ids sk_ops) [ASchedule 100 7, AScheduleInterval 5 8, ACall 1, ACall 0, ACall 0, ACall 1, AStop] (sample_sched [] 9)) =
      Some ([5, 4, 3, 0, 1, 2], Some [0, 1, 2])" by code_simp
  then obtain s s' where s: "run (sched_exec_ids sk_ops) [ASchedule 100 7, AScheduleInterval 5 8, ACall 1, ACall 0, ACall 0, ACall 1, AStop] (sample_sched [] 9) = Some s"
    "sched_destroy sk_ops s = Some s'" "sk_opens (kern s) = [5, 4, 3, 0, 1, 2]" "sk_opens (kern s') = [0, 1, 2]" by auto
  from sched_destroy_closes_all [OF sk_laws sample_sched_reachable [OF s(1)] s(2)] s show ?thesis by blast
qed

text \<open>\<open>cancel\<close> of a timer that has fired and whose task is done still reports success and closes the future: the
  result that was ready is not delivered any more.\<close>

theorem sched_cancel_discards_result:
  "case run (sched_exec_ids sk_ops) timer_run (sample_sched [[5]] 9) of
     None \<Rightarrow> False
   | Some s \<Rightarrow> future_get False (promises s ! 0) = Some (GotValue 42) \<and> fst (cancel sk_ops (Some 1) s) \<and>
       future_get False (promises (snd (cancel sk_ops (Some 1) s)) ! 0) = Some GotNothing"
  by code_simp

text \<open>The destructor drops pending timers without closing their futures: a \<open>get\<close> on such a future does not
  return.\<close>

theorem sched_destroy_leaves_pending:
  "case run (sched_exec_ids sk_ops) [ASchedule 100 7, ACall 0, ACall 0, AStop] (sample_sched [] 9) of
     None \<Rightarrow> False
   | Some s \<Rightarrow> (case sched_destroy sk_ops s of None \<Rightarrow> False | Some s' \<Rightarrow> future_get False (promises s' ! 0) = None)"
  by code_simp


end
