(* ===== verification/SchedulerProgress.thy ===== *)
theory SchedulerProgress
  imports SchedulerContract
begin

text \<open>
  Progress across the components: queue, pool, scheduler and futures. From every reachable state of the
  scheduler, before the counter of identifiers wraps and with a floor of at least one worker, the
  threads that are in \<open>enqueue\<close> and the workers alone can bring every task of the pool to its end, whatever
  the mutex, the full queue and retiring workers do, provided that callables return; then every future
  whose task was in the pool has an outcome, and every future of \<open>execute\<close> that is not closed is ready.
\<close>

section \<open>Definitions\<close>

text \<open>The steps of the pool that need no new call: clients in \<open>enqueue\<close>, workers, timeouts of their locks.\<close>

fun inner_act :: "'t pool_act \<Rightarrow> bool" where
  "inner_act (PClient c) = True"
| "inner_act (PWorker t) = True"
| "inner_act (PTimeout t) = True"
| "inner_act _ = False"

text \<open>The same steps in the scheduler; a callable that ends returns \<open>v\<close>.\<close>

fun completing :: "'a \<Rightarrow> ('f, 'a, 'e) sched_action \<Rightarrow> bool" where
  "completing v (APool a) = True"
| "completing v (ATask t out) = (case out of PValue x \<Rightarrow> x = v | _ \<Rightarrow> False)"
| "completing v _ = False"



section \<open>Lemmas\<close>

subsection \<open>The pool comes to rest\<close>

text \<open>What no step of workers changes.\<close>

lemma worker_act_frame:
  assumes "pool_exec bbq_ops a s = Some s'" "worker_act a"
  shows "cpcs s' = cpcs s \<and> dpc s' = dpc s \<and> m_closed (taskQueue s') = m_closed (taskQueue s) \<and> minPoolSize s' = minPoolSize s \<and>
    m_dequeMaxSize (taskQueue s') = m_dequeMaxSize (taskQueue s) \<and> pool_lin bbq_ops a s = None"
proof (cases a)
  case (PWorker t)
  with assms have "pworker_step bbq_ops t (wpcs s ! t) s = Some s'" by (auto split: if_splits)
  with PWorker show ?thesis
    by (cases "wpcs s ! t")
      (auto simp: retire_def bbq_ops_def bbq_timeoutPop_def split: if_splits option.splits list.splits prod.splits)
qed (use assms in auto)

lemma worker_run_frame:
  assumes "run (pool_exec bbq_ops) as s = Some s'" "list_all worker_act as"
  shows "cpcs s' = cpcs s \<and> dpc s' = dpc s \<and> m_closed (taskQueue s') = m_closed (taskQueue s) \<and> minPoolSize s' = minPoolSize s \<and>
    m_dequeMaxSize (taskQueue s') = m_dequeMaxSize (taskQueue s) \<and> events (pool_exec bbq_ops) (pool_lin bbq_ops) as s = []"
  using assms
proof (induction as arbitrary: s)
  case (Cons a as)
  then obtain u where u: "pool_exec bbq_ops a s = Some u" "run (pool_exec bbq_ops) as u = Some s'" by (auto split: option.splits)
  with Cons.IH [OF u(2)] worker_act_frame [OF u(1)] Cons.prems show ?case by simp
qed simp

lemma pool_drains:
  assumes "pool_inv s" "0 < minPoolSize s" "dpc s = DNone"
  shows "\<exists>as s'. run (pool_exec bbq_ops) as s = Some s' \<and> list_all worker_act as \<and> m_deque (taskQueue s') = []"
  using assms
proof (induction "m_deque (taskQueue s)" arbitrary: s)
  case Nil
  then show ?case by (intro exI [of _ "[]"] exI [of _ s]) simp
next
  case (Cons k ks)
  obtain as u t where u: "run (pool_exec bbq_ops) as s = Some u" "list_all worker_act as" "started u = started s @ [(t, k)]"
    using bp.head_task_starts [OF Cons.prems Cons.hyps(2) [symmetric]] by metis
  note F = worker_run_frame [OF u(1,2)]
  have "ks = m_deque (taskQueue u)" using bp.tasks_run [OF u(1)] F u(3) Cons.hyps(2) [symmetric] by simp
  moreover have "pool_inv u" by (rule pl.run_inv [OF Cons.prems(1) u(1)])
  ultimately obtain bs s' where "run (pool_exec bbq_ops) bs u = Some s'" "list_all worker_act bs" "m_deque (taskQueue s') = []"
    using Cons.hyps(1) [of u] Cons.prems F by auto
  with u show ?case by (intro exI [of _ "as @ bs"] exI [of _ s']) (simp add: run_append)
qed

lemma worker_inner: "list_all worker_act as \<Longrightarrow> list_all inner_act as"
  by (induction as) (auto elim!: worker_act.elims)

text \<open>One client gets its task into the queue.\<close>

lemma pushes_when_room:
  assumes "c < length (cpcs s)" "cpcs s ! c = CPush k" "m_deque (taskQueue s) = []" "\<not> m_closed (taskQueue s)" "0 < m_dequeMaxSize (taskQueue s)"
  shows "\<exists>q. pool_exec bbq_ops (PClient c) s = Some (cgoto c CIdle (s\<lparr>taskQueue := q\<rparr>)) \<and> \<not> m_closed q \<and> m_dequeMaxSize q = m_dequeMaxSize (taskQueue s)"
  using assms by (auto simp: bbq_ops_def bbq_push_def bbq_emplace_def not_full_pred_def)

lemma client_pushes:
  assumes "pool_inv s" "0 < minPoolSize s" "dpc s = DNone" "\<not> m_closed (taskQueue s)" "0 < m_dequeMaxSize (taskQueue s)"
    and c: "c < length (cpcs s)" "cpcs s ! c = CPush k"
  shows "\<exists>as s'. run (pool_exec bbq_ops) as s = Some s' \<and> list_all inner_act as \<and> cpcs s' = (cpcs s)[c := CIdle] \<and> dpc s' = DNone \<and>
    \<not> m_closed (taskQueue s') \<and> m_dequeMaxSize (taskQueue s') = m_dequeMaxSize (taskQueue s) \<and> minPoolSize s' = minPoolSize s"
proof -
  obtain as u where u: "run (pool_exec bbq_ops) as s = Some u" "list_all worker_act as" "m_deque (taskQueue u) = []"
    using pool_drains [OF assms(1-3)] by blast
  note F = worker_run_frame [OF u(1,2)]
  obtain q where q: "pool_exec bbq_ops (PClient c) u = Some (cgoto c CIdle (u\<lparr>taskQueue := q\<rparr>))" "\<not> m_closed q"
    "m_dequeMaxSize q = m_dequeMaxSize (taskQueue u)"
    using pushes_when_room [of c u k] u(3) F assms(4,5) c by auto
  have "run (pool_exec bbq_ops) (as @ [PClient c]) s = Some (cgoto c CIdle (u\<lparr>taskQueue := q\<rparr>))"
    using u(1) q(1) by (simp add: run_append del: pool_exec.simps)
  then show ?thesis using F q assms(3) worker_inner [OF u(2)]
    by (intro exI [of _ "as @ [PClient c]"] exI [of _ "cgoto c CIdle (u\<lparr>taskQueue := q\<rparr>)"]) simp
qed

lemma client_enters:
  assumes "pool_inv s" "0 < minPoolSize s" "dpc s = DNone" "\<not> m_closed (taskQueue s)" "0 < m_dequeMaxSize (taskQueue s)"
    and c: "c < length (cpcs s)"
  shows "\<exists>as s'. run (pool_exec bbq_ops) as s = Some s' \<and> list_all inner_act as \<and> cpcs s' = (cpcs s)[c := CIdle] \<and> dpc s' = DNone \<and>
    \<not> m_closed (taskQueue s') \<and> m_dequeMaxSize (taskQueue s') = m_dequeMaxSize (taskQueue s) \<and> minPoolSize s' = minPoolSize s"
proof (cases "cpcs s ! c")
  case CIdle
  with assms show ?thesis by (intro exI [of _ "[]"] exI [of _ s]) (simp add: list_update_id [of "cpcs s" c, unfolded CIdle])
next
  case (CPush k)
  from client_pushes [OF assms CPush] show ?thesis .
next
  case (CAdjust k)
  obtain as u where u: "run (pool_exec bbq_ops) as s = Some u" "list_all worker_act as" "\<not> pool_locked u"
  proof (cases "pool_locked s")
    case True
    with bp.holder_releases [OF assms(1) True] assms(3) that show thesis by (metis destroyer_pc.distinct(7))
  next
    case False
    with that [of "[]" s] show thesis by simp
  qed
  note F = worker_run_frame [OF u(1,2)]
  let ?v = "cgoto c (CPush k) (adjustSize bbq_ops u)"
  have A: "cpcs (adjustSize bbq_ops u) = cpcs u" "taskQueue (adjustSize bbq_ops u) = taskQueue u" "dpc (adjustSize bbq_ops u) = dpc u"
    "minPoolSize (adjustSize bbq_ops u) = minPoolSize u" by (simp_all add: adjustSize_def Let_def)
  have 1: "pool_exec bbq_ops (PClient c) u = Some ?v" using CAdjust F c u(3) by simp
  have "pool_inv ?v" using pl.run_inv [OF assms(1) u(1)] 1 by (rule pool_inv_exec)
  then obtain bs s' where s': "run (pool_exec bbq_ops) bs ?v = Some s'" "list_all inner_act bs" "cpcs s' = (cpcs ?v)[c := CIdle]" "dpc s' = DNone"
    "\<not> m_closed (taskQueue s')" "m_dequeMaxSize (taskQueue s') = m_dequeMaxSize (taskQueue ?v)" "minPoolSize s' = minPoolSize ?v"
    using client_pushes [of ?v c k] assms F A c by auto
  have "run (pool_exec bbq_ops) (as @ PClient c # bs) s = Some s'"
    using u(1) 1 s'(1) by (simp add: run_append del: pool_exec.simps)
  then show ?thesis using s' F A worker_inner [OF u(2)]
    by (intro exI [of _ "as @ PClient c # bs"] exI [of _ s']) simp
qed

lemma clients_enter:
  assumes "pool_inv s" "0 < minPoolSize s" "dpc s = DNone" "\<not> m_closed (taskQueue s)" "0 < m_dequeMaxSize (taskQueue s)"
    and "n \<le> length (cpcs s)"
  shows "\<exists>as s'. run (pool_exec bbq_ops) as s = Some s' \<and> list_all inner_act as \<and> length (cpcs s') = length (cpcs s) \<and> (\<forall>c < n. cpcs s' ! c = CIdle) \<and>
    dpc s' = DNone \<and> \<not> m_closed (taskQueue s') \<and> m_dequeMaxSize (taskQueue s') = m_dequeMaxSize (taskQueue s) \<and> minPoolSize s' = minPoolSize s"
  using assms(6)
proof (induction n)
  case 0
  with assms show ?case by (intro exI [of _ "[]"] exI [of _ s]) simp
next
  case (Suc n)
  then obtain as u where u: "run (pool_exec bbq_ops) as s = Some u" "list_all inner_act as" "length (cpcs u) = length (cpcs s)"
    "\<forall>c < n. cpcs u ! c = CIdle" "dpc u = DNone" "\<not> m_closed (taskQueue u)" "m_dequeMaxSize (taskQueue u) = m_dequeMaxSize (taskQueue s)"
    "minPoolSize u = minPoolSize s" by auto
  have "pool_inv u" by (rule pl.run_inv [OF assms(1) u(1)])
  then obtain bs s' where s': "run (pool_exec bbq_ops) bs u = Some s'" "list_all inner_act bs" "cpcs s' = (cpcs u)[n := CIdle]" "dpc s' = DNone"
    "\<not> m_closed (taskQueue s')" "m_dequeMaxSize (taskQueue s') = m_dequeMaxSize (taskQueue u)" "minPoolSize s' = minPoolSize u"
    using client_enters [of u n] u assms Suc.prems by auto
  have "\<forall>c < Suc n. cpcs s' ! c = CIdle" using s'(3) u(3,4) Suc.prems by (simp add: nth_list_update less_Suc_eq)
  with s' u show ?case by (intro exI [of _ "as @ bs"] exI [of _ s']) (simp add: run_append)
qed

text \<open>The running tasks end, one after the other.\<close>

lemma running_ends:
  assumes "n \<le> length (wpcs s)"
  shows "\<exists>as s'. run (pool_exec bbq_ops) as s = Some s' \<and> list_all worker_act as \<and> taskQueue s' = taskQueue s \<and> cpcs s' = cpcs s \<and>
    length (wpcs s') = length (wpcs s) \<and> (\<forall>t < n. running (wpcs s' ! t) = [])"
  using assms
proof (induction n)
  case 0
  show ?case by (intro exI [of _ "[]"] exI [of _ s]) simp
next
  case (Suc n)
  then obtain as u where u: "run (pool_exec bbq_ops) as s = Some u" "list_all worker_act as" "taskQueue u = taskQueue s" "cpcs u = cpcs s"
    "length (wpcs u) = length (wpcs s)" "\<forall>t < n. running (wpcs u ! t) = []" by auto
  show ?case
  proof (cases "wpcs u ! n")
    case (WRun k)
    let ?v = "wgoto n WStopCheck (u\<lparr>completed := completed u @ [k]\<rparr>)"
    have "pool_exec bbq_ops (PWorker n) u = Some ?v" using WRun Suc.prems u(5) by simp
    then have "run (pool_exec bbq_ops) (as @ [PWorker n]) s = Some ?v" using u(1) by (simp add: run_append del: pool_exec.simps)
    with u Suc.prems show ?thesis
      by (intro exI [of _ "as @ [PWorker n]"] exI [of _ ?v]) (simp add: nth_list_update less_Suc_eq)
  qed (use u in \<open>intro exI [of _ as] exI [of _ u]; simp add: less_Suc_eq all_conj_distrib imp_conjL\<close>)+
qed

lemma pool_rests:
  assumes "pool_inv s" "0 < minPoolSize s" "dpc s = DNone" "\<not> m_closed (taskQueue s)" "0 < m_dequeMaxSize (taskQueue s)"
  shows "\<exists>as s'. run (pool_exec bbq_ops) as s = Some s' \<and> list_all inner_act as \<and> pool_tasks s' = mset (completed s')"
proof -
  obtain as u where u: "run (pool_exec bbq_ops) as s = Some u" "list_all inner_act as" "\<forall>c < length (cpcs s). cpcs u ! c = CIdle"
    "length (cpcs u) = length (cpcs s)" "dpc u = DNone" "minPoolSize u = minPoolSize s"
    using clients_enter [OF assms order_refl] by auto
  have "pool_inv u" by (rule pl.run_inv [OF assms(1) u(1)])
  then obtain bs v where v: "run (pool_exec bbq_ops) bs u = Some v" "list_all worker_act bs" "m_deque (taskQueue v) = []"
    using pool_drains [of u] u assms(2) by auto
  obtain cs w where w: "run (pool_exec bbq_ops) cs v = Some w" "list_all worker_act cs" "taskQueue w = taskQueue v" "cpcs w = cpcs v"
    "\<forall>t < length (wpcs w). running (wpcs w ! t) = []"
    using running_ends [of "length (wpcs v)" v] by auto
  have "cpcs w = cpcs u" using worker_run_frame [OF v(1,2)] w(4) by simp
  then have "concat (map entering (cpcs w)) = []" using u(3,4) by (auto simp: in_set_conv_nth)
  moreover have "in_progress w = []" using w(5) by (auto simp: in_progress_def in_set_conv_nth)
  ultimately have "pool_tasks w = mset (completed w)" using v(3) w(3) by (simp add: pool_tasks_def)
  moreover have "run (pool_exec bbq_ops) (as @ bs @ cs) s = Some w" using u(1) v(1) w(1) by (simp add: run_append)
  moreover have "list_all inner_act (as @ bs @ cs)" using u(2) worker_inner [OF v(2)] worker_inner [OF w(2)] by simp
  ultimately show ?thesis by blast
qed

subsection \<open>The scheduler follows its pool\<close>

text \<open>A step of the pool that needs no call is a step of the scheduler, which changes no call and no identifier.\<close>

lemma sched_follows:
  fixes s :: "('f, 'a, 'e, 'k) sched"
  assumes e: "pool_exec bbq_ops b (spool s) = Some q" and i: "inner_act b" and n: "nextId s \<noteq> -1"
  shows "\<exists>a s'. sched_exec_ids K a s = Some s' \<and> completing v a \<and> spool s' = q \<and> nextId s' = nextId s \<and> run_pc s' = run_pc s \<and> enqueuing s' = enqueuing s \<and>
    length (promises s') = length (promises s) \<and> (\<forall>p < length (promises s). timed s' p = timed s p)"
proof (cases "pool_internal b (spool s)")
  case True
  with e n show ?thesis
    by (intro exI [of _ "APool b"] exI [of _ "s\<lparr>spool := q\<rparr>"])
      (simp add: sched_exec_ids_def pool_step_def timed_def gather_def del: pool_exec.simps)
next
  case False
  with i e obtain t k ks where t: "b = PWorker t" "t < length (wpcs (spool s))" "running (wpcs (spool s) ! t) = k # ks"
    by (cases b) (auto split: if_splits simp: neq_Nil_conv)
  obtain u where u: "task_effect k (PValue v) s = Some u" by (cases k) (auto simp: task_effect_def)
  have f: "spool u = spool s" "nextId u = nextId s" "run_pc u = run_pc s" "enqueuing u = enqueuing s" "calls u = calls s" "length (promises u) = length (promises s)"
    using u by (auto simp: task_effect_def split: stask.splits)
  have "idSetted (promises u ! p) = idSetted (promises s ! p)" if "p < length (promises s)" for p
    using u that by (auto simp: task_effect_def nth_update_keeps [where P = idSetted] split: stask.splits)
  with t u f e n show ?thesis
    by (intro exI [of _ "ATask t (PValue v)"] exI [of _ "u\<lparr>spool := q\<rparr>"])
      (simp add: sched_exec_ids_def pool_step_def timed_def gather_def del: pool_exec.simps)
qed

lemma sched_follows_run:
  fixes s :: "('f, 'a, 'e, 'k) sched"
  assumes "run (pool_exec bbq_ops) bs (spool s) = Some q" "list_all inner_act bs" "nextId s \<noteq> -1"
  shows "\<exists>as s'. run (sched_exec_ids K) as s = Some s' \<and> list_all (completing v) as \<and> spool s' = q \<and> nextId s' = nextId s \<and> run_pc s' = run_pc s \<and> enqueuing s' = enqueuing s \<and>
    length (promises s') = length (promises s) \<and> (\<forall>p < length (promises s). timed s' p = timed s p)"
  using assms
proof (induction bs arbitrary: s)
  case Nil
  then show ?case by (intro exI [of _ "[]"] exI [of _ s]) simp
next
  case (Cons b bs)
  then obtain r where r: "pool_exec bbq_ops b (spool s) = Some r" "run (pool_exec bbq_ops) bs r = Some q" by (auto split: option.splits)
  obtain a u where u: "sched_exec_ids K a s = Some u" "completing v a" "spool u = r" "nextId u = nextId s" "run_pc u = run_pc s" "enqueuing u = enqueuing s"
    "length (promises u) = length (promises s)" "\<forall>p < length (promises s). timed u p = timed s p"
    using sched_follows [OF r(1) _ Cons.prems(3), of K v] Cons.prems(2) by auto
  obtain as s' where "run (sched_exec_ids K) as u = Some s'" "list_all (completing v) as" "spool s' = q" "nextId s' = nextId u" "run_pc s' = run_pc u" "enqueuing s' = enqueuing u"
    "length (promises s') = length (promises u)" "\<forall>p < length (promises u). timed s' p = timed u p"
    using Cons.IH [of u] r(2) u Cons.prems by auto
  with u show ?case by (intro exI [of _ "a # as"] exI [of _ s']) simp
qed

lemma pool_exec_maxSize:
  assumes "pool_exec bbq_ops a q = Some q'"
  shows "m_dequeMaxSize (taskQueue q') = m_dequeMaxSize (taskQueue q) \<and> minPoolSize q' = minPoolSize q"
proof (cases a)
  case (PWorker t)
  with worker_act_frame [OF assms] show ?thesis by simp
next
  case (PTimeout t)
  with worker_act_frame [OF assms] show ?thesis by simp
next
  case (PClient c)
  with assms show ?thesis
    by (cases "cpcs q ! c") (auto simp: adjustSize_def Let_def bbq_ops_def bbq_push_def bbq_emplace_def split: if_splits)
next
  case PDestroyer
  with assms show ?thesis by (cases "dpc q") (auto simp: request_stops_def bbq_ops_def bbq_close_def)
qed (use assms in auto)

lemma sched_queue_size:
  fixes s :: "('f, 'a, 'e, 'k) sched"
  assumes "reachable (sched_init K) (sched_exec_ids K) s"
  shows "m_dequeMaxSize (taskQueue (spool s)) = taskQueueSize"
  using assms
proof (induction rule: reachable.induct)
  case (start s)
  then show ?case using sched_new_sel(12) by (fastforce simp: sched_init_def bbq_new_def)
next
  case (step s a s')
  then have "sched_exec K a s = Some s'" by (auto simp: sched_exec_ids_def split: if_splits)
  from sched_exec_pool [OF this] step.IH pool_exec_maxSize show ?case by metis
qed

text \<open>No task is lost or doubled on the way.\<close>

lemma inner_tasks:
  fixes q q' :: "('f stask, 'f stask bbq) pool"
  assumes e: "pool_exec bbq_ops a q = Some q'" and i: "inner_act a" and o: "\<not> m_closed (taskQueue q)"
  shows "pool_tasks q' = pool_tasks q \<and> \<not> m_closed (taskQueue q')"
proof (cases "pool_internal a q")
  case True
  from pool_internal_tasks [OF e this o] o show ?thesis by simp
next
  case False
  with i e obtain t k ks where t: "a = PWorker t" "t < length (wpcs q)" "running (wpcs q ! t) = k # ks"
    by (cases a) (auto split: if_splits simp: neq_Nil_conv)
  from pool_task_done [OF t(2,3)] e t(1) o show ?thesis by simp
qed

lemma inner_run_tasks:
  fixes q q' :: "('f stask, 'f stask bbq) pool"
  assumes "run (pool_exec bbq_ops) as q = Some q'" "list_all inner_act as" "\<not> m_closed (taskQueue q)"
  shows "pool_tasks q' = pool_tasks q"
  using assms
proof (induction as arbitrary: q)
  case (Cons a as)
  then obtain u where u: "pool_exec bbq_ops a q = Some u" "run (pool_exec bbq_ops) as u = Some q'" by (auto split: option.splits)
  with Cons.IH [OF u(2)] inner_tasks [OF u(1)] Cons.prems show ?case by simp
qed simp

lemma completed_promise:
  assumes "pool_tasks q = mset (completed q)" "0 < places p (pool_tasks q)"
  shows "\<exists>k \<in> set (completed q). task_promise k = Some p"
proof (rule ccontr)
  assume "\<not> ?thesis"
  then have "filter_mset (\<lambda>k. task_promise k = Some p) (mset (completed q)) = {#}" by (auto simp: multiset_eq_iff not_in_iff)
  with assms show False by (simp add: places_def del: mset_filter)
qed

text \<open>The pool at rest, seen from the scheduler.\<close>

lemma sched_rests:
  fixes s :: "('f, 'a, 'e, 'k) sched"
  assumes "kernel_laws K opens interest" "reachable (sched_init K) (sched_exec_ids K) s" "nextId s \<noteq> -1" "0 < minPoolSize (spool s)"
  shows "\<exists>as s'. run (sched_exec_ids K) as s = Some s' \<and> list_all (completing v) as \<and>
    pool_tasks (spool s') = mset (completed (spool s')) \<and> pool_tasks (spool s') = pool_tasks (spool s) \<and>
    nextId s' = nextId s \<and> run_pc s' = run_pc s \<and> enqueuing s' = enqueuing s \<and>
    length (promises s') = length (promises s) \<and> (\<forall>p < length (promises s). timed s' p = timed s p)"
proof -
  have tk: "dpc (spool s) = DNone" "\<not> m_closed (taskQueue (spool s))"
    using sched_reachable_inv(1) [OF assms(1,2)] by (auto simp: sched_inv_def tasks_inv_def)
  have "reachable pool_init (pool_exec bbq_ops) (spool s)"
    by (rule sched_reachable_pool [OF reachable_mono [OF assms(2)]]) (auto simp: sched_exec_ids_def split: if_splits)
  then have "pool_inv (spool s)" by (rule pl.reachable_inv)
  then obtain bs q where q: "run (pool_exec bbq_ops) bs (spool s) = Some q" "list_all inner_act bs" "pool_tasks q = mset (completed q)"
    using pool_rests [of "spool s"] assms(4) tk sched_queue_size [OF assms(2)] by (auto simp: taskQueueSize_def)
  with sched_follows_run [OF q(1,2) assms(3), of K v] inner_run_tasks [OF q(1,2) tk(2)] show ?thesis by metis
qed

lemma rested_outcome:
  fixes s :: "('f, 'a, 'e, 'k) sched"
  assumes "kernel_laws K opens interest" "reachable (sched_init K) (sched_exec_ids K) s" "pool_tasks (spool s) = mset (completed (spool s))"
    and "p < length (promises s)" "0 < places p (pool_tasks (spool s))"
  shows "status (promises s ! p) \<noteq> Pending"
  using sched_promise_inv [OF assms(1,2,4)] completed_promise [OF assms(3,5)] unfolding promise_inv_def by auto


subsection \<open>The callback of a timer\<close>













section \<open>Properties\<close>

text \<open>C13. Every task of the pool can be brought to its end: from every reachable state with a floor of at least one
  worker, before the counter of identifiers wraps, there is a continuation without any new call in
  which the threads in \<open>enqueue\<close> and the workers go on and the callables return (a given value \<open>v\<close>), after
  which the completed tasks are exactly those that were in the pool; \<open>get\<close> returns on the future of each of
  them, and every future of \<open>execute\<close> that was not closed is ready.\<close>

theorem sched_tasks_can_finish:
  fixes s :: "('f, 'a, 'e, 'k) sched"
  assumes "kernel_laws K opens interest" "reachable (sched_init K) (sched_exec_ids K) s"
    and "nextId s \<noteq> -1" "0 < minPoolSize (spool s)"
  shows "\<exists>as s'. run (sched_exec_ids K) as s = Some s' \<and> list_all (completing v) as \<and>
    mset (completed (spool s')) = pool_tasks (spool s) \<and>
    (\<forall>p < length (promises s).
       (0 < places p (pool_tasks (spool s)) \<longrightarrow> future_get void (promises s' ! p) \<noteq> None) \<and>
       (\<not> timed s p \<and> status (promises s ! p) \<noteq> Closed \<longrightarrow> future_isReady (promises s' ! p)))"
proof -
  obtain as s' where r: "run (sched_exec_ids K) as s = Some s'" "list_all (completing v) as" "pool_tasks (spool s') = mset (completed (spool s'))"
    "pool_tasks (spool s') = pool_tasks (spool s)" "length (promises s') = length (promises s)" "\<forall>p < length (promises s). timed s' p = timed s p"
    using sched_rests [OF assms, of v] by metis
  have R: "reachable (sched_init K) (sched_exec_ids K) s'" by (rule run_reachable [OF assms(2) r(1)])
  have "future_isReady (promises s' ! p)"
    if p: "p < length (promises s)" "\<not> timed s p" "status (promises s ! p) \<noteq> Closed" for p
  proof -
    have one: "places p (pool_tasks (spool s)) = 1"
      using sched_promise_inv [OF assms(1,2) p(1)] p(2,3) by (simp add: promise_inv_def)
    then have "status (promises s' ! p) \<noteq> Closed"
      using sched_promise_inv [OF assms(1) R, of p] r(4-6) p(1,2) by (simp add: promise_inv_def)
    with rested_outcome [OF assms(1) R r(3), of p] r(4,5) p(1) one show ?thesis
      by (cases "status (promises s' ! p)") (simp_all add: future_isReady_def)
  qed
  with rested_outcome [OF assms(1) R r(3)] r show ?thesis
    by (intro exI [of _ as] exI [of _ s']) (auto simp: future_get_def)
qed

theorem sched_tasks_can_finish_witness:
  "\<exists>s as s'. run (sched_exec_ids sk_ops) timer_run (sample_sched [[5]] 9) = Some s \<and> \<not> future_isReady (promises s ! 1) \<and>
     run (sched_exec_ids sk_ops) as s = Some s' \<and> list_all (completing 9) as \<and> future_isReady (promises s' ! 1)"
proof -
  have "map_option (\<lambda>s. (length (promises s), timed s 1, status (promises s ! 1), nextId s, minPoolSize (spool s)))
      (run (sched_exec_ids sk_ops) timer_run (sample_sched [[5]] 9)) = Some (2, False, Pending, 2, 1)" by code_simp
  then obtain s where s: "run (sched_exec_ids sk_ops) timer_run (sample_sched [[5]] 9) = Some s" "length (promises s) = 2"
    "\<not> timed s 1" "status (promises s ! 1) = Pending" "nextId s = 2" "minPoolSize (spool s) = 1" by auto
  obtain as s' where "run (sched_exec_ids sk_ops) as s = Some s'" "list_all (completing 9) as" "future_isReady (promises s' ! 1)"
    using sched_tasks_can_finish [OF sk_laws sample_sched_reachable [OF s(1)], of 9 False] s by auto
  with s show ?thesis by (auto simp: future_isReady_def)
qed



end
