(* ===== verification/Spec2Isabelle.thy ===== *)
theory Spec2Isabelle
  imports FuturePromise SharedValue Logger PoolOverQueue MichaelScottSequential SchedulerProgress
begin

text \<open>
  \<^bold>\<open>miniruntime\<close>: a C++ library for running tasks on a thread pool, now, later or repeatedly. This development
  models the library under \<^verbatim>\<open>src/include/miniruntime\<close> and \<^verbatim>\<open>src/src\<close> and proves what its parts promise.

  \<^bold>\<open>The program.\<close> A \<open>TaskScheduler\<close> owns a \<open>DynamicThreadPool\<close> and an \<open>EventLoop\<close>. \<open>execute\<close> wraps a callable in a
  task and pushes it into the pool's \<open>BoundedBlockingQueue\<close>; a worker runs it and sets the \<open>Promise\<close> whose
  \<open>Future\<close> the caller holds. \<open>schedule\<close> and \<open>scheduleInterval\<close> register a timer with the loop, whose
  thread waits in \<open>epoll_wait\<close> and calls callbacks that push the task into the pool; an interval writes a
  \<open>SharedValue\<close>. \<open>cancel\<close> removes an entry, which unregisters its descriptor through a handle
  and closes the future or shared value. The \<open>Logger\<close> is a bounded queue with a worker of its own.
  \<open>MichaelScottQueue\<close> is a lock-free alternative to the bounded queue; its nodes are
  reclaimed by \<open>HazardPointers\<close>.

  \<^bold>\<open>How the model is made.\<close> Every component is an executable step function on a record (theory \<open>Prelude\<close>): an
  action names the thread that moves and resolves what the source leaves open, \<open>None\<close> means that the
  action is not enabled. The methods are split at their accesses to shared state (locks, atomics, condition
  variables), and any number of threads interleave. Next to that stand the methods as single
  transitions; the locales \<open>invariant_system\<close> and \<open>linearization\<close>, interpreted on every component, give
  invariants of reachable states and the refinement of the single transitions. \<open>atomic_object\<close> extends them by what a caller
  relies on, so that components compose. Errors are values
  (\<open>Inl\<close> with the message), blocking is \<open>None\<close>, counters and identifiers are 64-bit words.

  \<^bold>\<open>Theories and sources.\<close>
  \<^item> \<open>Prelude\<close>: runs, reachable states, the contracts of a component, counting of threads.
  \<^item> \<open>BoundedBlockingQueue\<close> (\<^verbatim>\<open>task/boundedblockingqueue.h\<close>): \<open>bbq\<close> with \<open>bbq_push\<close>, \<open>bbq_emplace\<close>, \<open>bbq_pop\<close>, \<open>bbq_timeoutPop\<close>,
    \<open>bbq_close\<close>, \<open>bbq_size\<close>; \<open>bbq_exec\<close> with mutex, condition variables, spurious wake-ups and timeouts. Linearizable,
    FIFO, bounded, free of deadlock and of missed notifications; \<open>close\<close> may miss a waiter.
  \<^item> \<open>FuturePromise\<close> (\<^verbatim>\<open>asyncresult/future.h\<close>, \<^verbatim>\<open>asyncresult/detail/future.h\<close>): \<open>future_state\<close>, \<open>promise_set\<close>, \<open>promise_close\<close>,
    \<open>promise_setId\<close>, \<open>future_get\<close>; \<open>fp_exec\<close>. The first claim fixes the result, no races on it, no missing alternative, no missed
    publication.
  \<^item> \<open>SharedValue\<close> (\<^verbatim>\<open>asyncresult/sharedvalue.h\<close>): \<open>sv\<close> with its methods; \<open>sv_exec\<close>. Linearizable against a
    specification of its own (\<open>sv_apply\<close>), delivers the latest value once, nothing after an exception or a close.
  \<^item> \<open>Logger\<close> (\<^verbatim>\<open>logger/logger.h\<close>, \<^verbatim>\<open>logger/logger.cpp\<close>): \<open>logger\<close>, \<open>client_step\<close>, \<open>worker_step\<close>, over the single transitions of the
    bounded queue, except that the worker's \<open>pop\<close> has its test, the start of its wait and its sleep apart, and \<open>close\<close> its store and its
    notification. Order, completeness after \<open>shutdown\<close> and \<open>flush\<close>, termination of a worker that is awake; a worker that misses the \<open>close\<close>
    makes \<open>shutdown\<close> hang.
  \<^item> \<open>DynamicThreadPool\<close> (\<^verbatim>\<open>task/dynamicthreadpool.h\<close>, \<^verbatim>\<open>task/dynamicthreadpool.cpp\<close>): \<open>pool\<close>, \<open>pool_exec\<close>, for any queue (record \<open>queue_ops\<close>, locale
    \<open>queue_contract\<close>), interpreted on the bounded queue. Each task once, bounds of the size, progress, the destructor.
  \<^item> \<open>PoolOverQueue\<close>: the same pool with \<open>push\<close>, \<open>timeoutPop\<close> and \<open>close\<close> of the bounded queue executed statement by statement
    (\<open>fine_exec\<close>), and \<open>createQueue\<close>. It refines the pool over the single transitions of the queue, so that what is proved there
    holds of the composition; each task once is stated for it.
  \<^item> \<open>HazardPointers\<close> (\<^verbatim>\<open>task/hazardpointers.h\<close>): \<open>hp\<close>, sequential operations and \<open>hp_exec\<close>. \<open>hp_protect_weak\<close> is \<open>protect\<close> with
    spurious failures of its weak CAS. Protected nodes are not reclaimed, no node is lost or freed twice.
  \<^item> \<open>MichaelScottQueue\<close> (\<^verbatim>\<open>task/michaelscottqueue.h\<close>): \<open>msq\<close>, \<open>msq_exec\<close>, with the reclaimer in its state. Linearizable while no
    node is recycled; what goes wrong when nodes are. Every weak CAS may fail spuriously (\<open>MSpurious\<close>, and \<open>MWeak\<close> for those of \<open>protect\<close>,
    which then may throw). \<open>MichaelScottSequential\<close>: queue and reclaimer together with recycling, for calls that
    do not overlap: exactly a FIFO list, and every call whose single transition is enabled returns.
  \<^item> \<open>EventLoop\<close> (\<^verbatim>\<open>event/eventloop.h\<close>, \<^verbatim>\<open>event/eventloop.cpp\<close>, \<^verbatim>\<open>event/handle.h\<close>, \<^verbatim>\<open>event/handle.cpp\<close>): \<open>event_loop\<close>, \<open>run_step\<close>, \<open>handle_release\<close> and the
    creating methods, over a kernel that is a parameter (\<open>kernel_ops\<close>, \<open>kernel_laws\<close>). Clients also open and close descriptors of
    their own; \<open>loop_exec\<close> lets them close at any moment, \<open>loop_exec_kept\<close> only when no valid handle has the descriptor. For the latter registry and
    kernel agree, and creation and release are inverse; for the former every watched descriptor has an entry and a valid handle, \<open>run\<close> ends
    after \<open>stop\<close> within 259 of its own steps (the rest of one batch of 64 events, four steps each), and it is shown what an early close breaks.
  \<^item> \<open>TaskScheduler\<close> (\<^verbatim>\<open>scheduler/taskscheduler.h\<close>, \<^verbatim>\<open>scheduler/taskscheduler.cpp\<close>): \<open>sched\<close>, which extends \<open>event_loop\<close> and contains the pool, the
    futures and shared values; the methods sequentially and in sections; \<open>sched_exec\<close> interleaves everything.
    \<open>SchedulerInvariant\<close> holds its invariant, \<open>SchedulerContract\<close> what the methods do on every branch, that each task runs once and
    that the first outcome of a future is final.
  \<^item> \<open>SchedulerProgress\<close>: properties that span queue, pool, loop, scheduler and futures: every task in the pool can be
    completed, and a fired timer reaches its future.

  \<^bold>\<open>Bounds.\<close> No model uses fuel: loops are steps of an interleaving, or structural recursion. \<open>retireThreshold\<close>, \<open>slotsCount\<close>, the
  batch of 64 events, the capacities 1000 of the queues and the period of 5000 ms are the constants of the
  source. Statements on identifiers hold until the counter \<open>nextId\<close> wraps (\<open>sched_exec_ids\<close>), those on the logger's
  counters for fewer than \<open>2^64\<close> messages.

  \<^bold>\<open>Assumptions.\<close> \<open>kernel_laws\<close> states what the manual pages say of \<open>epoll_create1\<close>, \<open>epoll_ctl\<close>, \<open>epoll_wait\<close>, \<open>timerfd_create\<close>,
  \<open>timerfd_settime\<close>, \<open>eventfd\<close>, \<open>read\<close>, \<open>write\<close>, \<open>close\<close> and of the calls by which a client gets a descriptor of its own (\<open>k_open\<close>); a scripted kernel (\<open>sk_ops\<close>) satisfies it. The formatting functions of the standard
  library are arguments. Interleavings are sequentially consistent.

  \<^bold>\<open>Not modelled.\<close> Memory orders weaker than sequential consistency; failures of allocation and of thread creation; exceptions of
  element types; the bodies of user callables, of which the outcome is chosen by the schedule; real time (a
  timeout may elapse at any moment), and with it when the kernel fires a timer. The pool over \<open>MichaelScottQueue\<close> is not interpreted: that queue keeps the
  contract only while no node is recycled. \<open>init\<close> of the scheduler is one transition, and the scheduler closes no descriptor of a client, of which its interface exposes none. The umbrella header, the logging
  macros, the examples, the tests and the build files have no logic of their own.
\<close>

end
